(* ===== verification/Prelude.thy ===== *)
theory Prelude
  imports Main "HOL-Library.Monad_Syntax"
begin

text \<open>
  Shared vocabulary of the MixT development.

  MixT's transaction compiler runs inside the C++ compiler, as templates and \<open>constexpr\<close>
  functions.  A template program that trips a \<open>static_assert\<close>, or for which overload
  resolution finds no candidate, does not compile: in the model such a computation is
  \<^term>\<open>None\<close>, and every compile-time function returns an \<open>option\<close>.

  This theory holds the lemma collections of the development and the generic facts about
  \<open>those\<close>, \<open>Option.bind\<close> and lists that the components share.
\<close>

named_theorems label_simps \<open>rewriting rules for labels and their order\<close>
named_theorems pool_simps \<open>rewriting rules for the node pool of the parser\<close>
named_theorems clock_simps \<open>rewriting rules for vector clocks\<close>

type_synonym name = string

section \<open>Options\<close>

lemma bind_SomeI: "m = Some x \<Longrightarrow> f x = Some y \<Longrightarrow> Option.bind m f = Some y"
  by simp

lemma bind_Some_iff: "Option.bind m f = Some y \<longleftrightarrow> (\<exists>x. m = Some x \<and> f x = Some y)"
  by (cases m) auto

lemma those_Some_map: "(\<And>x. x \<in> set xs \<Longrightarrow> f x = Some (g x)) \<Longrightarrow> those (map f xs) = Some (map g xs)"
  by (induction xs) auto

lemma those_Some_iff: "those ms = Some xs \<longleftrightarrow> ms = map Some xs"
proof (induction ms arbitrary: xs)
  case (Cons m ms)
  then show ?case by (cases m; cases xs) auto
qed auto

lemma those_map_Some [simp]: "those (map Some xs) = Some xs"
  by (simp add: those_Some_iff)

lemma those_length: "those ms = Some xs \<Longrightarrow> length xs = length ms"
  by (simp add: those_Some_iff)

lemma those_map_nth:
  "those (map f xs) = Some ys \<Longrightarrow> i < length xs \<Longrightarrow> f (xs ! i) = Some (ys ! i)"
  by (metis length_map nth_map those_Some_iff)

section \<open>Lists\<close>

lemma length_eq_Suc_conv: "length xs = Suc n \<longleftrightarrow> (\<exists>y ys. xs = y # ys \<and> length ys = n)"
  by (cases xs) auto

lemma nth_list_update_if: "i < length xs \<Longrightarrow> xs[i := v] ! j = (if i = j then v else xs ! j)"
  by simp

section \<open>Runs of a step relation\<close>

lemma successively_rtranclp: "successively R (x # xs) \<Longrightarrow> R\<^sup>*\<^sup>* x (last (x # xs))"
proof (induction xs arbitrary: x)
  case (Cons y ys)
  then have "R x y" and "R\<^sup>*\<^sup>* y (last (y # ys))" by auto
  then show ?case by (auto intro: converse_rtranclp_into_rtranclp)
qed simp

lemma those_map_mem: "those (map f xs) = Some ys \<Longrightarrow> x \<in> set xs \<Longrightarrow> \<exists>y \<in> set ys. f x = Some y"
  by (induction xs arbitrary: ys) (auto split: option.splits)

lemma those_map_mem_back: "those (map f xs) = Some ys \<Longrightarrow> y \<in> set ys \<Longrightarrow> \<exists>x \<in> set xs. f x = Some y"
  by (induction xs arbitrary: ys) (auto split: option.splits)

lemma those_map_list_all2: "those (map f xs) = Some ys \<Longrightarrow> list_all2 (\<lambda>x y. f x = Some y) xs ys"
  by (induction xs arbitrary: ys) (auto split: option.splits)

end
