(* ===== verification/Labels.thy ===== *)
theory Labels
  imports Prelude
begin

text \<open>
  Consistency labels: \<open>transactions/mtl/top.hpp\<close>, \<open>transactions/mtl/label_utilities.hpp\<close>,
  \<open>transactions/mtl/pre_endorse.hpp\<close>, and the labels of the two stores
  (\<open>transactions/pgsql/SQLLevels.hpp\<close>, \<open>transactions/testing_store/mid.hpp\<close>).

  A C++ type \<open>Label<x>\<close> is a value of \<open>label\<close>: the proper labels, the pre-endorsed ones, the
  temporaries that label inference has yet to fix (\<open>temp_label<seq,depth>\<close>), and the
  unresolved minima (\<open>label_min_of<l,r>\<close>).  \<open>flows_to a b\<close> is the call
  \<open>Label<a>::flows_to(Label<b>{})\<close>; it is \<^term>\<open>None\<close> where no overload matches.
\<close>

section \<open>Labels and the flow relation\<close>

datatype label =
    Top
  | Bottom
  | Mid
  | Strong
  | Causal
  | PreEndorse label
  | Temp int int
  | MinOf label label

definition flows_to_top :: "label \<Rightarrow> bool option" where
  "flows_to_top l = Some True"

definition flows_to_bottom :: "label \<Rightarrow> bool option" where
  "flows_to_bottom l = Some (l = Bottom)"

fun flows_to_mid :: "label \<Rightarrow> bool option" where
  "flows_to_mid Top = Some False"
| "flows_to_mid Bottom = Some True"
| "flows_to_mid (PreEndorse l) = Some False"
| "flows_to_mid Mid = Some True"
| "flows_to_mid _ = None"

fun flows_to_causal :: "label \<Rightarrow> bool option" where
  "flows_to_causal Bottom = Some True"
| "flows_to_causal Top = Some False"
| "flows_to_causal (PreEndorse l) = Some False"
| "flows_to_causal Strong = Some False"
| "flows_to_causal Causal = Some True"
| "flows_to_causal _ = None"

fun flows_to_strong :: "label \<Rightarrow> bool option" where
  "flows_to_strong Bottom = Some True"
| "flows_to_strong Top = Some False"
| "flows_to_strong (PreEndorse l) = Some False"
| "flows_to_strong Causal = Some True"
| "flows_to_strong Strong = Some True"
| "flows_to_strong _ = None"

text \<open>
  A pre-endorsed label compares its content with another pre-endorsed one, never flows to
  \<open>top\<close> and flows to every other named label.  Temporaries and unresolved minima have no
  \<open>flows_to\<close> member.
\<close>

fun flows_to :: "label \<Rightarrow> label \<Rightarrow> bool option" where
  "flows_to Top m = flows_to_top m"
| "flows_to Bottom m = flows_to_bottom m"
| "flows_to Mid m = flows_to_mid m"
| "flows_to Causal m = flows_to_causal m"
| "flows_to Strong m = flows_to_strong m"
| "flows_to (PreEndorse l) m = (case m of
      PreEndorse k \<Rightarrow> flows_to l k
    | Top \<Rightarrow> Some False
    | Temp i j \<Rightarrow> None
    | MinOf a b \<Rightarrow> None
    | _ \<Rightarrow> Some True)"
| "flows_to (Temp i j) m = None"
| "flows_to (MinOf a b) m = None"

lemmas flows_to_defs = flows_to_top_def flows_to_bottom_def

fun is_temp_label :: "label \<Rightarrow> bool" where
  "is_temp_label (Temp i j) = True"
| "is_temp_label _ = False"

fun is_min_of :: "label \<Rightarrow> bool" where
  "is_min_of (MinOf l r) = True"
| "is_min_of _ = False"

fun is_pre_endorsed :: "label \<Rightarrow> bool" where
  "is_pre_endorsed (PreEndorse l) = True"
| "is_pre_endorsed _ = False"

text \<open>\<open>PreEndorse_notop\<close>: wrap a label, unless it is \<open>top\<close> or wrapped already.\<close>

fun PreEndorse_notop :: "label \<Rightarrow> label" where
  "PreEndorse_notop Top = Top"
| "PreEndorse_notop (PreEndorse l) = PreEndorse l"
| "PreEndorse_notop l = PreEndorse l"

text \<open>\<open>label_lte<L1,L2>\<close>: the order by which label lists are sorted.\<close>

definition label_lte :: "label \<Rightarrow> label \<Rightarrow> bool option" where
  "label_lte l1 l2 = flows_to l2 l1"

section \<open>What the compiler needs to know of a label\<close>

record label_traits =
  might_track :: bool
  run_remotely :: bool
  can_abort :: bool

fun traits :: "label \<Rightarrow> label_traits option" where
  "traits Causal = Some \<lparr>might_track = True, run_remotely = True, can_abort = False\<rparr>"
| "traits Strong = Some \<lparr>might_track = False, run_remotely = True, can_abort = True\<rparr>"
| "traits (Temp i j) = None"
| "traits (MinOf a b) = None"
| "traits _ = Some \<lparr>might_track = False, run_remotely = False, can_abort = False\<rparr>"

fun tracks_against :: "label \<Rightarrow> label \<Rightarrow> bool option" where
  "tracks_against Causal m = Some (m = Strong)"
| "tracks_against (Temp i j) m = None"
| "tracks_against (MinOf a b) m = None"
| "tracks_against _ m = Some False"

section \<open>Least and greatest label of a list\<close>

text \<open>
  \<open>labels::min_of\<close> and \<open>labels::max_of\<close>.  Both branches of the \<open>conditional_t\<close> are
  instantiated, so the recursive call must succeed even when the first label is chosen.
\<close>

fun min_of :: "label list \<Rightarrow> label option" where
  "min_of [] = None"
| "min_of [l] = Some l"
| "min_of (l1 # l3 # l2) =
     Option.bind (those (map (\<lambda>m. flows_to m l1) (l3 # l2))) (\<lambda>this_is_min.
     Option.bind (those (map (\<lambda>m. flows_to l1 m) (l3 # l2))) (\<lambda>min_lies_in_rest.
     Option.bind (min_of (l3 # l2)) (\<lambda>rest.
       if list_ex id min_lies_in_rest then Some rest
       else if list_all id this_is_min then Some l1
       else None)))"

fun max_of :: "label list \<Rightarrow> label option" where
  "max_of [] = None"
| "max_of [l] = Some l"
| "max_of (l1 # l3 # l2) =
     Option.bind (those (map (\<lambda>m. flows_to l1 m) (l3 # l2))) (\<lambda>this_is_max.
     Option.bind (those (map (\<lambda>m. flows_to m l1) (l3 # l2))) (\<lambda>max_lies_in_rest.
     Option.bind (max_of (l3 # l2)) (\<lambda>rest.
       if list_ex id max_lies_in_rest then Some rest
       else if list_all id this_is_max then Some l1
       else None)))"

section \<open>Resolving minima\<close>

text \<open>
  \<open>can_resolve\<close> of the specialisations of \<open>Label<label_min_of<l,r>>\<close>.  The generic
  specialisation (neither side a temporary or a minimum) has no such member.
\<close>

fun can_resolve :: "label \<Rightarrow> bool option" where
  "can_resolve (MinOf a b) =
     (if is_min_of a \<and> is_min_of b then
        Option.bind (can_resolve a) (\<lambda>x. Option.bind (can_resolve b) (\<lambda>y. Some (x \<or> y)))
      else if is_min_of a then can_resolve a
      else if is_min_of b then can_resolve b
      else if is_temp_label a \<or> is_temp_label b then Some False
      else None)"
| "can_resolve _ = None"

text \<open>No label can be resolved by way of \<open>can_resolve\<close>: that branch is never taken.\<close>

lemma can_resolve_not_True: "can_resolve l \<noteq> Some True"
proof (induction l rule: can_resolve.induct)
  case (1 a b)
  then show ?case by (auto split: bind_splits if_splits)
qed auto

function resolve :: "label \<Rightarrow> label option" where
  "resolve l = (case l of
      MinOf a b \<Rightarrow>
        if is_min_of a \<or> is_min_of b then
          Option.bind (can_resolve l) (\<lambda>choice.
            if choice then
              (if is_min_of a \<and> is_min_of b then
                 Option.bind (resolve a) (\<lambda>a'. Option.bind (resolve b) (\<lambda>b'. resolve (MinOf a' b')))
               else if is_min_of a then Option.bind (resolve a) (\<lambda>a'. resolve (MinOf a' b))
               else Option.bind (resolve b) (\<lambda>b'. resolve (MinOf b' a)))
            else Some l)
        else if is_temp_label a \<or> is_temp_label b then Some l
        else min_of [a, b]
    | _ \<Rightarrow> None)"
  by pat_completeness auto
termination
  by (relation "measure size") (simp_all add: can_resolve_not_True del: can_resolve.simps)

declare resolve.simps [simp del]

definition resolved_label_min :: "label \<Rightarrow> label \<Rightarrow> label option" where
  "resolved_label_min l r =
     Option.bind (resolve (MinOf l r)) (\<lambda>m. if l = Bottom \<or> r = Bottom then Some Bottom else Some m)"

fun resolved_label_min_vararg :: "label list \<Rightarrow> label option" where
  "resolved_label_min_vararg (a # b # []) = resolved_label_min a b"
| "resolved_label_min_vararg (a # b # c # d) =
     Option.bind (resolved_label_min a b) (\<lambda>m. resolved_label_min_vararg (m # c # d))"
| "resolved_label_min_vararg _ = None"

fun label_min_vararg :: "label list \<Rightarrow> label option" where
  "label_min_vararg (a # b # []) = Some (MinOf a b)"
| "label_min_vararg (a # b # c # d) = label_min_vararg (MinOf a b # c # d)"
| "label_min_vararg _ = None"

section \<open>The laws of a label order\<close>

abbreviation flows :: "label \<Rightarrow> label \<Rightarrow> bool" where
  "flows a b \<equiv> flows_to a b = Some True"

text \<open>Between any labels, also those of different stores, the flow relation is a partial order.\<close>

lemma label_flows_trans: "flows a b \<Longrightarrow> flows b c \<Longrightarrow> flows a c"
proof (induction a arbitrary: b c)
  case Mid
  then show ?case by (cases b; cases c) (auto simp: flows_to_defs)
next
  case Strong
  then show ?case by (cases b; cases c) (auto simp: flows_to_defs)
next
  case Causal
  then show ?case by (cases b; cases c) (auto simp: flows_to_defs)
next
  case (PreEndorse a)
  then show ?case by (cases b; cases c) (auto simp: flows_to_defs)
qed (auto simp: flows_to_defs)

lemma label_flows_antisym: "flows a b \<Longrightarrow> flows b a \<Longrightarrow> a = b"
proof (induction a arbitrary: b)
  case (PreEndorse a)
  then show ?case by (cases b) (auto simp: flows_to_defs)
next
  case Top
  then show ?case by (cases b) (auto simp: flows_to_defs)
next
  case Mid
  then show ?case by (cases b) (auto simp: flows_to_defs)
next
  case Strong
  then show ?case by (cases b) (auto simp: flows_to_defs)
next
  case Causal
  then show ?case by (cases b) (auto simp: flows_to_defs)
qed (auto simp: flows_to_defs)

text \<open>
  The meaning of a label under an assignment of the temporaries: a minimum denotes the
  lower of its two sides.
\<close>

definition label_meet :: "label \<Rightarrow> label \<Rightarrow> label" where
  "label_meet a b = (if flows_to a b = Some True then b else a)"

fun eval_label :: "(int \<Rightarrow> int \<Rightarrow> label) \<Rightarrow> label \<Rightarrow> label" where
  "eval_label \<tau> (Temp i j) = \<tau> i j"
| "eval_label \<tau> (MinOf a b) = label_meet (eval_label \<tau> a) (eval_label \<tau> b)"
| "eval_label \<tau> l = l"

text \<open>
  Resolved labels over a set of proper labels: a minimum is kept only while one of its
  sides is not yet proper.
\<close>

fun resolved_over :: "(label \<Rightarrow> bool) \<Rightarrow> label \<Rightarrow> bool" where
  "resolved_over L (Temp i j) = True"
| "resolved_over L (MinOf a b) = (resolved_over L a \<and> resolved_over L b \<and> \<not> (L a \<and> L b))"
| "resolved_over L l = L l"

lemma resolve_MinOf:
  "resolve (MinOf a b) =
     (if is_min_of a \<or> is_min_of b then map_option (\<lambda>_. MinOf a b) (can_resolve (MinOf a b))
      else if is_temp_label a \<or> is_temp_label b then Some (MinOf a b)
      else min_of [a, b])"
proof (cases "can_resolve (MinOf a b)")
  case None
  then show ?thesis by (simp add: resolve.simps[of "MinOf a b"] del: can_resolve.simps)
next
  case (Some c)
  with can_resolve_not_True have "\<not> c" by (cases c) metis+
  with Some show ?thesis by (simp add: resolve.simps[of "MinOf a b"] del: can_resolve.simps)
qed

locale label_order =
  fixes L :: "label \<Rightarrow> bool"
  assumes proper: "L a \<Longrightarrow> \<not> is_temp_label a \<and> \<not> is_min_of a"
    and flows_total: "L a \<Longrightarrow> L b \<Longrightarrow> flows a b \<or> (flows_to a b = Some False \<and> flows b a)"
    and flows_trans: "L a \<Longrightarrow> L b \<Longrightarrow> L c \<Longrightarrow> flows a b \<Longrightarrow> flows b c \<Longrightarrow> flows a c"
    and flows_antisym: "L a \<Longrightarrow> L b \<Longrightarrow> flows a b \<Longrightarrow> flows b a \<Longrightarrow> a = b"
    and flows_bottom: "L a \<Longrightarrow> flows a Bottom"
    and bottom_proper: "L Bottom"
begin

lemma flows_refl: "L a \<Longrightarrow> flows a a"
  using flows_total[of a a] by auto

lemma defined: "L a \<Longrightarrow> L b \<Longrightarrow> flows_to a b = Some (flows_to a b = Some True)"
  using flows_total[of a b] by auto

lemma not_flows: "L a \<Longrightarrow> L b \<Longrightarrow> flows_to a b \<noteq> Some True \<Longrightarrow> flows b a"
  using flows_total[of a b] by auto

lemma those_flows_from:
  "L a \<Longrightarrow> (\<And>m. m \<in> set ls \<Longrightarrow> L m) \<Longrightarrow>
   those (map (\<lambda>m. flows_to a m) ls) = Some (map (\<lambda>m. flows a m) ls)"
  by (rule those_Some_map) (use defined in blast)

lemma those_flows_into:
  "L a \<Longrightarrow> (\<And>m. m \<in> set ls \<Longrightarrow> L m) \<Longrightarrow>
   those (map (\<lambda>m. flows_to m a) ls) = Some (map (\<lambda>m. flows m a) ls)"
  by (rule those_Some_map) (use defined in blast)

lemma min_of_unfold:
  assumes "L l1" "\<And>m. m \<in> set (l3 # l2) \<Longrightarrow> L m"
  shows "min_of (l1 # l3 # l2) = Option.bind (min_of (l3 # l2)) (\<lambda>rest.
     if \<exists>m \<in> set (l3 # l2). flows l1 m then Some rest
     else if \<forall>m \<in> set (l3 # l2). flows m l1 then Some l1 else None)"
  by (simp only: min_of.simps those_flows_from[OF assms] those_flows_into[OF assms]
      bind.bind_lunit list_ex_iff list_all_iff set_map bex_simps ball_simps id_apply)

lemma max_of_unfold:
  assumes "L l1" "\<And>m. m \<in> set (l3 # l2) \<Longrightarrow> L m"
  shows "max_of (l1 # l3 # l2) = Option.bind (max_of (l3 # l2)) (\<lambda>rest.
     if \<exists>m \<in> set (l3 # l2). flows m l1 then Some rest
     else if \<forall>m \<in> set (l3 # l2). flows l1 m then Some l1 else None)"
  by (simp only: max_of.simps those_flows_from[OF assms] those_flows_into[OF assms]
      bind.bind_lunit list_ex_iff list_all_iff set_map bex_simps ball_simps id_apply)

lemma min_of_least:
  "ls \<noteq> [] \<Longrightarrow> (\<And>l. l \<in> set ls \<Longrightarrow> L l) \<Longrightarrow>
   \<exists>m. min_of ls = Some m \<and> m \<in> set ls \<and> (\<forall>l \<in> set ls. flows l m)"
proof (induction ls rule: induct_list012)
  case (2 l)
  then show ?case using flows_refl[of l] by simp
next
  case (3 l1 l3 l2)
  have Ls: "L l1" "\<And>m. m \<in> set (l3 # l2) \<Longrightarrow> L m" using 3 by auto
  obtain r where r: "min_of (l3 # l2) = Some r" "r \<in> set (l3 # l2)"
    "\<forall>l \<in> set (l3 # l2). flows l r" using "3.IH"(2) Ls(2) by blast
  show ?case
  proof (cases "\<exists>m \<in> set (l3 # l2). flows l1 m")
    case True
    then have "flows l1 r" using flows_trans[of l1 _ r] r Ls by blast
    with True r min_of_unfold[OF Ls] show ?thesis by (auto simp del: min_of.simps)
  next
    case False
    then have "\<forall>m \<in> set (l3 # l2). flows m l1" using not_flows Ls by blast
    with False r(1) min_of_unfold[OF Ls] flows_refl[OF Ls(1)] show ?thesis
      by (auto simp del: min_of.simps)
  qed
qed auto

lemma max_of_greatest:
  "ls \<noteq> [] \<Longrightarrow> (\<And>l. l \<in> set ls \<Longrightarrow> L l) \<Longrightarrow>
   \<exists>m. max_of ls = Some m \<and> m \<in> set ls \<and> (\<forall>l \<in> set ls. flows m l)"
proof (induction ls rule: induct_list012)
  case (2 l)
  then show ?case using flows_refl[of l] by simp
next
  case (3 l1 l3 l2)
  have Ls: "L l1" "\<And>m. m \<in> set (l3 # l2) \<Longrightarrow> L m" using 3 by auto
  obtain r where r: "max_of (l3 # l2) = Some r" "r \<in> set (l3 # l2)"
    "\<forall>l \<in> set (l3 # l2). flows r l" using "3.IH"(2) Ls(2) by blast
  show ?case
  proof (cases "\<exists>m \<in> set (l3 # l2). flows m l1")
    case True
    then have "flows r l1" using flows_trans[of r _ l1] r Ls by blast
    with True r max_of_unfold[OF Ls] show ?thesis by (auto simp del: max_of.simps)
  next
    case False
    then have "\<forall>m \<in> set (l3 # l2). flows l1 m" using not_flows Ls by blast
    with False r(1) max_of_unfold[OF Ls] flows_refl[OF Ls(1)] show ?thesis
      by (auto simp del: max_of.simps)
  qed
qed auto

lemma min_of_pair: "L a \<Longrightarrow> L b \<Longrightarrow> min_of [a, b] = Some (label_meet a b)"
  using min_of_unfold[of a b "[]"] not_flows[of a b] by (auto simp: label_meet_def simp del: min_of.simps(3))

lemma label_meet_closed: "L a \<Longrightarrow> L b \<Longrightarrow> L (label_meet a b)"
  by (simp add: label_meet_def)

lemma label_meet_lower: "L a \<Longrightarrow> L b \<Longrightarrow> flows a (label_meet a b) \<and> flows b (label_meet a b)"
  using flows_refl[of a] flows_refl[of b] not_flows[of a b] by (auto simp: label_meet_def)

lemma label_meet_greatest:
  "flows c' a \<Longrightarrow> flows c' b \<Longrightarrow> flows c' (label_meet a b)"
  by (simp add: label_meet_def)

lemma flows_label_meet_iff:
  "L a \<Longrightarrow> L b \<Longrightarrow> L c \<Longrightarrow> flows (label_meet a b) c \<longleftrightarrow> flows a c \<and> flows b c"
  using flows_trans[of a b c] flows_trans[of b a c] not_flows[of a b] by (auto simp: label_meet_def)

lemma label_meet_commute: "L a \<Longrightarrow> L b \<Longrightarrow> label_meet a b = label_meet b a"
  using flows_total[of a b] flows_antisym[of a b] by (auto simp: label_meet_def)

lemma resolved_overE:
  "resolved_over L a \<Longrightarrow> is_temp_label a \<or> is_min_of a \<or> L a"
  by (cases a) auto

lemma can_resolve_resolved: "resolved_over L l \<Longrightarrow> is_min_of l \<Longrightarrow> can_resolve l = Some False"
proof (induction l rule: can_resolve.induct)
  case (1 a b)
  then show ?case using resolved_overE[of a] resolved_overE[of b] by auto
qed auto

lemma eval_label_proper: "L a \<Longrightarrow> eval_label \<tau> a = a"
  using proper[of a] by (cases a) auto

lemma eval_label_closed:
  "resolved_over L a \<Longrightarrow> (\<And>i j. L (\<tau> i j)) \<Longrightarrow> L (eval_label \<tau> a)"
  by (induction a) (auto intro: label_meet_closed)

lemma resolve_resolved:
  assumes "resolved_over L a" "resolved_over L b"
  obtains c where "resolve (MinOf a b) = Some c" "resolved_over L c"
    "\<And>\<tau>. eval_label \<tau> c = label_meet (eval_label \<tau> a) (eval_label \<tau> b)"
proof (cases "L a \<and> L b")
  case True
  then have "resolve (MinOf a b) = Some (label_meet a b)"
    using proper[of a] proper[of b] min_of_pair[of a b] by (simp add: resolve_MinOf)
  moreover have "resolved_over L (label_meet a b)"
    using assms by (simp add: label_meet_def)
  moreover have "eval_label \<tau> (label_meet a b) = label_meet (eval_label \<tau> a) (eval_label \<tau> b)" for \<tau>
    using True by (simp add: eval_label_proper label_meet_closed)
  ultimately show ?thesis by (rule that)
next
  case False
  with assms have r: "resolved_over L (MinOf a b)" by simp
  have "resolve (MinOf a b) = Some (MinOf a b)"
    using False can_resolve_resolved[OF r] resolved_overE[OF assms(1)] resolved_overE[OF assms(2)]
    by (auto simp: resolve_MinOf simp del: can_resolve.simps)
  then show ?thesis using r that by simp
qed

lemma label_meet_Bottom: "L a \<Longrightarrow> label_meet a Bottom = Bottom \<and> label_meet Bottom a = Bottom"
  using flows_bottom[of a] by (auto simp: label_meet_def flows_to_defs)

lemma resolved_label_min_resolved:
  assumes "resolved_over L a" "resolved_over L b"
  obtains c where "resolved_label_min a b = Some c" "resolved_over L c"
    "\<And>\<tau>. (\<And>i j. L (\<tau> i j)) \<Longrightarrow> eval_label \<tau> c = label_meet (eval_label \<tau> a) (eval_label \<tau> b)"
proof (rule resolve_resolved[OF assms])
  fix c assume c: "resolve (MinOf a b) = Some c" "resolved_over L c"
    "\<And>\<tau>. eval_label \<tau> c = label_meet (eval_label \<tau> a) (eval_label \<tau> b)"
  show ?thesis
  proof (cases "a = Bottom \<or> b = Bottom")
    case True
    have "eval_label \<tau> Bottom = label_meet (eval_label \<tau> a) (eval_label \<tau> b)"
      if "\<And>i j. L (\<tau> i j)" for \<tau>
      using True label_meet_Bottom eval_label_closed[OF assms(1) that] eval_label_closed[OF assms(2) that]
      by auto
    with True c show ?thesis
      by (intro that[of Bottom]) (simp_all add: resolved_label_min_def bottom_proper)
  next
    case False
    with c show ?thesis by (intro that[of c]) (simp_all add: resolved_label_min_def)
  qed
qed

end

section \<open>The two label orders of the repository\<close>

text \<open>The labels of the SQL stores, with the pre-endorsed ones, form a chain.\<close>

fun sql_label :: "label \<Rightarrow> bool" where
  "sql_label Top = True"
| "sql_label Bottom = True"
| "sql_label Strong = True"
| "sql_label Causal = True"
| "sql_label (PreEndorse l) = (l = Strong \<or> l = Causal \<or> l = Bottom)"
| "sql_label _ = False"

fun sql_rank :: "label \<Rightarrow> nat" where
  "sql_rank Bottom = 0"
| "sql_rank Causal = 1"
| "sql_rank Strong = 2"
| "sql_rank (PreEndorse l) = 3 + sql_rank l"
| "sql_rank Top = 6"
| "sql_rank _ = 0"

lemma flows_to_sql: "sql_label a \<Longrightarrow> sql_label b \<Longrightarrow> flows_to a b = Some (sql_rank b \<le> sql_rank a)"
  by (cases a; cases b) (auto simp: flows_to_defs)

lemma sql_rank_inj: "sql_label a \<Longrightarrow> sql_label b \<Longrightarrow> sql_rank a = sql_rank b \<Longrightarrow> a = b"
  by (cases a; cases b) auto

interpretation sql: label_order sql_label
proof
  fix a assume "sql_label a"
  then show "\<not> is_temp_label a \<and> \<not> is_min_of a" by (cases a) auto
next
  fix a b assume "sql_label a" "sql_label b"
  then show "flows a b \<or> (flows_to a b = Some False \<and> flows b a)" by (auto simp: flows_to_sql)
next
  fix a b c assume "sql_label a" "sql_label b" "sql_label c" "flows a b" "flows b c"
  then show "flows a c" by (simp add: flows_to_sql)
next
  fix a b assume "sql_label a" "sql_label b" "flows a b" "flows b a"
  then show "a = b" using sql_rank_inj[of a b] by (simp add: flows_to_sql)
next
  fix a assume "sql_label a"
  then show "flows a Bottom" by (simp add: flows_to_sql)
qed simp

text \<open>The labels of the in-memory testing store.\<close>

fun testing_label :: "label \<Rightarrow> bool" where
  "testing_label Top = True"
| "testing_label Mid = True"
| "testing_label Bottom = True"
| "testing_label (PreEndorse l) = (l = Mid \<or> l = Bottom)"
| "testing_label _ = False"

fun testing_rank :: "label \<Rightarrow> nat" where
  "testing_rank Bottom = 0"
| "testing_rank Mid = 1"
| "testing_rank (PreEndorse l) = 2 + testing_rank l"
| "testing_rank Top = 4"
| "testing_rank _ = 0"

lemma flows_to_testing:
  "testing_label a \<Longrightarrow> testing_label b \<Longrightarrow> flows_to a b = Some (testing_rank b \<le> testing_rank a)"
  by (cases a; cases b) (auto simp: flows_to_defs)

interpretation testing: label_order testing_label
proof
  fix a assume "testing_label a"
  then show "\<not> is_temp_label a \<and> \<not> is_min_of a" by (cases a) auto
next
  fix a b assume "testing_label a" "testing_label b"
  then show "flows a b \<or> (flows_to a b = Some False \<and> flows b a)" by (auto simp: flows_to_testing)
next
  fix a b c assume "testing_label a" "testing_label b" "testing_label c" "flows a b" "flows b c"
  then show "flows a c" by (simp add: flows_to_testing)
next
  fix a b assume "testing_label a" "testing_label b" "flows a b" "flows b a"
  then show "a = b" by (cases a; cases b) (auto simp: flows_to_defs)
next
  fix a assume "testing_label a"
  then show "flows a Bottom" by (simp add: flows_to_testing)
qed simp

section \<open>Properties\<close>

text \<open>
  C25: over the labels of the SQL stores, pre-endorsed ones included,
  \<open>flows_to\<close> is defined for every pair and is a total order from \<open>top\<close> down to \<open>bottom\<close>: in
  particular \<open>strong\<close> flows to \<open>causal\<close> and not back.
\<close>

theorem flows_to_total_order_sql:
  assumes "sql_label a" and "sql_label b" and "sql_label c"
  shows "flows_to a b \<noteq> None \<and> (flows a b \<or> flows b a) \<and> (flows a b \<and> flows b a \<longrightarrow> a = b) \<and>
    (flows a b \<and> flows b c \<longrightarrow> flows a c) \<and> flows Top a \<and> flows a Bottom"
  using assms sql.defined[OF assms(1,2)] sql.flows_total[OF assms(1,2)] sql.flows_antisym[OF assms(1,2)]
    sql.flows_trans[OF assms] sql.flows_bottom[OF assms(1)]
  by (auto simp: flows_to_defs)

theorem flows_to_total_order_sql_witness:
  "flows Strong Causal \<and> \<not> flows Causal Strong \<and> flows (PreEndorse Causal) Causal"
  using flows_to_total_order_sql[of Causal Strong "PreEndorse Causal"] by simp

text \<open>
  C26: \<open>labels::min_of\<close> of a non-empty list of labels of the SQL stores is the label of
  the list that all of them flow to, and \<open>labels::max_of\<close> the one that flows to all of them.
\<close>

theorem min_of_sql:
  assumes "ls \<noteq> []" and "\<forall>l \<in> set ls. sql_label l"
  shows "(\<exists>m \<in> set ls. min_of ls = Some m \<and> (\<forall>l \<in> set ls. flows l m)) \<and>
    (\<exists>m \<in> set ls. max_of ls = Some m \<and> (\<forall>l \<in> set ls. flows m l))"
  using assms sql.min_of_least[of ls] sql.max_of_greatest[of ls] by blast

theorem min_of_sql_witness:
  "min_of [Top, Causal, Strong, Causal] = Some Causal \<and> max_of [Causal, PreEndorse Strong, Strong] = Some (PreEndorse Strong)"
  using min_of_sql[of "[Top, Causal, Strong, Causal]"] min_of_sql[of "[Causal, PreEndorse Strong, Strong]"]
  by (auto simp: flows_to_defs)

text \<open>
  C13: \<open>resolved_label_min\<close> compiles for all labels that the type checker
  can meet (proper ones, temporaries, and unresolved minima), its result is again of that
  kind, and whatever the temporaries turn out to be, it denotes the lower of the two labels.
\<close>

theorem resolved_label_min_sql:
  assumes "resolved_over sql_label a" and "resolved_over sql_label b"
  shows "\<exists>c. resolved_label_min a b = Some c \<and> resolved_over sql_label c \<and>
    (\<forall>\<tau>. (\<forall>i j. sql_label (\<tau> i j)) \<longrightarrow>
       eval_label \<tau> c = label_meet (eval_label \<tau> a) (eval_label \<tau> b))"
  by (rule sql.resolved_label_min_resolved[OF assms]) blast

theorem resolved_label_min_sql_witness:
  "\<exists>c. resolved_label_min Strong (MinOf (Temp 1 2) Causal) = Some c \<and>
     eval_label (\<lambda>i j. Strong) c = Causal"
  using resolved_label_min_sql[of Strong "MinOf (Temp 1 2) Causal"]
  by (auto simp: label_meet_def)

text \<open>
  \<open>can_resolve\<close> never returns true, so a minimum that contains another minimum is
  never resolved: the overload \<open>resolve(true_type)\<close> of \<open>Label<label_min_of<l,r>>\<close> is dead code.
\<close>

theorem can_resolve_never:
  "can_resolve l \<noteq> Some True \<and> (is_min_of a \<longrightarrow> resolve (MinOf a b) \<in> {None, Some (MinOf a b)})"
  using can_resolve_not_True[of l] by (auto simp: resolve_MinOf simp del: can_resolve.simps)

theorem can_resolve_never_witness:
  "resolve (MinOf (MinOf (Temp 1 1) Strong) Causal) = Some (MinOf (MinOf (Temp 1 1) Strong) Causal)"
  using can_resolve_never[of Top "MinOf (Temp 1 1) Strong" Causal] by (auto simp: resolve_MinOf)

end
