(* ===== verification/TypedAst.thy ===== *)
theory TypedAst
  imports Labels
begin

text \<open>
  The typed and labelled syntax tree, \<open>transactions/mtl/AST_typecheck.hpp\<close>
  (\<open>typecheck_phase\<close>), and the traversals over its labels:
  \<open>transactions/mtl/replace_label.hpp\<close>, \<open>collect_proper_label.hpp\<close> and
  \<open>contains_improper_labels.hpp\<close>.

  \<open>ytype\<close> is the C++ type that an expression yields.  What these traversals need of it is the
  label of a handle, \<open>Handle<Label<l>,T,ops...>\<close>; \<open>ListStub\<close> has one too.
\<close>

datatype ytype =
    Y_int
  | Y_bool
  | Y_Tombstone
  | Y_Handle label ytype "name list"
  | Y_ListStub
  | Y_other name

fun handle_label_of :: "ytype \<Rightarrow> label option" where
  "handle_label_of (Y_Handle l t ops) = Some l"
| "handle_label_of Y_ListStub = Some Bottom"
| "handle_label_of _ = None"

fun is_handle :: "ytype \<Rightarrow> bool" where
  "is_handle (Y_Handle l t ops) = True"
| "is_handle _ = False"

text \<open>
  Expressions, bindings and statements.  An \<open>IsValid\<close> yields \<open>bool\<close>, a \<open>Constant\<close> is an
  \<open>int\<close> labelled \<open>top\<close>, and a \<open>Return\<close> is labelled \<open>bottom\<close>.
\<close>

datatype lexpr =
    LE_FieldReference label ytype lexpr name
  | LE_VarReference label ytype name
  | LE_Constant int
  | LE_BinOp label ytype char lexpr lexpr
  | LE_GenerateTombstone label
  | LE_IsValid label lexpr
  | LE_Endorse label ytype lexpr
  | LE_Operation label ytype name lexpr "lexpr list"

datatype lbinding = LBinding label ytype name lexpr

datatype lstmt =
    LS_Let label lbinding lstmt
  | LS_LetRemote label lbinding lstmt
  | LS_Operation label name lexpr "lexpr list"
  | LS_Assignment label lexpr lexpr
  | LS_Return lexpr
  | LS_WriteTombstone label lexpr
  | LS_AccompanyWrite label lexpr
  | LS_If label lexpr lstmt lstmt
  | LS_While label lexpr lstmt
  | LS_Sequence label "lstmt list"

fun expr_label :: "lexpr \<Rightarrow> label" where
  "expr_label (LE_FieldReference l y s f) = l"
| "expr_label (LE_VarReference l y v) = l"
| "expr_label (LE_Constant i) = Top"
| "expr_label (LE_BinOp l y op a b) = l"
| "expr_label (LE_GenerateTombstone l) = l"
| "expr_label (LE_IsValid l h) = l"
| "expr_label (LE_Endorse l y h) = l"
| "expr_label (LE_Operation l y n h as) = l"

fun expr_yield :: "lexpr \<Rightarrow> ytype" where
  "expr_yield (LE_FieldReference l y s f) = y"
| "expr_yield (LE_VarReference l y v) = y"
| "expr_yield (LE_Constant i) = Y_int"
| "expr_yield (LE_BinOp l y op a b) = y"
| "expr_yield (LE_GenerateTombstone l) = Y_Tombstone"
| "expr_yield (LE_IsValid l h) = Y_bool"
| "expr_yield (LE_Endorse l y h) = y"
| "expr_yield (LE_Operation l y n h as) = y"

fun stmt_label :: "lstmt \<Rightarrow> label" where
  "stmt_label (LS_Let l b s) = l"
| "stmt_label (LS_LetRemote l b s) = l"
| "stmt_label (LS_Operation l n h as) = l"
| "stmt_label (LS_Assignment l v e) = l"
| "stmt_label (LS_Return e) = Bottom"
| "stmt_label (LS_WriteTombstone l e) = l"
| "stmt_label (LS_AccompanyWrite l e) = l"
| "stmt_label (LS_If l c t e) = l"
| "stmt_label (LS_While l c b) = l"
| "stmt_label (LS_Sequence l ss) = l"

section \<open>Replacing a temporary\<close>

text \<open>\<open>replace_label<Label<temp_label<a,b>>, n>::label_replace\<close>.\<close>

fun label_replace :: "int \<Rightarrow> int \<Rightarrow> label \<Rightarrow> label \<Rightarrow> label option" where
  "label_replace a b n (MinOf l r) = do {
     l' \<leftarrow> label_replace a b n l; r' \<leftarrow> label_replace a b n r; resolve (MinOf l' r') }"
| "label_replace a b n l = Some (if l = Temp a b then n else l)"

text \<open>
  \<open>replace\<close>.  There is no overload for tombstone statements and expressions, which are
  inserted after inference, and \<open>Endorse<l,h>\<close> keeps its own \<open>l\<close>, which must still be the
  label of the expression.
\<close>

fun replace_expr :: "int \<Rightarrow> int \<Rightarrow> label \<Rightarrow> lexpr \<Rightarrow> lexpr option"
  and replace_exprs :: "int \<Rightarrow> int \<Rightarrow> label \<Rightarrow> lexpr list \<Rightarrow> lexpr list option" where
  "replace_expr a b n (LE_FieldReference l y s f) = do {
     l' \<leftarrow> label_replace a b n l; s' \<leftarrow> replace_expr a b n s; Some (LE_FieldReference l' y s' f) }"
| "replace_expr a b n (LE_VarReference l y v) = do {
     l' \<leftarrow> label_replace a b n l; Some (LE_VarReference l' y v) }"
| "replace_expr a b n (LE_Constant i) = Some (LE_Constant i)"
| "replace_expr a b n (LE_BinOp l y op L R) = do {
     l' \<leftarrow> label_replace a b n l; L' \<leftarrow> replace_expr a b n L; R' \<leftarrow> replace_expr a b n R;
     Some (LE_BinOp l' y op L' R') }"
| "replace_expr a b n (LE_IsValid l h) = do {
     l' \<leftarrow> label_replace a b n l; h' \<leftarrow> replace_expr a b n h; Some (LE_IsValid l' h') }"
| "replace_expr a b n (LE_Endorse l y h) = do {
     l' \<leftarrow> label_replace a b n l; h' \<leftarrow> replace_expr a b n h;
     if l' = l then Some (LE_Endorse l y h') else None }"
| "replace_expr a b n (LE_Operation l y nm h as) = do {
     l' \<leftarrow> label_replace a b n l; h' \<leftarrow> replace_expr a b n h; as' \<leftarrow> replace_exprs a b n as;
     Some (LE_Operation l' y nm h' as') }"
| "replace_expr a b n (LE_GenerateTombstone l) = None"
| "replace_exprs a b n [] = Some []"
| "replace_exprs a b n (e # es) = do {
     e' \<leftarrow> replace_expr a b n e; es' \<leftarrow> replace_exprs a b n es; Some (e' # es') }"

fun replace_binding :: "int \<Rightarrow> int \<Rightarrow> label \<Rightarrow> lbinding \<Rightarrow> lbinding option" where
  "replace_binding a b n (LBinding l y v e) = do {
     l' \<leftarrow> label_replace a b n l; e' \<leftarrow> replace_expr a b n e; Some (LBinding l' y v e') }"

fun replace_stmt :: "int \<Rightarrow> int \<Rightarrow> label \<Rightarrow> lstmt \<Rightarrow> lstmt option"
  and replace_stmts :: "int \<Rightarrow> int \<Rightarrow> label \<Rightarrow> lstmt list \<Rightarrow> lstmt list option" where
  "replace_stmt a b n (LS_Operation l nm h as) = do {
     l' \<leftarrow> label_replace a b n l; h' \<leftarrow> replace_expr a b n h; as' \<leftarrow> replace_exprs a b n as;
     Some (LS_Operation l' nm h' as') }"
| "replace_stmt a b n (LS_Assignment l v e) = do {
     l' \<leftarrow> label_replace a b n l; v' \<leftarrow> replace_expr a b n v; e' \<leftarrow> replace_expr a b n e;
     Some (LS_Assignment l' v' e') }"
| "replace_stmt a b n (LS_Return e) = do { e' \<leftarrow> replace_expr a b n e; Some (LS_Return e') }"
| "replace_stmt a b n (LS_Let l bi s) = do {
     l' \<leftarrow> label_replace a b n l; bi' \<leftarrow> replace_binding a b n bi; s' \<leftarrow> replace_stmt a b n s;
     Some (LS_Let l' bi' s') }"
| "replace_stmt a b n (LS_LetRemote l bi s) = do {
     l' \<leftarrow> label_replace a b n l; bi' \<leftarrow> replace_binding a b n bi; s' \<leftarrow> replace_stmt a b n s;
     Some (LS_LetRemote l' bi' s') }"
| "replace_stmt a b n (LS_If l c t e) = do {
     l' \<leftarrow> label_replace a b n l; c' \<leftarrow> replace_expr a b n c; t' \<leftarrow> replace_stmt a b n t;
     e' \<leftarrow> replace_stmt a b n e; Some (LS_If l' c' t' e') }"
| "replace_stmt a b n (LS_While l c s) = do {
     l' \<leftarrow> label_replace a b n l; c' \<leftarrow> replace_expr a b n c; s' \<leftarrow> replace_stmt a b n s;
     Some (LS_While l' c' s') }"
| "replace_stmt a b n (LS_Sequence l ss) = do {
     l' \<leftarrow> label_replace a b n l; ss' \<leftarrow> replace_stmts a b n ss; Some (LS_Sequence l' ss') }"
| "replace_stmt a b n (LS_WriteTombstone l e) = None"
| "replace_stmt a b n (LS_AccompanyWrite l e) = None"
| "replace_stmts a b n [] = Some []"
| "replace_stmts a b n (s # ss) = do {
     s' \<leftarrow> replace_stmt a b n s; ss' \<leftarrow> replace_stmts a b n ss; Some (s' # ss') }"

section \<open>The labels of a program\<close>

text \<open>
  \<open>collect_labels_helper\<close> has three groups of overloads, for nodes labelled with a minimum, with
  a temporary, and with anything else; the first descends into the minimum by way of
  \<open>dummy_varref\<close>.  The \<open>typeset\<close> is a list here, in the order of the calls; the nodes that only
  the last group covers contribute their label as it is.
\<close>

definition collect_match :: "label \<Rightarrow> label list \<Rightarrow> label list" where
  "collect_match l rest = l # rest"

definition collect_temp :: "label list \<Rightarrow> label list" where
  "collect_temp rest = rest"

fun collect_node :: "label \<Rightarrow> label list \<Rightarrow> label list" where
  "collect_node (MinOf l r) rest = collect_node l [] @ collect_node r [] @ rest"
| "collect_node (Temp i j) rest = collect_temp rest"
| "collect_node l rest = collect_match l rest"

fun collect_labels_expr :: "lexpr \<Rightarrow> label list" where
  "collect_labels_expr (LE_FieldReference l y s f) = collect_node l (collect_labels_expr s)"
| "collect_labels_expr (LE_VarReference l y v) = collect_node l []"
| "collect_labels_expr (LE_Constant i) = [Top]"
| "collect_labels_expr (LE_BinOp l y op L R) =
     collect_node l (collect_labels_expr L @ collect_labels_expr R)"
| "collect_labels_expr (LE_GenerateTombstone l) = collect_node l []"
| "collect_labels_expr (LE_IsValid l h) = collect_node l (collect_labels_expr h)"
| "collect_labels_expr (LE_Endorse l y h) = collect_match l (collect_labels_expr h)"
| "collect_labels_expr (LE_Operation l y n h as) =
     collect_node l (collect_labels_expr h @ concat (map collect_labels_expr as))"

fun collect_labels_binding :: "lbinding \<Rightarrow> label list" where
  "collect_labels_binding (LBinding l y v e) = collect_node l (collect_labels_expr e)"

fun collect_labels_stmt :: "lstmt \<Rightarrow> label list" where
  "collect_labels_stmt (LS_Assignment l v e) =
     collect_node l (collect_labels_expr v @ collect_labels_expr e)"
| "collect_labels_stmt (LS_Return e) = collect_match Bottom (collect_labels_expr e)"
| "collect_labels_stmt (LS_WriteTombstone l e) = collect_match l (collect_labels_expr e)"
| "collect_labels_stmt (LS_AccompanyWrite l e) = collect_match l (collect_labels_expr e)"
| "collect_labels_stmt (LS_Let l b s) =
     collect_node l (collect_labels_binding b @ collect_labels_stmt s)"
| "collect_labels_stmt (LS_LetRemote l b s) =
     collect_node l (collect_labels_binding b @ collect_labels_stmt s)"
| "collect_labels_stmt (LS_Operation l n h as) =
     collect_node l (collect_labels_expr h @ concat (map collect_labels_expr as))"
| "collect_labels_stmt (LS_If l c t e) =
     collect_node l (collect_labels_expr c @ collect_labels_stmt t @ collect_labels_stmt e)"
| "collect_labels_stmt (LS_While l c s) = collect_node l (collect_labels_expr c @ collect_labels_stmt s)"
| "collect_labels_stmt (LS_Sequence l ss) = collect_node l (concat (map collect_labels_stmt ss))"

text \<open>\<open>collect_proper_labels\<close>, with \<open>typeset::as_sorted_list\<close> of \<open>mutils\<close> as the parameter \<open>as_sorted_list\<close>.\<close>

definition collect_proper_labels :: "(label list \<Rightarrow> label list) \<Rightarrow> lstmt \<Rightarrow> label list" where
  "collect_proper_labels as_sorted_list ast = as_sorted_list (collect_labels_stmt ast)"

section \<open>Programs with labels left to resolve\<close>

text \<open>
  \<open>contains_improper_labels\<close>, again by the three groups of overloads.
  The groups for minima and temporaries leave out \<open>Endorse\<close>, \<open>Return\<close> and the tombstone
  statements.
\<close>

definition improper_min :: "bool \<Rightarrow> bool" where
  "improper_min rest = True"

definition improper_temp :: "bool \<Rightarrow> bool" where
  "improper_temp rest = True"

fun improper_node :: "label \<Rightarrow> bool \<Rightarrow> bool" where
  "improper_node (MinOf l r) rest = improper_min rest"
| "improper_node (Temp i j) rest = improper_temp rest"
| "improper_node l rest = rest"

fun contains_improper_expr :: "lexpr \<Rightarrow> bool" where
  "contains_improper_expr (LE_FieldReference l y s f) = improper_node l (contains_improper_expr s)"
| "contains_improper_expr (LE_VarReference l y v) = improper_node l False"
| "contains_improper_expr (LE_Constant i) = False"
| "contains_improper_expr (LE_BinOp l y op L R) =
     improper_node l (contains_improper_expr L \<or> contains_improper_expr R)"
| "contains_improper_expr (LE_GenerateTombstone l) = improper_node l False"
| "contains_improper_expr (LE_IsValid l h) = improper_node l (contains_improper_expr h)"
| "contains_improper_expr (LE_Endorse l y h) = contains_improper_expr h"
| "contains_improper_expr (LE_Operation l y n h as) =
     improper_node l (contains_improper_expr h \<or> list_ex contains_improper_expr as)"

fun contains_improper_binding :: "lbinding \<Rightarrow> bool" where
  "contains_improper_binding (LBinding l y v e) = improper_node l (contains_improper_expr e)"

fun contains_improper_stmt :: "lstmt \<Rightarrow> bool" where
  "contains_improper_stmt (LS_Assignment l v e) =
     improper_node l (contains_improper_expr v \<or> contains_improper_expr e)"
| "contains_improper_stmt (LS_Return e) = contains_improper_expr e"
| "contains_improper_stmt (LS_WriteTombstone l e) = contains_improper_expr e"
| "contains_improper_stmt (LS_AccompanyWrite l e) = contains_improper_expr e"
| "contains_improper_stmt (LS_Let l b s) =
     improper_node l (contains_improper_binding b \<or> contains_improper_stmt s)"
| "contains_improper_stmt (LS_LetRemote l b s) =
     improper_node l (contains_improper_binding b \<or> contains_improper_stmt s)"
| "contains_improper_stmt (LS_Operation l n h as) =
     improper_node l (contains_improper_expr h \<or> list_ex contains_improper_expr as)"
| "contains_improper_stmt (LS_If l c t e) =
     improper_node l (contains_improper_expr c \<or> contains_improper_stmt t \<or> contains_improper_stmt e)"
| "contains_improper_stmt (LS_While l c s) =
     improper_node l (contains_improper_expr c \<or> contains_improper_stmt s)"
| "contains_improper_stmt (LS_Sequence l ss) = improper_node l (list_ex contains_improper_stmt ss)"

end
