(* ===== verification/LabelInference.thy ===== *)
theory LabelInference
  imports TypedAst
begin

text \<open>
  Label inference, \<open>transactions/mtl/label_inference.hpp\<close>: collect the flows of a program as
  constraints between labels, then give every temporary label the least proper label that
  flows into it, from the bottom label upwards.

  Parameters, from the \<open>mutils\<close> library: \<open>csort\<close> is \<open>typelist<...>::sort<lte>\<close> on constraints,
  \<open>dedupe\<close> is \<open>typeset<>::add<...>\<close> read back as a list, and \<open>as_sorted_list\<close> is
  \<open>typeset::as_sorted_list<label_lte>\<close>.
\<close>

section \<open>Constraints\<close>

record must_flow_to =
  high :: label
  low :: label
  why :: string

definition flow :: "label \<Rightarrow> label \<Rightarrow> string \<Rightarrow> must_flow_to" where
  "flow h l w = \<lparr>high = h, low = l, why = w\<rparr>"

definition substitute :: "label \<Rightarrow> label \<Rightarrow> must_flow_to \<Rightarrow> must_flow_to" where
  "substitute newl oldl c =
     \<lparr>high = (if oldl = high c then newl else high c),
      low = (if oldl = low c then newl else low c), why = why c\<rparr>"

fun less_than :: "label \<Rightarrow> label \<Rightarrow> bool option" where
  "less_than (Temp l1 l2) (Temp r1 r2) = Some (if l1 < r1 then True else l2 < r2)"
| "less_than l (Temp l1 l2) = Some True"
| "less_than (Temp l1 l2) l = Some False"
| "less_than a b = flows_to b a"

text \<open>\<open>must_flow_to::lte\<close>: constraints whose \<open>high\<close> is a temporary come last.\<close>

definition lte :: "must_flow_to \<Rightarrow> must_flow_to \<Rightarrow> bool option" where
  "lte c d =
    (if is_temp_label (high c) then
       (if is_temp_label (high d) then less_than (low c) (low d) else Some False)
     else if is_temp_label (high d) then Some True
     else do { b \<leftarrow> less_than (high c) (high d); if b then Some True else less_than (low c) (low d) })"

section \<open>Collecting\<close>

fun collect_constraints_expr :: "label \<Rightarrow> lexpr \<Rightarrow> must_flow_to list option"
  and collect_constraints_exprs :: "label \<Rightarrow> lexpr list \<Rightarrow> must_flow_to list option" where
  "collect_constraints_expr pc (LE_FieldReference l y s f) = collect_constraints_expr pc s"
| "collect_constraints_expr pc (LE_VarReference l y v) = Some []"
| "collect_constraints_expr pc (LE_Constant i) = Some []"
| "collect_constraints_expr pc (LE_BinOp l y op L R) = do {
     cl \<leftarrow> collect_constraints_expr pc L; cr \<leftarrow> collect_constraints_expr pc R; Some (cl @ cr) }"
| "collect_constraints_expr pc (LE_IsValid l h) = do {
     hl \<leftarrow> handle_label_of (expr_yield h);
     ch \<leftarrow> collect_constraints_expr (MinOf (MinOf pc (expr_label h)) hl) h;
     Some (ch @ [flow (expr_label h) hl ''isvalid, expr -> hndl'']) }"
| "collect_constraints_expr pc (LE_Endorse l y h) = collect_constraints_expr pc h"
| "collect_constraints_expr pc (LE_Operation l y n h as) = do {
     hl \<leftarrow> handle_label_of (expr_yield h);
     new_pc \<leftarrow> label_min_vararg (pc # expr_label h # hl # map expr_label as);
     ch \<leftarrow> collect_constraints_expr new_pc h;
     cas \<leftarrow> collect_constraints_exprs new_pc as;
     Some (ch @ (flow (expr_label h) hl ''statement_operation, expr -> hndl'' #
             map (\<lambda>a. flow (expr_label a) hl ''statement_operation, args -> hndl'') as) @ cas) }"
| "collect_constraints_expr pc (LE_GenerateTombstone l) = None"
| "collect_constraints_exprs pc [] = Some []"
| "collect_constraints_exprs pc (e # es) = do {
     c \<leftarrow> collect_constraints_expr pc e; cs \<leftarrow> collect_constraints_exprs pc es; Some (c @ cs) }"

text \<open>The code gives the bound expression the type of the binding first; what is collected from an expression
  does not depend on its own type.\<close>

fun collect_constraints_binding :: "label \<Rightarrow> lbinding \<Rightarrow> must_flow_to list option" where
  "collect_constraints_binding pc (LBinding l y v e) = do {
     ce \<leftarrow> collect_constraints_expr pc e;
     Some (flow (expr_label e) l ''bound expression'' # flow pc l ''bound expression, pc'' # ce) }"

text \<open>\<open>_collect_operation_constraints\<close>, for both the statement and the expression.\<close>

definition collect_operation_constraints :: "label \<Rightarrow> lexpr \<Rightarrow> lexpr list \<Rightarrow> must_flow_to list option" where
  "collect_operation_constraints pc h as = do {
     hl \<leftarrow> handle_label_of (expr_yield h);
     new_pc \<leftarrow> label_min_vararg (pc # expr_label h # hl # map expr_label as);
     ch \<leftarrow> collect_constraints_expr new_pc h;
     cas \<leftarrow> collect_constraints_exprs new_pc as;
     Some (ch @ (flow (expr_label h) hl ''statement_operation, expr -> hndl'' #
             map (\<lambda>a. flow (expr_label a) hl ''statement_operation, args -> hndl'') as) @ cas) }"

lemma collect_constraints_operation:
  "collect_constraints_expr pc (LE_Operation l y n h as) = collect_operation_constraints pc h as"
  by (simp add: collect_operation_constraints_def)

fun collect_constraints_stmt :: "label \<Rightarrow> lstmt \<Rightarrow> must_flow_to list option"
  and collect_constraints_stmts :: "label \<Rightarrow> lstmt list \<Rightarrow> must_flow_to list option" where
  "collect_constraints_stmt pc (LS_Assignment l v e) = do {
     cv \<leftarrow> collect_constraints_expr pc v; ce \<leftarrow> collect_constraints_expr pc e;
     Some (flow (expr_label e) (expr_label v) ''assignment'' #
           flow pc (expr_label v) ''assignment, pc'' # cv @ ce) }"
| "collect_constraints_stmt pc (LS_Return e) = collect_constraints_expr pc e"
| "collect_constraints_stmt pc (LS_Let l b s) = do {
     cb \<leftarrow> collect_constraints_binding pc b; cs \<leftarrow> collect_constraints_stmt pc s; Some (cb @ cs) }"
| "collect_constraints_stmt pc (LS_LetRemote l b s) = (case b of LBinding bl y v e \<Rightarrow> do {
     hl \<leftarrow> handle_label_of (expr_yield e);
     cb \<leftarrow> collect_constraints_binding (MinOf (MinOf pc (expr_label e)) hl) b;
     cs \<leftarrow> collect_constraints_stmt pc s;
     Some (cb @ cs @ [flow (expr_label e) hl ''let_remote, expr -> hndl'']) })"
| "collect_constraints_stmt pc (LS_Operation l n h as) = collect_operation_constraints pc h as"
| "collect_constraints_stmt pc (LS_If l c t e) = do {
     cc \<leftarrow> collect_constraints_expr (MinOf pc l) c;
     ct \<leftarrow> collect_constraints_stmt (MinOf pc l) t;
     ce \<leftarrow> collect_constraints_stmt (MinOf pc l) e; Some (cc @ ct @ ce) }"
| "collect_constraints_stmt pc (LS_While l c s) = do {
     cc \<leftarrow> collect_constraints_expr (MinOf pc l) c;
     cs \<leftarrow> collect_constraints_stmt (MinOf pc l) s; Some (cc @ cs) }"
| "collect_constraints_stmt pc (LS_Sequence l ss) = collect_constraints_stmts pc ss"
| "collect_constraints_stmt pc (LS_WriteTombstone l e) = None"
| "collect_constraints_stmt pc (LS_AccompanyWrite l e) = None"
| "collect_constraints_stmts pc [] = Some []"
| "collect_constraints_stmts pc (s # ss) = do {
     c \<leftarrow> collect_constraints_stmt pc s; cs \<leftarrow> collect_constraints_stmts pc ss; Some (c @ cs) }"

section \<open>Collapsing minima\<close>

text \<open>\<open>pick_min_match\<close>, with \<^term>\<open>None\<close> for \<open>mutils::mismatch\<close> in and a nested option out.\<close>

definition pick_min_match :: "label option \<Rightarrow> label option \<Rightarrow> label option option" where
  "pick_min_match x y = (case (x, y) of
      (None, None) \<Rightarrow> Some None
    | (None, Some b) \<Rightarrow> Some (Some b)
    | (Some a, None) \<Rightarrow> Some (Some a)
    | (Some a, Some b) \<Rightarrow>
        if is_temp_label a \<or> is_min_of a then Some (Some b)
        else do { lt \<leftarrow> less_than a b; Some (Some (if lt then a else b)) })"

fun find_concrete_label :: "label \<Rightarrow> label option option" where
  "find_concrete_label (MinOf l r) = do {
     x \<leftarrow> find_concrete_label l; y \<leftarrow> find_concrete_label r; ret \<leftarrow> pick_min_match x y;
     if ret = None then None else Some ret }"
| "find_concrete_label (Temp i j) = Some None"
| "find_concrete_label l = Some (Some l)"

text \<open>
  A minimum on the left is split into both its sides; one on the right is replaced by the
  lower of the concrete labels it mentions.
\<close>

fun split_high :: "label \<Rightarrow> label list" where
  "split_high (MinOf l r) = split_high l @ split_high r"
| "split_high l = [l]"

definition collapse_low :: "label \<Rightarrow> label option" where
  "collapse_low to = do { c \<leftarrow> find_concrete_label to; r \<leftarrow> pick_min_match (Some to) c; r }"

fun collapse_constraints :: "must_flow_to list \<Rightarrow> must_flow_to list option" where
  "collapse_constraints [] = Some []"
| "collapse_constraints (c # rest) = do {
     cs \<leftarrow> those (map (\<lambda>f. map_option (\<lambda>t. flow f t (why c)) (collapse_low (low c))) (split_high (high c)));
     ds \<leftarrow> collapse_constraints rest; Some (cs @ ds) }"

definition remove_reflexive_constraints :: "must_flow_to list \<Rightarrow> must_flow_to list" where
  "remove_reflexive_constraints cs = filter (\<lambda>c. high c \<noteq> low c) cs"

definition minimize_constraints ::
  "(must_flow_to list \<Rightarrow> must_flow_to list) \<Rightarrow> must_flow_to list \<Rightarrow> must_flow_to list" where
  "minimize_constraints dedupe cs = remove_reflexive_constraints (dedupe cs)"


section \<open>Inference\<close>

text \<open>
  \<open>substitution<newl,oldl>\<close>, with the two numbers of the temporary that it replaces.
\<close>

type_synonym substitution = "label \<times> int \<times> int"

record replace_ret =
  ret_ast :: lstmt
  ret_constraints :: "must_flow_to list"
  ret_substitutions :: "substitution list"

text \<open>
  \<open>replace_all_less_than<ast,label>\<close>.  The first constraint is one of three kinds: from
  \<open>label\<close> into a temporary, which becomes \<open>label\<close> in the program and in the constraints
  that follow; from \<open>label\<close> into another label, which is checked; or from elsewhere, which is
  kept for later.  The number bounds the recursion, and the length of the list is enough when
  sorting keeps lengths.
\<close>

primrec replace_all_less_than ::
  "nat \<Rightarrow> (must_flow_to list \<Rightarrow> must_flow_to list) \<Rightarrow> (must_flow_to list \<Rightarrow> must_flow_to list) \<Rightarrow>
   label \<Rightarrow> lstmt \<Rightarrow> must_flow_to list \<Rightarrow> replace_ret option" where
  "replace_all_less_than 0 csort dedupe label ast cs =
     (if cs = [] then Some \<lparr>ret_ast = ast, ret_constraints = [], ret_substitutions = []\<rparr> else None)"
| "replace_all_less_than (Suc n) csort dedupe label ast cs = (case cs of
      [] \<Rightarrow> Some \<lparr>ret_ast = ast, ret_constraints = [], ret_substitutions = []\<rparr>
    | c # rest \<Rightarrow>
        if high c = label then
          (case low c of
             Temp a b \<Rightarrow> (if label = Temp a b then None else do {
               new_ast \<leftarrow> replace_stmt a b label ast;
               r \<leftarrow> replace_all_less_than n csort dedupe label new_ast
                      (csort (map (substitute label (Temp a b)) rest));
               Some \<lparr>ret_ast = ret_ast r,
                     ret_constraints = minimize_constraints dedupe
                       (flow label label ''this seems wrong'' # ret_constraints r),
                     ret_substitutions = ret_substitutions r @ [(label, a, b)]\<rparr> })
           | to \<Rightarrow> do {
               r \<leftarrow> replace_all_less_than n csort dedupe label ast rest;
               ok \<leftarrow> flows_to label to;
               if ok then Some (r\<lparr>ret_constraints := minimize_constraints dedupe (c # ret_constraints r)\<rparr>)
               else None })
        else do {
          r \<leftarrow> replace_all_less_than n csort dedupe label ast rest;
          Some (r\<lparr>ret_constraints := minimize_constraints dedupe (c # ret_constraints r)\<rparr>) })"

primrec infer_labels_helper1 ::
  "(must_flow_to list \<Rightarrow> must_flow_to list) \<Rightarrow> (must_flow_to list \<Rightarrow> must_flow_to list) \<Rightarrow>
   label list \<Rightarrow> lstmt \<Rightarrow> must_flow_to list \<Rightarrow> (lstmt \<times> must_flow_to list) option" where
  "infer_labels_helper1 csort dedupe [] ast cs = Some (ast, cs)"
| "infer_labels_helper1 csort dedupe (label1 # labels) ast cs = do {
     pair \<leftarrow> replace_all_less_than (length cs) csort dedupe label1 ast (csort cs);
     infer_labels_helper1 csort dedupe labels (ret_ast pair) (ret_constraints pair) }"

definition infer_labels ::
  "(must_flow_to list \<Rightarrow> must_flow_to list) \<Rightarrow> (must_flow_to list \<Rightarrow> must_flow_to list) \<Rightarrow>
   (label list \<Rightarrow> label list) \<Rightarrow> lstmt \<Rightarrow> lstmt option" where
  "infer_labels csort dedupe as_sorted_list ast = do {
     let real_labels = collect_proper_labels as_sorted_list ast;
     cs \<leftarrow> collect_constraints_stmt Top ast;
     collapsed \<leftarrow> collapse_constraints cs;
     (ast', rest) \<leftarrow> infer_labels_helper1 csort dedupe real_labels ast (minimize_constraints dedupe collapsed);
     Some ast' }"

text \<open>What inference relies on in the sort of \<open>mutils\<close>, and in its sets.\<close>

definition separated :: "must_flow_to list \<Rightarrow> bool" where
  "separated cs \<longleftrightarrow>
     sorted_wrt (\<lambda>c d. is_temp_label (high c) \<longrightarrow> is_temp_label (high d)) cs"

definition sorts_constraints :: "(must_flow_to list \<Rightarrow> must_flow_to list) \<Rightarrow> bool" where
  "sorts_constraints csort \<longleftrightarrow>
     (\<forall>cs. set (csort cs) = set cs \<and> length (csort cs) = length cs \<and> separated (csort cs))"

definition keeps_elements :: "('a list \<Rightarrow> 'a list) \<Rightarrow> bool" where
  "keeps_elements f \<longleftrightarrow> (\<forall>xs. set (f xs) = set xs)"

text \<open>The substitution as a function on the labels of constraints; the last of the list is the first made.\<close>

definition subst1 :: "substitution \<Rightarrow> label \<Rightarrow> label" where
  "subst1 s l = (case s of (n, a, b) \<Rightarrow> if l = Temp a b then n else l)"

definition substs :: "substitution list \<Rightarrow> label \<Rightarrow> label" where
  "substs ss l = foldr subst1 ss l"

lemma substs_simps [simp]:
  "substs [] l = l"
  "substs (ss @ [s]) l = substs ss (subst1 s l)"
  by (simp_all add: substs_def)

lemma substs_append: "substs (ss @ ts) l = substs ss (substs ts l)"
  by (simp add: substs_def)

lemma substs_not_temp: "\<not> is_temp_label l \<Longrightarrow> substs ss l = l"
proof (induction ss rule: rev_induct)
  case (snoc s ss)
  then show ?case by (cases s) (auto simp: subst1_def)
qed simp

lemma substs_cases: "substs ss l = l \<or> substs ss l \<in> fst ` set ss"
proof (induction ss arbitrary: l rule: rev_induct)
  case (snoc s ss)
  obtain n a b where s: "s = (n, a, b)" by (cases s)
  show ?case
  proof (cases "l = Temp a b")
    case True
    have "substs ss n = n \<or> substs ss n \<in> fst ` set ss" using snoc[of n] by auto
    then show ?thesis using True s by (auto simp: subst1_def)
  next
    case False
    then show ?thesis using snoc[of l] s by (auto simp: subst1_def)
  qed
qed simp

lemma minimize_set:
  "keeps_elements dedupe \<Longrightarrow> set (minimize_constraints dedupe cs) = {c \<in> set cs. high c \<noteq> low c}"
  by (auto simp: minimize_constraints_def remove_reflexive_constraints_def keeps_elements_def)

lemma substitute_high_low [simp]:
  "high (substitute n (Temp a b) c) = subst1 (n, a, b) (high c)"
  "low (substitute n (Temp a b) c) = subst1 (n, a, b) (low c)"
  by (auto simp: substitute_def subst1_def)

lemma separated_tail: "separated (c # cs) \<Longrightarrow> separated cs"
  by (simp add: separated_def)

text \<open>The three kinds of first constraint.\<close>

lemma replace_all_Cons:
  assumes "replace_all_less_than (Suc n) csort dedupe label ast (c # rest) = Some r"
  obtains (temp) a b new_ast r' where "high c = label" "low c = Temp a b" "label \<noteq> Temp a b"
      "replace_stmt a b label ast = Some new_ast"
      "replace_all_less_than n csort dedupe label new_ast
         (csort (map (substitute label (Temp a b)) rest)) = Some r'"
      "ret_ast r = ret_ast r'" "ret_substitutions r = ret_substitutions r' @ [(label, a, b)]"
      "ret_constraints r =
         minimize_constraints dedupe (flow label label ''this seems wrong'' # ret_constraints r')"
    | (check) r' where "high c = label" "\<not> is_temp_label (low c)" "flows label (low c)"
      "replace_all_less_than n csort dedupe label ast rest = Some r'"
      "ret_ast r = ret_ast r'" "ret_substitutions r = ret_substitutions r'"
      "ret_constraints r = minimize_constraints dedupe (c # ret_constraints r')"
    | (keep) r' where "high c \<noteq> label"
      "replace_all_less_than n csort dedupe label ast rest = Some r'"
      "ret_ast r = ret_ast r'" "ret_substitutions r = ret_substitutions r'"
      "ret_constraints r = minimize_constraints dedupe (c # ret_constraints r')"
proof (cases "high c = label")
  case False
  then show ?thesis using assms that(3) by (auto simp: bind_Some_iff)
next
  case h: True
  show ?thesis
  proof (cases "is_temp_label (low c)")
    case True
    then obtain a b where "low c = Temp a b" by (cases "low c") auto
    then show ?thesis using assms h that(1) by (auto simp: bind_Some_iff split: if_splits)
  next
    case False
    then show ?thesis using assms h that(2)
      by (cases "low c") (auto simp: bind_Some_iff split: if_splits)
  qed
qed

text \<open>Once every remaining constraint starts at a temporary, nothing is substituted any more.\<close>

lemma replace_all_temps:
  "replace_all_less_than n csort dedupe label ast cs = Some r \<Longrightarrow> \<not> is_temp_label label \<Longrightarrow>
   \<forall>c \<in> set cs. is_temp_label (high c) \<Longrightarrow> ret_substitutions r = []"
proof (induction n arbitrary: cs r)
  case (Suc n)
  show ?case
  proof (cases cs)
    case Nil
    then show ?thesis using Suc.prems by auto
  next
    case (Cons c rest)
    show ?thesis using Suc.prems(1)[unfolded Cons]
      by (cases rule: replace_all_Cons) (use Suc Cons in auto)
  qed
qed (auto split: if_splits)

text \<open>
  What one pass for \<open>label\<close> achieves, where \<open>\<sigma>\<close> is the substitution it made: every constraint
  that now starts at \<open>label\<close> holds, and every other one is still there, but for those that
  became reflexive and those from a proper label into \<open>label\<close> itself.
\<close>

definition passed :: "label \<Rightarrow> (label \<Rightarrow> label) \<Rightarrow> must_flow_to list \<Rightarrow> must_flow_to \<Rightarrow> bool" where
  "passed label \<sigma> cs' c \<longleftrightarrow>
     (if \<sigma> (high c) = label then flows label (\<sigma> (low c))
      else \<sigma> (high c) = high c \<and>
        ((\<exists>c' \<in> set cs'. high c' = high c \<and> low c' = \<sigma> (low c)) \<or> high c = \<sigma> (low c) \<or>
         (\<not> is_temp_label (high c) \<and> \<sigma> (low c) = label)))"

lemma passed_mono:
  assumes "passed label \<sigma> cs c" "\<And>c'. c' \<in> set cs \<Longrightarrow> high c' \<noteq> low c' \<Longrightarrow> c' \<in> set cs'"
  shows "passed label \<sigma> cs' c"
proof (cases "\<sigma> (high c) = label")
  case False
  with assms(1) consider c' where "c' \<in> set cs" "high c' = high c" "low c' = \<sigma> (low c)"
    | "high c = \<sigma> (low c) \<or> (\<not> is_temp_label (high c) \<and> \<sigma> (low c) = label)"
    by (auto simp: passed_def)
  then show ?thesis
  proof cases
    case 1
    then show ?thesis using assms False by (cases "high c' = low c'") (auto simp: passed_def)
  qed (use assms False in \<open>auto simp: passed_def\<close>)
qed (use assms in \<open>simp add: passed_def\<close>)

lemma passed_substitute:
  assumes "passed label (substs ss) cs (substitute label (Temp a b) c)" "\<not> is_temp_label label"
  shows "passed label (substs (ss @ [(label, a, b)])) cs c"
proof -
  have "subst1 (label, a, b) (high c) = high c \<or> subst1 (label, a, b) (high c) = label"
    by (simp add: subst1_def)
  then show ?thesis using assms substs_not_temp[OF assms(2), of ss]
    by (auto simp: passed_def split: if_splits)
qed

lemma replace_all_substitutions:
  "replace_all_less_than n csort dedupe label ast cs = Some r \<Longrightarrow> fst ` set (ret_substitutions r) \<subseteq> {label}"
proof (induction n arbitrary: ast cs r)
  case (Suc n)
  show ?case
  proof (cases cs)
    case Nil
    then show ?thesis using Suc.prems by auto
  next
    case (Cons c rest)
    show ?thesis using Suc.prems[unfolded Cons]
      by (cases rule: replace_all_Cons) (use Suc.IH in auto)
  qed
qed (auto split: if_splits)

lemma replace_all_passed:
  assumes "sorts_constraints csort" "keeps_elements dedupe" "\<not> is_temp_label label" "flows label label"
  shows "replace_all_less_than n csort dedupe label ast cs = Some r \<Longrightarrow> separated cs \<Longrightarrow>
    \<forall>c \<in> set cs. passed label (substs (ret_substitutions r)) (ret_constraints r) c"
proof (induction n arbitrary: ast cs r)
  case 0
  then show ?case by (auto split: if_splits)
next
  case (Suc n)
  show ?case
  proof (cases cs)
    case Nil
    then show ?thesis by simp
  next
    case (Cons c rest)
    have lab: "substs ss label = label" for ss using assms(3) by (rule substs_not_temp)
    from Suc.prems(1)[unfolded Cons] show ?thesis
    proof (cases rule: replace_all_Cons)
      case (temp a b new_ast r')
      let ?\<sigma> = "substs (ret_substitutions r')"
      let ?rest = "csort (map (substitute label (Temp a b)) rest)"
      have sep: "separated ?rest" and st: "set ?rest = substitute label (Temp a b) ` set rest"
        using assms(1) by (auto simp: sorts_constraints_def)
      have IH: "\<forall>d \<in> set rest. passed label ?\<sigma> (ret_constraints r') (substitute label (Temp a b) d)"
        using Suc.IH[OF temp(5) sep] st by auto
      have rc: "set (ret_constraints r) = {d \<in> set (ret_constraints r'). high d \<noteq> low d}"
        using temp(8) assms(2) by (auto simp: minimize_set flow_def)
      have "passed label (substs (ret_substitutions r)) (ret_constraints r) d" if "d \<in> set rest" for d
        unfolding temp(7)
        by (rule passed_substitute[OF _ assms(3)], rule passed_mono) (use IH rc that in auto)
      moreover have "passed label (substs (ret_substitutions r)) (ret_constraints r) c"
        using temp lab assms(4) by (simp add: passed_def subst1_def)
      ultimately show ?thesis by (simp add: Cons)
    next
      case (check r')
      have IH: "\<forall>d \<in> set rest. passed label (substs (ret_substitutions r')) (ret_constraints r') d"
        using Suc.IH[OF check(4)] separated_tail Suc.prems(2) Cons by blast
      have rc: "set (ret_constraints r) = {d \<in> insert c (set (ret_constraints r')). high d \<noteq> low d}"
        using check(7) assms(2) by (simp add: minimize_set)
      have "passed label (substs (ret_substitutions r)) (ret_constraints r) c"
        using check lab substs_not_temp[OF check(2)] by (simp add: passed_def)
      moreover have "passed label (substs (ret_substitutions r)) (ret_constraints r) d" if "d \<in> set rest" for d
        unfolding check(6) by (rule passed_mono[OF IH[rule_format, OF that]]) (use rc in auto)
      ultimately show ?thesis by (simp add: Cons)
    next
      case (keep r')
      have IH: "\<forall>d \<in> set rest. passed label (substs (ret_substitutions r')) (ret_constraints r') d"
        using Suc.IH[OF keep(2)] separated_tail Suc.prems(2) Cons by blast
      have rc: "set (ret_constraints r) = {d \<in> insert c (set (ret_constraints r')). high d \<noteq> low d}"
        using keep(5) assms(2) by (simp add: minimize_set)
      have "passed label (substs (ret_substitutions r)) (ret_constraints r) c"
      proof (cases "is_temp_label (high c)")
        case True
        then have "\<forall>d \<in> set rest. is_temp_label (high d)"
          using Suc.prems(2) Cons by (simp add: separated_def)
        then have "ret_substitutions r = []"
          using replace_all_temps[OF keep(2) assms(3)] keep(4) by simp
        then show ?thesis using keep(1) rc by (auto simp: passed_def)
      next
        case False
        then have h: "substs (ret_substitutions r) (high c) = high c" by (rule substs_not_temp)
        consider "substs (ret_substitutions r) (low c) = low c" | "substs (ret_substitutions r) (low c) = label"
          using substs_cases[of "ret_substitutions r" "low c"] subsetD[OF replace_all_substitutions[OF Suc.prems(1)]]
          by fast
        then show ?thesis
        proof cases
          case 1
          have "c \<in> set (ret_constraints r) \<or> high c = low c" using rc by simp
          then show ?thesis using h keep(1) 1 unfolding passed_def by (metis (no_types))
        next
          case 2
          then show ?thesis using h keep(1) False by (simp add: passed_def)
        qed
      qed
      moreover have "passed label (substs (ret_substitutions r)) (ret_constraints r) d" if "d \<in> set rest" for d
        unfolding keep(4) by (rule passed_mono[OF IH[rule_format, OF that]]) (use rc in auto)
      ultimately show ?thesis by (simp add: Cons)
    qed
  qed
qed


section \<open>Soundness of inference\<close>

definition apply_substs :: "substitution list \<Rightarrow> lstmt \<Rightarrow> lstmt option" where
  "apply_substs ss ast = foldr (\<lambda>(n, a, b) m. Option.bind m (replace_stmt a b n)) ss (Some ast)"

lemma apply_substs_simps [simp]:
  "apply_substs [] ast = Some ast"
  by (simp add: apply_substs_def)

lemma apply_substs_None [simp]:
  "foldr (\<lambda>(n, a, b) m. Option.bind m (replace_stmt a b n)) ss None = None"
  by (induction ss) auto

lemma apply_substs_append: "apply_substs (ss @ ts) ast = Option.bind (apply_substs ts ast) (apply_substs ss)"
  by (cases "apply_substs ts ast") (simp_all add: apply_substs_def)

lemma replace_all_ast:
  "replace_all_less_than n csort dedupe label ast cs = Some r \<Longrightarrow>
   apply_substs (ret_substitutions r) ast = Some (ret_ast r)"
proof (induction n arbitrary: ast cs r)
  case (Suc n)
  show ?case
  proof (cases cs)
    case Nil
    then show ?thesis using Suc.prems by auto
  next
    case (Cons c rest)
    show ?thesis using Suc.prems[unfolded Cons]
    proof (cases rule: replace_all_Cons)
      case (temp a b new_ast r')
      then show ?thesis using Suc.IH[OF temp(5)]
        by (simp add: apply_substs_append) (simp add: apply_substs_def)
    qed (use Suc.IH in auto)
  qed
qed (auto split: if_splits)

lemma flows_temp: "flows a (Temp i j) \<Longrightarrow> a = Top"
  by (cases a) (auto simp: flows_to_defs)

lemma flows_substs: "flows a b \<Longrightarrow> flows a (substs ss b)"
proof (cases "is_temp_label b")
  case True
  assume f: "flows a b"
  from True obtain i j where "b = Temp i j" by (cases b) auto
  with f have "a = Top" using flows_temp by simp
  then show ?thesis by (simp add: flows_to_defs)
qed (simp add: substs_not_temp)

text \<open>
  The state of a constraint \<open>c\<close> of the program during inference, under the substitution \<open>\<sigma>\<close> so
  far: it holds when its source is a label that had its turn, and otherwise it is pending in
  \<open>cs\<close>, reflexive, or known to hold when its turn comes.
\<close>

definition tracked ::
  "label set \<Rightarrow> label set \<Rightarrow> (label \<Rightarrow> label) \<Rightarrow> must_flow_to list \<Rightarrow> must_flow_to \<Rightarrow> bool" where
  "tracked dn ls \<sigma> cs c \<longleftrightarrow>
     (if \<sigma> (high c) \<in> dn then flows (\<sigma> (high c)) (\<sigma> (low c))
      else (\<exists>c' \<in> set cs. high c' = \<sigma> (high c) \<and> low c' = \<sigma> (low c)) \<or> \<sigma> (high c) = \<sigma> (low c) \<or>
        (\<not> is_temp_label (\<sigma> (high c)) \<and> (\<sigma> (high c) \<in> ls \<longrightarrow> flows (\<sigma> (high c)) (\<sigma> (low c)))))"

lemma tracked_step:
  assumes "tracked dn (insert label ls) \<sigma> cs c" "\<forall>l \<in> insert label dn. \<not> is_temp_label l"
    and "flows label label" "\<forall>l \<in> ls. flows l label"
    and "\<forall>c' \<in> set cs. passed label (substs ss) cs' c'" "fst ` set ss \<subseteq> {label}"
  shows "tracked (insert label dn) ls (substs ss \<circ> \<sigma>) cs' c"
proof -
  let ?h = "\<sigma> (high c)" and ?l = "\<sigma> (low c)"
  note h = assms(1)[unfolded tracked_def]
  have nt: "\<not> is_temp_label ?h \<Longrightarrow> substs ss ?h = ?h" by (rule substs_not_temp)
  show ?thesis
  proof (cases "?h \<in> dn")
    case True
    then show ?thesis using h nt assms(2) flows_substs[of ?h ?l ss] by (auto simp: tracked_def)
  next
    case False
    with h consider (pending) c' where "c' \<in> set cs" "high c' = ?h" "low c' = ?l"
      | (refl) "?h = ?l"
      | (known) "\<not> is_temp_label ?h" "?h \<in> insert label ls \<longrightarrow> flows ?h ?l"
      by (auto simp only: if_False)
    then show ?thesis
    proof cases
      case pending
      then have p: "passed label (substs ss) cs' c'" using assms(5) by blast
      show ?thesis
      proof (cases "substs ss ?h = label")
        case True
        then show ?thesis using p pending by (simp add: passed_def tracked_def)
      next
        case ne: False
        then have same: "substs ss ?h = ?h" using p pending by (simp add: passed_def)
        from p pending ne consider
          c'' where "c'' \<in> set cs'" "high c'' = ?h" "low c'' = substs ss ?l"
          | "?h = substs ss ?l" | "\<not> is_temp_label ?h" "substs ss ?l = label"
          unfolding passed_def by auto
        then show ?thesis
        proof cases
          case 1
          then show ?thesis using ne same False by (auto simp: tracked_def)
        next
          case 2
          then show ?thesis using ne same False by (auto simp: tracked_def)
        next
          case 3
          then show ?thesis using ne same False assms(4) by (auto simp: tracked_def)
        qed
      qed
    next
      case refl
      have "substs ss ?h = ?h \<or> substs ss ?h = label"
        using substs_cases[of ss ?h] assms(6) by fast
      then show ?thesis using refl False assms(3) by (auto simp: tracked_def)
    next
      case known
      then show ?thesis using False nt flows_substs[of ?h ?l ss] by (auto simp: tracked_def)
    qed
  qed
qed


context label_order
begin

lemma helper_tracked:
  assumes "sorts_constraints csort" "keeps_elements dedupe"
  shows "infer_labels_helper1 csort dedupe labels ast cs = Some (ast', cs') \<Longrightarrow>
    \<forall>l \<in> set labels. L l \<Longrightarrow> sorted_wrt (\<lambda>a b. flows b a) labels \<Longrightarrow> \<forall>l \<in> dn. \<not> is_temp_label l \<Longrightarrow>
    \<forall>c \<in> C. tracked dn (set labels) \<sigma> cs c \<Longrightarrow>
    \<exists>ss. apply_substs ss ast = Some ast' \<and> fst ` set ss \<subseteq> set labels \<and>
      (\<forall>c \<in> C. tracked (dn \<union> set labels) {} (substs ss \<circ> \<sigma>) cs' c)"
proof (induction labels arbitrary: ast cs dn \<sigma>)
  case Nil
  then show ?case by (intro exI[of _ "[]"]) (auto simp: tracked_def)
next
  case (Cons l ls)
  from Cons.prems(1) obtain r where r:
    "replace_all_less_than (length cs) csort dedupe l ast (csort cs) = Some r"
    "infer_labels_helper1 csort dedupe ls (ret_ast r) (ret_constraints r) = Some (ast', cs')"
    by (auto simp: bind_Some_iff)
  have l: "L l" "\<not> is_temp_label l" "flows l l" using Cons.prems(2) proper flows_refl by auto
  have p: "\<forall>c \<in> set cs. passed l (substs (ret_substitutions r)) (ret_constraints r) c"
    using replace_all_passed[OF assms l(2,3) r(1)] assms(1) by (simp add: sorts_constraints_def)
  note sub = replace_all_substitutions[OF r(1)]
  have t: "tracked (insert l dn) (set ls) (substs (ret_substitutions r) \<circ> \<sigma>) (ret_constraints r) c"
    if "c \<in> C" for c
    by (rule tracked_step[OF _ _ l(3) _ p sub])
       (use Cons.prems(3-5) l(2) that in auto)
  obtain ss where ss: "apply_substs ss (ret_ast r) = Some ast'" "fst ` set ss \<subseteq> set ls"
    "\<forall>c \<in> C. tracked (insert l dn \<union> set ls) {} (substs ss \<circ> (substs (ret_substitutions r) \<circ> \<sigma>)) cs' c"
    using Cons.IH[OF r(2), of "insert l dn" "substs (ret_substitutions r) \<circ> \<sigma>"] Cons.prems(2-4) l(2) t
    by (auto simp: comp_def)
  show ?case
  proof (intro exI conjI)
    show "apply_substs (ss @ ret_substitutions r) ast = Some ast'"
      using ss(1) replace_all_ast[OF r(1)] by (simp add: apply_substs_append)
    show "fst ` set (ss @ ret_substitutions r) \<subseteq> set (l # ls)" using ss(2) sub by auto
    have "substs (ss @ ret_substitutions r) = substs ss \<circ> substs (ret_substitutions r)"
      by (simp add: fun_eq_iff substs_append)
    then show "\<forall>c \<in> C. tracked (dn \<union> set (l # ls)) {} (substs (ss @ ret_substitutions r) \<circ> \<sigma>) cs' c"
      using ss(3) by (simp add: comp_assoc)
  qed
qed

lemma pick_min_match_in: "pick_min_match x y = Some (Some r) \<Longrightarrow> x = Some r \<or> y = Some r"
  by (auto simp: pick_min_match_def bind_Some_iff split: option.splits if_splits)

lemma find_concrete_in: "find_concrete_label l = Some (Some r) \<Longrightarrow> r \<in> set (split_high l)"
proof (induction l arbitrary: r)
  case (MinOf a b)
  then obtain x y where xy: "find_concrete_label a = Some x" "find_concrete_label b = Some y"
    "pick_min_match x y = Some (Some r)" by (auto simp: bind_Some_iff split: if_splits)
  show ?case using pick_min_match_in[OF xy(3)] xy MinOf.IH by auto
qed auto

lemma collapse_low_in: "collapse_low l = Some r \<Longrightarrow> r \<in> set (split_high l)"
proof -
  assume "collapse_low l = Some r"
  then obtain c where c: "find_concrete_label l = Some c" "pick_min_match (Some l) c = Some (Some r)"
    by (auto simp: collapse_low_def bind_Some_iff)
  show ?thesis
  proof (cases c)
    case None
    then show ?thesis using c by (cases l) (auto simp: pick_min_match_def bind_Some_iff split: if_splits)
  next
    case (Some k)
    then have "k \<in> set (split_high l)" using c(1) find_concrete_in by simp
    moreover have "is_min_of l \<or> l \<in> set (split_high l)" by (cases l) auto
    ultimately show ?thesis using c(2) Some pick_min_match_in[OF c(2)]
      by (auto simp: pick_min_match_def bind_Some_iff split: if_splits)
  qed
qed

text \<open>The value of a label is the meet of the values of its atoms.\<close>

lemma eval_split:
  assumes "\<And>x. x \<in> set (split_high l) \<Longrightarrow> L (substs ss x)"
  shows "L (eval_label (\<lambda>i j. substs ss (Temp i j)) l) \<and>
    (\<forall>d. L d \<longrightarrow> flows (eval_label (\<lambda>i j. substs ss (Temp i j)) l) d =
       (\<forall>x \<in> set (split_high l). flows (substs ss x) d)) \<and>
    (\<forall>x \<in> set (split_high l). flows (substs ss x) (eval_label (\<lambda>i j. substs ss (Temp i j)) l))"
  using assms
proof (induction l)
  case (MinOf a b)
  let ?e = "eval_label (\<lambda>i j. substs ss (Temp i j))"
  have A: "L (?e a)" "\<And>d. L d \<Longrightarrow> flows (?e a) d = (\<forall>x \<in> set (split_high a). flows (substs ss x) d)"
    "\<And>x. x \<in> set (split_high a) \<Longrightarrow> flows (substs ss x) (?e a)" using MinOf by auto
  have B: "L (?e b)" "\<And>d. L d \<Longrightarrow> flows (?e b) d = (\<forall>x \<in> set (split_high b). flows (substs ss x) d)"
    "\<And>x. x \<in> set (split_high b) \<Longrightarrow> flows (substs ss x) (?e b)" using MinOf by auto
  have m: "flows (?e a) (label_meet (?e a) (?e b))" "flows (?e b) (label_meet (?e a) (?e b))"
    "L (label_meet (?e a) (?e b))"
    using label_meet_lower[OF A(1) B(1)] label_meet_closed[OF A(1) B(1)] by auto
  have t: "flows (substs ss x) (label_meet (?e a) (?e b))" if "x \<in> set (split_high a) \<or> x \<in> set (split_high b)" for x
    using that A(1,3) B(1,3) m MinOf.prems[of x]
      flows_trans[of "substs ss x" "?e a" "label_meet (?e a) (?e b)"]
      flows_trans[of "substs ss x" "?e b" "label_meet (?e a) (?e b)"] by auto
  show ?case using m t A B flows_label_meet_iff[OF A(1) B(1)] by auto
next
  case (PreEndorse k)
  then show ?case using flows_refl[of "PreEndorse k"] by (simp add: substs_not_temp)
qed (simp_all add: substs_not_temp flows_refl flows_to_defs)

lemma collapse_constraints_in:
  assumes "collapse_constraints cs = Some ds" "c \<in> set cs" "f \<in> set (split_high (high c))"
  shows "\<exists>d \<in> set ds. high d = f \<and> collapse_low (low c) = Some (low d)"
  using assms
proof (induction cs arbitrary: ds)
  case (Cons k cs)
  from Cons.prems(1) obtain xs ys where xy:
    "those (map (\<lambda>f. map_option (\<lambda>t. flow f t (why k)) (collapse_low (low k))) (split_high (high k))) = Some xs"
    "collapse_constraints cs = Some ys" "ds = xs @ ys" by (auto simp: bind_Some_iff)
  show ?case
  proof (cases "c = k")
    case True
    obtain i where i: "i < length (split_high (high k))" "f = split_high (high k) ! i"
      using Cons.prems(3) True by (auto simp: in_set_conv_nth)
    then have "map_option (\<lambda>t. flow f t (why k)) (collapse_low (low k)) = Some (xs ! i)" "i < length xs"
      using those_map_nth[OF xy(1)] those_length[OF xy(1)] by auto
    moreover from this obtain z where "collapse_low (low k) = Some z" "xs ! i = flow f z (why k)"
      by (cases "collapse_low (low k)") auto
    moreover have "xs ! i \<in> set ds" using \<open>i < length xs\<close> xy(3) by simp
    ultimately show ?thesis using True by (intro bexI[of _ "xs ! i"]) (simp_all add: flow_def)
  next
    case False
    then show ?thesis using Cons.IH[OF xy(2)] Cons.prems(2,3) xy(3) by auto
  qed
qed simp

lemma infer_labels_sound:
  assumes "sorts_constraints csort" "keeps_elements dedupe"
    and "\<forall>l \<in> set (collect_proper_labels as_sorted_list ast). L l"
    and "sorted_wrt (\<lambda>a b. flows b a) (collect_proper_labels as_sorted_list ast)"
    and "collect_constraints_stmt Top ast = Some cs"
    and "infer_labels csort dedupe as_sorted_list ast = Some ast'" and "L Top"
  shows "\<exists>ss. apply_substs ss ast = Some ast' \<and>
    fst ` set ss \<subseteq> set (collect_proper_labels as_sorted_list ast) \<and>
    (\<forall>c \<in> set cs.
      (\<forall>x \<in> set (split_high (high c)). substs ss x = Top \<or> substs ss x \<in> set (collect_proper_labels as_sorted_list ast)) \<longrightarrow>
      (\<forall>x \<in> set (split_high (low c)). L (substs ss x)) \<longrightarrow>
      flows (eval_label (\<lambda>i j. substs ss (Temp i j)) (high c)) (eval_label (\<lambda>i j. substs ss (Temp i j)) (low c)))"
proof -
  let ?ls = "collect_proper_labels as_sorted_list ast"
  obtain ds rest where ds: "collapse_constraints cs = Some ds"
    "infer_labels_helper1 csort dedupe ?ls ast (minimize_constraints dedupe ds) = Some (ast', rest)"
    using assms(5,6) by (auto simp: infer_labels_def Let_def bind_Some_iff)
  have "\<forall>d \<in> set ds. tracked {} (set ?ls) (\<lambda>l. l) (minimize_constraints dedupe ds) d"
    using minimize_set[OF assms(2), of ds] by (auto simp: tracked_def)
  from helper_tracked[OF assms(1,2) ds(2) assms(3,4) _ this]
  obtain ss where ss: "apply_substs ss ast = Some ast'" "fst ` set ss \<subseteq> set ?ls"
    "\<forall>d \<in> set ds. tracked (set ?ls) {} (substs ss) rest d" by (auto simp: comp_def)
  have "flows (eval_label (\<lambda>i j. substs ss (Temp i j)) (high c)) (eval_label (\<lambda>i j. substs ss (Temp i j)) (low c))"
    if c: "c \<in> set cs" and h: "\<forall>x \<in> set (split_high (high c)). substs ss x = Top \<or> substs ss x \<in> set ?ls"
      and l: "\<forall>x \<in> set (split_high (low c)). L (substs ss x)" for c
  proof -
    let ?e = "eval_label (\<lambda>i j. substs ss (Temp i j))"
    have Lh: "\<And>x. x \<in> set (split_high (high c)) \<Longrightarrow> L (substs ss x)" using h assms(3,7) by metis
    have eh: "\<And>d. L d \<Longrightarrow> flows (?e (high c)) d = (\<forall>x \<in> set (split_high (high c)). flows (substs ss x) d)"
      using eval_split[of "high c" ss, OF Lh] by blast
    have el: "L (?e (low c))" "\<forall>x \<in> set (split_high (low c)). flows (substs ss x) (?e (low c))"
      using eval_split[of "low c" ss] l by auto
    have "flows (substs ss x) (?e (low c))" if x: "x \<in> set (split_high (high c))" for x
    proof (cases "substs ss x = Top")
      case True
      then show ?thesis by (simp add: flows_to_defs)
    next
      case False
      then have x': "substs ss x \<in> set ?ls" using h x by blast
      obtain d where d: "d \<in> set ds" "high d = x" "collapse_low (low c) = Some (low d)"
        using collapse_constraints_in[OF ds(1) c x] by blast
      have "low d \<in> set (split_high (low c))" using collapse_low_in[OF d(3)] .
      then have f: "flows (substs ss (low d)) (?e (low c))" "L (substs ss (low d))" using el(2) l by auto
      have "flows (substs ss x) (substs ss (low d))"
        using ss(3) d(1,2) x' by (auto simp: tracked_def)
      then show ?thesis using f el(1) x' assms(3) flows_trans by blast
    qed
    then show ?thesis using eh[OF el(1)] by blast
  qed
  then show ?thesis using ss(1,2) by blast
qed

end


section \<open>The labels that constraints speak of\<close>

text \<open>The labels of the handles that a program reads, tests or operates on.\<close>

definition handle_labels :: "lexpr \<Rightarrow> label list" where
  "handle_labels e = (case handle_label_of (expr_yield e) of Some l \<Rightarrow> [l] | None \<Rightarrow> [])"

fun expr_handles :: "lexpr \<Rightarrow> label list" where
  "expr_handles (LE_FieldReference l y s f) = expr_handles s"
| "expr_handles (LE_BinOp l y op a b) = expr_handles a @ expr_handles b"
| "expr_handles (LE_IsValid l h) = handle_labels h @ expr_handles h"
| "expr_handles (LE_Endorse l y h) = expr_handles h"
| "expr_handles (LE_Operation l y n h as) = handle_labels h @ expr_handles h @ concat (map expr_handles as)"
| "expr_handles _ = []"

fun stmt_handles :: "lstmt \<Rightarrow> label list" where
  "stmt_handles (LS_Assignment l v e) = expr_handles v @ expr_handles e"
| "stmt_handles (LS_Return e) = expr_handles e"
| "stmt_handles (LS_Let l b s) = (case b of LBinding bl y v e \<Rightarrow> expr_handles e) @ stmt_handles s"
| "stmt_handles (LS_LetRemote l b s) = (case b of LBinding bl y v e \<Rightarrow> handle_labels e @ expr_handles e) @ stmt_handles s"
| "stmt_handles (LS_Operation l n h as) = handle_labels h @ expr_handles h @ concat (map expr_handles as)"
| "stmt_handles (LS_If l c t e) = expr_handles c @ stmt_handles t @ stmt_handles e"
| "stmt_handles (LS_While l c s) = expr_handles c @ stmt_handles s"
| "stmt_handles (LS_Sequence l ss) = concat (map stmt_handles ss)"
| "stmt_handles _ = []"

text \<open>A label made of \<open>top\<close>, temporaries and labels of \<open>S\<close>.\<close>

definition label_covered :: "label set \<Rightarrow> label \<Rightarrow> bool" where
  "label_covered S l \<longleftrightarrow> (\<forall>x \<in> set (split_high l). x = Top \<or> is_temp_label x \<or> x \<in> S)"

definition flow_covered :: "label set \<Rightarrow> must_flow_to \<Rightarrow> bool" where
  "flow_covered S c \<longleftrightarrow> label_covered S (high c) \<and> label_covered S (low c)"

lemma covered_simps [simp]:
  "label_covered S (MinOf a b) \<longleftrightarrow> label_covered S a \<and> label_covered S b" "label_covered S Top" "label_covered S (Temp i j)"
  "flow_covered S (flow a b w) \<longleftrightarrow> label_covered S a \<and> label_covered S b"
  by (auto simp: label_covered_def flow_covered_def flow_def)

lemma collect_node_covered: "set (collect_node l rest) \<subseteq> S \<Longrightarrow> label_covered S l \<and> set rest \<subseteq> S"
  by (induction l rest rule: collect_node.induct) (auto simp: label_covered_def collect_match_def collect_temp_def)

lemma covered_member: "l \<in> S \<Longrightarrow> \<forall>x \<in> S. \<not> is_min_of x \<Longrightarrow> label_covered S l"
  by (cases l) (auto simp: label_covered_def)

lemma expr_label_covered:
  "set (collect_labels_expr e) \<subseteq> S \<Longrightarrow> \<forall>x \<in> S. \<not> is_min_of x \<Longrightarrow> label_covered S (expr_label e)"
  by (cases e) (auto dest: collect_node_covered covered_member simp: collect_match_def)

lemma handle_label_covered:
  "handle_label_of (expr_yield e) = Some hl \<Longrightarrow> list_all (label_covered S) (handle_labels e) \<Longrightarrow> label_covered S hl"
  by (simp add: handle_labels_def)

lemma collect_constraints_expr_covered:
  "collect_constraints_expr pc e = Some cs \<Longrightarrow> set (collect_labels_expr e) \<subseteq> S \<Longrightarrow>
   list_all (label_covered S) (expr_handles e) \<Longrightarrow> \<forall>x \<in> S. \<not> is_min_of x \<Longrightarrow> list_all (flow_covered S) cs"
  "collect_constraints_exprs pc es = Some cs \<Longrightarrow> set (concat (map collect_labels_expr es)) \<subseteq> S \<Longrightarrow>
   list_all (label_covered S) (concat (map expr_handles es)) \<Longrightarrow> \<forall>x \<in> S. \<not> is_min_of x \<Longrightarrow> list_all (flow_covered S) cs"
proof (induction pc e and pc es arbitrary: cs and cs rule: collect_constraints_expr_collect_constraints_exprs.induct)
  case (5 pc l h)
  then obtain hl ch where hl: "handle_label_of (expr_yield h) = Some hl"
    and ch: "collect_constraints_expr (MinOf (MinOf pc (expr_label h)) hl) h = Some ch"
    and cs: "cs = ch @ [flow (expr_label h) hl ''isvalid, expr -> hndl'']" by (auto simp: bind_Some_iff)
  have h: "set (collect_labels_expr h) \<subseteq> S" using 5(3) collect_node_covered by auto
  have "list_all (flow_covered S) ch" by (rule 5(1)[OF hl ch h]) (use 5(4,5) in simp_all)
  moreover have "label_covered S (expr_label h)" by (rule expr_label_covered[OF h 5(5)])
  moreover have "label_covered S hl" by (rule handle_label_covered[OF hl]) (use 5(4) in simp)
  ultimately show ?case by (simp add: cs)
next
  case (7 pc l y n h as)
  then obtain hl new_pc ch cas where hl: "handle_label_of (expr_yield h) = Some hl"
    and pc: "label_min_vararg (pc # expr_label h # hl # map expr_label as) = Some new_pc"
    and ch: "collect_constraints_expr new_pc h = Some ch" and cas: "collect_constraints_exprs new_pc as = Some cas"
    and cs: "cs = ch @ (flow (expr_label h) hl ''statement_operation, expr -> hndl'' #
             map (\<lambda>a. flow (expr_label a) hl ''statement_operation, args -> hndl'') as) @ cas" by (auto simp: bind_Some_iff)
  have h: "set (collect_labels_expr h) \<subseteq> S" "set (concat (map collect_labels_expr as)) \<subseteq> S"
    using 7(4) collect_node_covered[of l "collect_labels_expr h @ concat (map collect_labels_expr as)" S] by auto
  have "list_all (flow_covered S) ch" by (rule 7(1)[OF hl pc ch h(1)]) (use 7(5,6) in simp_all)
  moreover have "list_all (flow_covered S) cas" by (rule 7(2)[OF hl pc ch cas h(2)]) (use 7(5,6) in simp_all)
  moreover have "label_covered S (expr_label h)" by (rule expr_label_covered[OF h(1) 7(6)])
  moreover have "\<forall>a \<in> set as. label_covered S (expr_label a)" using h(2) 7(6) by (auto intro: expr_label_covered)
  moreover have "label_covered S hl" by (rule handle_label_covered[OF hl]) (use 7(5) in simp)
  ultimately show ?case by (auto simp: cs list_all_iff)
qed (auto simp: bind_Some_iff list_all_append collect_match_def dest!: collect_node_covered)

lemma collect_constraints_binding_covered:
  assumes "collect_constraints_binding pc (LBinding l y v e) = Some cs" "set (collect_labels_binding (LBinding l y v e)) \<subseteq> S"
    and "list_all (label_covered S) (expr_handles e)" "\<forall>x \<in> S. \<not> is_min_of x" "label_covered S pc"
  shows "list_all (flow_covered S) cs"
proof -
  have e: "label_covered S l" "set (collect_labels_expr e) \<subseteq> S" using assms(2) collect_node_covered by auto
  obtain ce where ce: "collect_constraints_expr pc e = Some ce"
    and cs: "cs = flow (expr_label e) l ''bound expression'' # flow pc l ''bound expression, pc'' # ce"
    using assms(1) by (auto simp: bind_Some_iff)
  show ?thesis
    using e(1) assms(5) collect_constraints_expr_covered(1)[OF ce e(2) assms(3,4)] expr_label_covered[OF e(2) assms(4)]
    by (simp add: cs)
qed

lemma collect_operation_constraints_covered:
  assumes "collect_operation_constraints pc h as = Some cs"
    and "set (collect_labels_expr h) \<subseteq> S" "set (concat (map collect_labels_expr as)) \<subseteq> S"
    and "list_all (label_covered S) (handle_labels h @ expr_handles h @ concat (map expr_handles as))" "\<forall>x \<in> S. \<not> is_min_of x"
  shows "list_all (flow_covered S) cs"
proof -
  have "set (collect_labels_expr (LE_Operation (Temp 0 0) Y_int [] h as)) \<subseteq> S"
    using assms(2,3) by (simp add: collect_temp_def)
  moreover have "collect_constraints_expr pc (LE_Operation (Temp 0 0) Y_int [] h as) = Some cs"
    unfolding collect_constraints_operation by (rule assms(1))
  ultimately show ?thesis
    using collect_constraints_expr_covered(1)[of pc "LE_Operation (Temp 0 0) Y_int [] h as" cs S] assms(4,5) by simp
qed

lemma collect_constraints_stmt_covered:
  "collect_constraints_stmt pc s = Some cs \<Longrightarrow> set (collect_labels_stmt s) \<subseteq> S \<Longrightarrow>
   list_all (label_covered S) (stmt_handles s) \<Longrightarrow> \<forall>x \<in> S. \<not> is_min_of x \<Longrightarrow> label_covered S pc \<Longrightarrow> list_all (flow_covered S) cs"
  "collect_constraints_stmts pc ss = Some cs \<Longrightarrow> set (concat (map collect_labels_stmt ss)) \<subseteq> S \<Longrightarrow>
   list_all (label_covered S) (concat (map stmt_handles ss)) \<Longrightarrow> \<forall>x \<in> S. \<not> is_min_of x \<Longrightarrow> label_covered S pc \<Longrightarrow>
   list_all (flow_covered S) cs"
proof (induction pc s and pc ss arbitrary: cs and cs rule: collect_constraints_stmt_collect_constraints_stmts.induct)
  case (1 pc l v e)
  then obtain cv ce where cv: "collect_constraints_expr pc v = Some cv" "collect_constraints_expr pc e = Some ce"
    and cs: "cs = flow (expr_label e) (expr_label v) ''assignment'' # flow pc (expr_label v) ''assignment, pc'' # cv @ ce"
    by (auto simp: bind_Some_iff)
  have sub: "set (collect_labels_expr v) \<subseteq> S" "set (collect_labels_expr e) \<subseteq> S"
    using 1(2) collect_node_covered[of l "collect_labels_expr v @ collect_labels_expr e" S] by auto
  have "list_all (flow_covered S) cv" "list_all (flow_covered S) ce"
    using collect_constraints_expr_covered(1)[OF cv(1) sub(1)] collect_constraints_expr_covered(1)[OF cv(2) sub(2)] 1(3,4)
    by simp_all
  then show ?case using 1(5) expr_label_covered[OF sub(1) 1(4)] expr_label_covered[OF sub(2) 1(4)] by (simp add: cs)
next
  case (2 pc e)
  then show ?case using collect_constraints_expr_covered(1)[of pc e cs S] by (simp add: collect_match_def)
next
  case (3 pc l b s)
  obtain bl y v e where b: "b = LBinding bl y v e" by (cases b)
  from 3(2) obtain cb cs' where cb: "collect_constraints_binding pc b = Some cb" "collect_constraints_stmt pc s = Some cs'"
    and cs: "cs = cb @ cs'" by (auto simp: bind_Some_iff)
  have sub: "set (collect_labels_binding b) \<subseteq> S" "set (collect_labels_stmt s) \<subseteq> S"
    using 3(3) collect_node_covered[of l "collect_labels_binding b @ collect_labels_stmt s" S] by auto
  have "list_all (flow_covered S) cb"
    by (rule collect_constraints_binding_covered[OF cb(1)[unfolded b] sub(1)[unfolded b]]) (use 3(4-6) b in simp_all)
  moreover have "list_all (flow_covered S) cs'" by (rule 3(1)[OF cb sub(2)]) (use 3(4-6) in simp_all)
  ultimately show ?case by (simp add: cs)
next
  case (4 pc l b s)
  obtain bl y v e where b: "b = LBinding bl y v e" by (cases b)
  from 4(2) obtain hl cb cs' where hl: "handle_label_of (expr_yield e) = Some hl"
    and cb: "collect_constraints_binding (MinOf (MinOf pc (expr_label e)) hl) b = Some cb" "collect_constraints_stmt pc s = Some cs'"
    and cs: "cs = cb @ cs' @ [flow (expr_label e) hl ''let_remote, expr -> hndl'']" by (auto simp: b bind_Some_iff)
  have sub: "set (collect_labels_binding b) \<subseteq> S" "set (collect_labels_stmt s) \<subseteq> S"
    using 4(3) collect_node_covered[of l "collect_labels_binding b @ collect_labels_stmt s" S] by auto
  have "set (collect_labels_expr e) \<subseteq> S" using sub(1) b collect_node_covered by auto
  then have e: "label_covered S (expr_label e)" by (rule expr_label_covered[OF _ 4(5)])
  have h: "label_covered S hl" by (rule handle_label_covered[OF hl]) (use 4(4) b in simp)
  have "list_all (flow_covered S) cb"
    by (rule collect_constraints_binding_covered[OF cb(1)[unfolded b] sub(1)[unfolded b]]) (use 4(4-6) b e h in simp_all)
  moreover have "list_all (flow_covered S) cs'" by (rule 4(1)[OF b hl cb sub(2)]) (use 4(4-6) in simp_all)
  ultimately show ?case using e h by (simp add: cs)
next
  case (5 pc l n h as)
  then show ?case
    using collect_node_covered[of l "collect_labels_expr h @ concat (map collect_labels_expr as)" S]
    by (intro collect_operation_constraints_covered[of pc h as cs S]) auto
next
  case (6 pc l c t e)
  from 6(3) obtain cc ct ce where cc: "collect_constraints_expr (MinOf pc l) c = Some cc"
    "collect_constraints_stmt (MinOf pc l) t = Some ct" "collect_constraints_stmt (MinOf pc l) e = Some ce"
    and cs: "cs = cc @ ct @ ce" by (auto simp: bind_Some_iff)
  have l: "label_covered S l" and sub: "set (collect_labels_expr c) \<subseteq> S" "set (collect_labels_stmt t) \<subseteq> S" "set (collect_labels_stmt e) \<subseteq> S"
    using 6(4) collect_node_covered[of l "collect_labels_expr c @ collect_labels_stmt t @ collect_labels_stmt e" S] by auto
  have "list_all (flow_covered S) cc" by (rule collect_constraints_expr_covered(1)[OF cc(1) sub(1)]) (use 6(5,6) in simp_all)
  moreover have "list_all (flow_covered S) ct" by (rule 6(1)[OF cc(1,2) sub(2)]) (use 6(5-7) l in simp_all)
  moreover have "list_all (flow_covered S) ce" by (rule 6(2)[OF cc sub(3)]) (use 6(5-7) l in simp_all)
  ultimately show ?case by (simp add: cs)
next
  case (7 pc l c s)
  from 7(2) obtain cc cb where cc: "collect_constraints_expr (MinOf pc l) c = Some cc"
    "collect_constraints_stmt (MinOf pc l) s = Some cb" and cs: "cs = cc @ cb" by (auto simp: bind_Some_iff)
  have l: "label_covered S l" and sub: "set (collect_labels_expr c) \<subseteq> S" "set (collect_labels_stmt s) \<subseteq> S"
    using 7(3) collect_node_covered[of l "collect_labels_expr c @ collect_labels_stmt s" S] by auto
  have "list_all (flow_covered S) cc" by (rule collect_constraints_expr_covered(1)[OF cc(1) sub(1)]) (use 7(4,5) in simp_all)
  moreover have "list_all (flow_covered S) cb" by (rule 7(1)[OF cc sub(2)]) (use 7(4-6) l in simp_all)
  ultimately show ?case by (simp add: cs)
next
  case (8 pc l ss)
  then show ?case using collect_node_covered[of l "concat (map collect_labels_stmt ss)" S] by simp
next
  case (12 pc s ss)
  from 12(3) obtain c cs' where c: "collect_constraints_stmt pc s = Some c" "collect_constraints_stmts pc ss = Some cs'"
    and cs: "cs = c @ cs'" by (auto simp: bind_Some_iff)
  have "list_all (flow_covered S) c" by (rule 12(1)[OF c(1)]) (use 12(4-7) in simp_all)
  moreover have "list_all (flow_covered S) cs'" by (rule 12(2)[OF c]) (use 12(4-7) in simp_all)
  ultimately show ?case by (simp add: cs)
qed simp_all

text \<open>An atom of a covered label that is no temporary after the substitution is \<open>top\<close> or a label of \<open>S\<close>.\<close>

lemma covered_substs:
  assumes "label_covered S l" "x \<in> set (split_high l)" "fst ` set ss \<subseteq> S" "\<not> is_temp_label (substs ss x)"
  shows "substs ss x = Top \<or> substs ss x \<in> S"
  using assms substs_cases[of ss x] substs_not_temp[of x ss] by (auto simp: label_covered_def)

section \<open>An instance of the sorts\<close>

fun insert_by :: "('a \<Rightarrow> 'a \<Rightarrow> bool option) \<Rightarrow> 'a \<Rightarrow> 'a list \<Rightarrow> 'a list" where
  "insert_by le c [] = [c]"
| "insert_by le c (d # ds) = (if le c d = Some True then c # d # ds else d # insert_by le c ds)"

definition sort_by :: "('a \<Rightarrow> 'a \<Rightarrow> bool option) \<Rightarrow> 'a list \<Rightarrow> 'a list" where
  "sort_by le xs = foldr (insert_by le) xs []"

lemma insert_by_set [simp]: "set (insert_by le c ds) = insert c (set ds)"
  by (induction ds) auto

lemma insert_by_length [simp]: "length (insert_by le c ds) = Suc (length ds)"
  by (induction ds) auto

lemma sort_by_set [simp]: "set (sort_by le xs) = set xs"
  by (induction xs) (simp_all add: sort_by_def)

lemma sort_by_length [simp]: "length (sort_by le xs) = length xs"
  by (induction xs) (simp_all add: sort_by_def)

lemma lte_temp:
  "is_temp_label (high c) \<Longrightarrow> \<not> is_temp_label (high d) \<Longrightarrow> lte c d = Some False"
  "\<not> is_temp_label (high c) \<Longrightarrow> is_temp_label (high d) \<Longrightarrow> lte c d = Some True"
  by (simp_all add: lte_def)

lemma insert_by_separated: "separated ds \<Longrightarrow> separated (insert_by lte c ds)"
proof (induction ds)
  case (Cons d ds)
  have tl: "separated ds" and hd: "is_temp_label (high d) \<longrightarrow> (\<forall>x \<in> set ds. is_temp_label (high x))"
    using Cons.prems unfolding separated_def sorted_wrt.simps by blast+
  show ?case
  proof (cases "lte c d = Some True")
    case True
    then have "is_temp_label (high c) \<longrightarrow> is_temp_label (high d)" using lte_temp(1)[of c d] by fastforce
    then show ?thesis using Cons.prems hd unfolding separated_def insert_by.simps if_P[OF True] sorted_wrt.simps list.set by blast
  next
    case False
    then have "is_temp_label (high d) \<longrightarrow> is_temp_label (high c)" using lte_temp(2)[of c d] by fastforce
    then show ?thesis using Cons.IH[OF tl] hd
      unfolding separated_def insert_by.simps if_not_P[OF False] sorted_wrt.simps insert_by_set by blast
  qed
qed (simp add: separated_def)

lemma sort_by_sorts_constraints: "sorts_constraints (sort_by lte)"
proof -
  have "separated (sort_by lte cs)" for cs
  proof (induction cs)
    case Nil
    show ?case by (simp add: sort_by_def separated_def)
  next
    case (Cons c cs)
    then show ?case using insert_by_separated[of "sort_by lte cs" c] by (simp add: sort_by_def)
  qed
  then show ?thesis by (simp add: sorts_constraints_def)
qed

lemma remdups_keeps_elements: "keeps_elements remdups"
  by (simp add: keeps_elements_def)

section \<open>Properties\<close>

lemma sql_label_Top: "sql_label Top"
  by simp

text \<open>
  C10: a program that passes label inference over the labels of the SQL stores has no
  illegal flow.  The result is the program with its temporaries replaced by labels of the program, and
  under that replacement every collected constraint holds in which no temporary stayed.  The labels of
  the handles that the program uses must be labels of the program: inference only looks at those.
\<close>

theorem infer_labels_sound_sql:
  assumes "sorts_constraints csort" and "keeps_elements dedupe" and "keeps_elements as_sorted_list"
    and "\<forall>l \<in> set (collect_proper_labels as_sorted_list ast). sql_label l"
    and "sorted_wrt (\<lambda>a b. flows b a) (collect_proper_labels as_sorted_list ast)"
    and "list_all (label_covered (set (collect_proper_labels as_sorted_list ast))) (stmt_handles ast)"
    and "collect_constraints_stmt Top ast = Some cs"
    and "infer_labels csort dedupe as_sorted_list ast = Some ast'"
  shows "\<exists>ss. apply_substs ss ast = Some ast' \<and>
    fst ` set ss \<subseteq> set (collect_proper_labels as_sorted_list ast) \<and>
    (\<forall>c \<in> set cs.
      (\<forall>x \<in> set (split_high (high c) @ split_high (low c)). \<not> is_temp_label (substs ss x)) \<longrightarrow>
      flows (eval_label (\<lambda>i j. substs ss (Temp i j)) (high c)) (eval_label (\<lambda>i j. substs ss (Temp i j)) (low c)))"
proof -
  let ?S = "set (collect_proper_labels as_sorted_list ast)"
  obtain ss where ss: "apply_substs ss ast = Some ast'" "fst ` set ss \<subseteq> ?S"
    "\<forall>c \<in> set cs.
      (\<forall>x \<in> set (split_high (high c)). substs ss x = Top \<or> substs ss x \<in> ?S) \<longrightarrow>
      (\<forall>x \<in> set (split_high (low c)). sql_label (substs ss x)) \<longrightarrow>
      flows (eval_label (\<lambda>i j. substs ss (Temp i j)) (high c)) (eval_label (\<lambda>i j. substs ss (Temp i j)) (low c))"
    using sql.infer_labels_sound[OF assms(1,2,4,5,7,8) sql_label_Top] by blast
  have "set (collect_labels_stmt ast) \<subseteq> ?S"
    using assms(3) by (simp add: collect_proper_labels_def keeps_elements_def)
  from collect_constraints_stmt_covered(1)[OF assms(7) this assms(6)]
  have cov: "list_all (flow_covered ?S) cs" using assms(4) sql.proper by auto
  have "flows (eval_label (\<lambda>i j. substs ss (Temp i j)) (high c)) (eval_label (\<lambda>i j. substs ss (Temp i j)) (low c))"
    if c: "c \<in> set cs" and nt: "\<forall>x \<in> set (split_high (high c) @ split_high (low c)). \<not> is_temp_label (substs ss x)" for c
  proof -
    have fc: "label_covered ?S (high c)" "label_covered ?S (low c)" using cov c by (auto simp: list_all_iff flow_covered_def)
    have "\<forall>x \<in> set (split_high (high c)). substs ss x = Top \<or> substs ss x \<in> ?S"
      using covered_substs[OF fc(1) _ ss(2)] nt by simp
    moreover have "\<forall>x \<in> set (split_high (low c)). sql_label (substs ss x)"
      using covered_substs[OF fc(2) _ ss(2)] nt assms(4) sql_label_Top by fastforce
    ultimately show ?thesis using ss(3) c by blast
  qed
  with ss(1,2) show ?thesis by blast
qed

definition sample_typed :: lstmt where
  "sample_typed = LS_Let Causal
     (LBinding (Temp 1 1) Y_int ''x'' (LE_VarReference Strong Y_int ''y''))
     (LS_Assignment Causal (LE_VarReference Causal Y_int ''z'') (LE_VarReference (Temp 1 1) Y_int ''x''))"

definition label_sort :: "label list \<Rightarrow> label list" where
  "label_sort ls = sort_by label_lte (remdups ls)"

lemma label_sort_keeps_elements: "keeps_elements label_sort"
  by (simp add: keeps_elements_def label_sort_def)

theorem infer_labels_sound_sql_witness:
  "\<exists>ast' ss. infer_labels (sort_by lte) remdups label_sort sample_typed = Some ast' \<and>
     apply_substs ss sample_typed = Some ast' \<and> fst ` set ss \<subseteq> {Causal, Strong} \<and>
     \<not> contains_improper_stmt ast'"
proof -
  have ls: "collect_proper_labels label_sort sample_typed = [Causal, Strong]" by code_simp
  have r: "infer_labels (sort_by lte) remdups label_sort sample_typed =
    Some (LS_Let Causal (LBinding Strong Y_int ''x'' (LE_VarReference Strong Y_int ''y''))
     (LS_Assignment Causal (LE_VarReference Causal Y_int ''z'') (LE_VarReference Strong Y_int ''x'')))"
    by code_simp
  obtain cs where cs: "collect_constraints_stmt Top sample_typed = Some cs"
    by (simp add: sample_typed_def)
  have "\<forall>l \<in> set (collect_proper_labels label_sort sample_typed). sql_label l"
    "sorted_wrt (\<lambda>a b. flows b a) (collect_proper_labels label_sort sample_typed)"
    by (simp_all add: ls)
  moreover have "list_all (label_covered (set (collect_proper_labels label_sort sample_typed))) (stmt_handles sample_typed)"
    by (simp add: sample_typed_def)
  ultimately have "\<exists>ss. apply_substs ss sample_typed = Some (LS_Let Causal (LBinding Strong Y_int ''x'' (LE_VarReference Strong Y_int ''y''))
     (LS_Assignment Causal (LE_VarReference Causal Y_int ''z'') (LE_VarReference Strong Y_int ''x''))) \<and>
     fst ` set ss \<subseteq> set (collect_proper_labels label_sort sample_typed)"
    using infer_labels_sound_sql[OF sort_by_sorts_constraints remdups_keeps_elements label_sort_keeps_elements _ _ _ cs r] by blast
  with ls r show ?thesis by auto
qed

text \<open>
  C18: an explicit flow between two proper labels that the label order
  forbids makes inference fail, wherever in the program it occurs.
\<close>

theorem infer_labels_rejects:
  assumes "sorts_constraints csort" and "keeps_elements dedupe"
    and "\<forall>l \<in> set (collect_proper_labels as_sorted_list ast). sql_label l"
    and "sorted_wrt (\<lambda>a b. flows b a) (collect_proper_labels as_sorted_list ast)"
    and "collect_constraints_stmt Top ast = Some cs" and "c \<in> set cs"
    and "high c \<in> set (collect_proper_labels as_sorted_list ast)" and "sql_label (low c)"
    and "\<not> flows (high c) (low c)"
  shows "infer_labels csort dedupe as_sorted_list ast = None"
proof (rule ccontr)
  assume "infer_labels csort dedupe as_sorted_list ast \<noteq> None"
  then obtain ast' where a: "infer_labels csort dedupe as_sorted_list ast = Some ast'" by auto
  have h: "sql_label (high c)" using assms(3,7) by blast
  have atom: "split_high l = [l] \<and> substs ss l = l \<and> eval_label \<tau> l = l" if "sql_label l" for l ss \<tau>
    using that sql.proper[OF that] by (cases l) (auto simp: substs_not_temp)
  show False
    using sql.infer_labels_sound[OF assms(1-5) a sql_label_Top] assms(6-9) atom[OF h] atom[OF assms(8)] by auto
qed

theorem infer_labels_rejects_witness:
  "infer_labels (sort_by lte) remdups label_sort
     (LS_Assignment Causal (LE_VarReference Strong Y_int ''z'') (LE_VarReference Causal Y_int ''y'')) = None"
proof -
  let ?ast = "LS_Assignment Causal (LE_VarReference Strong Y_int ''z'') (LE_VarReference Causal Y_int ''y'')"
  have ls: "collect_proper_labels label_sort ?ast = [Causal, Strong]" by code_simp
  have "\<forall>l \<in> set (collect_proper_labels label_sort ?ast). sql_label l"
    "sorted_wrt (\<lambda>a b. flows b a) (collect_proper_labels label_sort ?ast)"
    by (simp_all add: ls)
  moreover have "collect_constraints_stmt Top ?ast =
      Some [flow Causal Strong ''assignment'', flow Top Strong ''assignment, pc'']" by simp
  ultimately show ?thesis
    by (rule infer_labels_rejects[OF sort_by_sorts_constraints remdups_keeps_elements,
          where c = "flow Causal Strong ''assignment''"]) (simp_all add: ls flow_def)
qed

end
