(* ===== verification/Pool.thy ===== *)
theory Pool
  imports Prelude
begin

text \<open>
  The containers of the compile-time parser: \<open>transactions/mtl/new-parsing/array.hpp\<close>,
  \<open>union.hpp\<close>, \<open>allocated_ref.hpp\<close> and \<open>allocator.hpp\<close>.

  The parser may not allocate on a heap (it runs in \<open>constexpr\<close>), so its nodes live in a
  fixed pool of slots and refer to each other by index, \<open>0\<close> being the null reference.
  \<^term>\<open>None\<close> stands for a failed \<open>assert\<close> or a thrown \<open>out_of_range\<close>, which end
  constant evaluation.
\<close>

section \<open>array<T,size>\<close>

text \<open>\<open>array<T,1>\<close> holds one element, \<open>array<T,n>\<close> a head and an \<open>array<T,n-1>\<close>.\<close>

datatype 'a arr = One 'a | More 'a "'a arr"

fun arr_size :: "'a arr \<Rightarrow> nat" where
  "arr_size (One x) = 1"
| "arr_size (More x r) = Suc (arr_size r)"

fun arr_make :: "nat \<Rightarrow> 'a \<Rightarrow> 'a arr" where
  "arr_make (Suc (Suc n)) x = More x (arr_make (Suc n) x)"
| "arr_make _ x = One x"

text \<open>\<open>operator[]\<close> and \<open>ptr\<close>: reading, and writing through the reference they return.\<close>

fun arr_get :: "'a arr \<Rightarrow> nat \<Rightarrow> 'a option" where
  "arr_get (One x) i = (if i = 0 then Some x else None)"
| "arr_get (More x r) i =
     (if i = 0 then Some x
      else if i < arr_size (More x r) then arr_get r (i - 1)
      else None)"

fun arr_set :: "'a arr \<Rightarrow> nat \<Rightarrow> 'a \<Rightarrow> 'a arr option" where
  "arr_set (One x) i v = (if i = 0 then Some (One v) else None)"
| "arr_set (More x r) i v =
     (if i = 0 then Some (More v r)
      else if i < arr_size (More x r) then map_option (More x) (arr_set r (i - 1) v)
      else None)"

text \<open>\<open>begin()\<close> to \<open>end()\<close>: what a range-based loop visits.\<close>

fun arr_list :: "'a arr \<Rightarrow> 'a list" where
  "arr_list (One x) = [x]"
| "arr_list (More x r) = x # arr_list r"

text \<open>The move constructor moves the elements one by one.\<close>

fun arr_map :: "('a \<Rightarrow> 'b) \<Rightarrow> 'a arr \<Rightarrow> 'b arr" where
  "arr_map f (One x) = One (f x)"
| "arr_map f (More x r) = More (f x) (arr_map f r)"

lemma arr_size_map [simp]: "arr_size (arr_map f a) = arr_size a"
  by (induction a) auto

lemma arr_list_map: "arr_list (arr_map f a) = map f (arr_list a)"
  by (induction a) auto

lemma length_arr_list [simp]: "length (arr_list a) = arr_size a"
  by (induction a) auto

lemma arr_get_list: "arr_get a i = (if i < arr_size a then Some (arr_list a ! i) else None)"
proof (induction a arbitrary: i)
  case (More x r)
  then show ?case by (cases i) auto
qed auto

lemma arr_set_list: "map_option arr_list (arr_set a i v) =
    (if i < arr_size a then Some ((arr_list a)[i := v]) else None)"
proof (induction a arbitrary: i)
  case (More x r)
  show ?case
  proof (cases i)
    case (Suc n)
    with More[of n] show ?thesis by (cases "arr_set r n v") auto
  qed simp
qed auto

lemma arr_size_make [simp]: "arr_size (arr_make (Suc n) x) = Suc n"
  by (induction n) auto

lemma arr_list_make: "arr_list (arr_make (Suc n) x) = replicate (Suc n) x"
  by (induction n) auto

text \<open>The contract of an indexed container, and its clients' lemmas.\<close>

locale indexed =
  fixes size_of :: "'s \<Rightarrow> nat"
    and get :: "'s \<Rightarrow> nat \<Rightarrow> 'a option"
    and set :: "'s \<Rightarrow> nat \<Rightarrow> 'a \<Rightarrow> 's option"
  assumes get_defined: "get s i \<noteq> None \<longleftrightarrow> i < size_of s"
    and set_defined: "set s i v \<noteq> None \<longleftrightarrow> i < size_of s"
    and size_set: "set s i v = Some s' \<Longrightarrow> size_of s' = size_of s"
    and get_set: "set s i v = Some s' \<Longrightarrow> get s' j = (if i = j then Some v else get s j)"
begin

lemma set_some: "i < size_of s \<Longrightarrow> \<exists>s'. set s i v = Some s'"
  using set_defined[of s i v] by auto

lemma get_some: "i < size_of s \<Longrightarrow> \<exists>x. get s i = Some x"
  using get_defined[of s i] by auto

lemma get_set_same: "set s i v = Some s' \<Longrightarrow> get s' i = Some v"
  using get_set[of s i v s' i] by simp

lemma get_set_other: "set s i v = Some s' \<Longrightarrow> j \<noteq> i \<Longrightarrow> get s' j = get s j"
  using get_set[of s i v s' j] by simp

end

lemma arr_set_Some: "arr_set a i v = Some a' \<Longrightarrow> i < arr_size a \<and> arr_list a' = (arr_list a)[i := v]"
  using arr_set_list[of a i v] by (auto split: if_splits)

interpretation arr: indexed arr_size arr_get arr_set
proof
  fix s :: "'a arr" and i
  show "arr_get s i \<noteq> None \<longleftrightarrow> i < arr_size s" by (simp add: arr_get_list)
next
  fix s :: "'a arr" and i v
  show "arr_set s i v \<noteq> None \<longleftrightarrow> i < arr_size s"
    using arr_set_list[of s i v] by (auto split: if_splits)
next
  fix s s' :: "'a arr" and i v
  assume s: "arr_set s i v = Some s'"
  then show sz: "arr_size s' = arr_size s"
    using arr_set_Some[OF s] by (metis length_arr_list length_list_update)
  show "arr_get s' j = (if i = j then Some v else arr_get s j)" for j
    using arr_set_Some[OF s] sz by (auto simp: arr_get_list)
qed

section \<open>SingleAllocator and allocated_ref\<close>

record 'a pool =
  data :: "'a arr"
  open_slots :: "bool list"

definition pool_new :: "nat \<Rightarrow> 'a \<Rightarrow> 'a pool" where
  "pool_new n x = \<lparr>data = arr_make n x, open_slots = replicate n True\<rparr>"

text \<open>The loop of \<open>_allocate\<close>: the first open slot at or after \<open>i\<close>.\<close>

fun find_open :: "nat \<Rightarrow> bool list \<Rightarrow> nat option" where
  "find_open i [] = None"
| "find_open i (b # bs) = (if b then Some i else find_open (Suc i) bs)"

text \<open>
  \<open>allocate\<close> constructs an \<open>allocated_ref\<close>, whose index is one more than the slot; running
  out of slots fails the assertion.
\<close>

definition allocate :: "'a pool \<Rightarrow> (nat \<times> 'a pool) option" where
  "allocate p = (case find_open 0 (open_slots p) of
      Some i \<Rightarrow> Some (i + 1, p\<lparr>open_slots := (open_slots p)[i := False]\<rparr>)
    | None \<Rightarrow> None)"

text \<open>\<open>SingleAllocator::free(i)\<close> reopens slot \<open>i\<close>; a write past the array is not constant.\<close>

definition free_slot :: "'a pool \<Rightarrow> nat \<Rightarrow> 'a pool option" where
  "free_slot p i = (if i < length (open_slots p)
     then Some (p\<lparr>open_slots := (open_slots p)[i := True]\<rparr>) else None)"

text \<open>\<open>allocated_ref::free(sa)\<close> hands its own index, which is the slot plus one, to the allocator.\<close>

definition ref_free :: "'a pool \<Rightarrow> nat \<Rightarrow> 'a pool option" where
  "ref_free p indx = free_slot p indx"

definition ref_get :: "'a pool \<Rightarrow> nat \<Rightarrow> 'a option" where
  "ref_get p indx = (if indx = 0 then None else arr_get (data p) (indx - 1))"

definition ref_set :: "'a pool \<Rightarrow> nat \<Rightarrow> 'a \<Rightarrow> 'a pool option" where
  "ref_set p indx v = (if indx = 0 then None
     else map_option (\<lambda>d. p\<lparr>data := d\<rparr>) (arr_set (data p) (indx - 1) v))"

text \<open>The move constructor of \<open>SingleAllocator\<close>, for elements moved by \<open>mv\<close>.\<close>

definition pool_move :: "('a \<Rightarrow> 'a) \<Rightarrow> 'a pool \<Rightarrow> 'a pool" where
  "pool_move mv p = p\<lparr>data := arr_map mv (data p)\<rparr>"

definition is_null :: "nat \<Rightarrow> bool" where
  "is_null indx = (indx = 0)"

subsection \<open>Laws of the pool\<close>

definition pool_ok :: "'a pool \<Rightarrow> bool" where
  "pool_ok p \<longleftrightarrow> arr_size (data p) = length (open_slots p)"

text \<open>The reference \<open>r\<close> denotes a slot that has been handed out.\<close>

definition live :: "'a pool \<Rightarrow> nat \<Rightarrow> bool" where
  "live p r \<longleftrightarrow> 0 < r \<and> r \<le> length (open_slots p) \<and> \<not> open_slots p ! (r - 1)"

definition free_count :: "'a pool \<Rightarrow> nat" where
  "free_count p = length (filter id (open_slots p))"

lemma find_open_Some:
  "find_open i bs = Some j \<Longrightarrow>
   i \<le> j \<and> j - i < length bs \<and> bs ! (j - i) \<and> (\<forall>k < j - i. \<not> bs ! k)"
proof (induction bs arbitrary: i)
  case (Cons b bs)
  show ?case
  proof (cases b)
    case False
    with Cons have *: "Suc i \<le> j" "j - Suc i < length bs" "bs ! (j - Suc i)"
      "\<forall>k < j - Suc i. \<not> bs ! k" by auto
    then have "j - i = Suc (j - Suc i)" by simp
    with * False show ?thesis by (auto simp: nth_Cons split: nat.splits)
  qed (use Cons in auto)
qed auto

lemma find_open_None: "find_open i bs = None \<longleftrightarrow> True \<notin> set bs"
  by (induction bs arbitrary: i) auto

lemma allocate_Some:
  assumes "allocate p = Some (r, p')"
  shows "0 < r" "r \<le> length (open_slots p)" "open_slots p ! (r - 1)"
    "p' = p\<lparr>open_slots := (open_slots p)[r - 1 := False]\<rparr>"
  using assms find_open_Some[of 0 "open_slots p"]
  by (auto simp: allocate_def split: option.splits)

lemma allocate_fails_iff: "allocate p = None \<longleftrightarrow> free_count p = 0"
proof -
  have "free_count p = 0 \<longleftrightarrow> True \<notin> set (open_slots p)"
    by (auto simp: free_count_def filter_empty_conv)
  then show ?thesis
    using find_open_None[of 0 "open_slots p"] by (simp add: allocate_def option.case_eq_if)
qed

lemma free_count_update:
  "i < length bs \<Longrightarrow> bs ! i \<Longrightarrow> Suc (length (filter id (bs[i := False]))) = length (filter id bs)"
proof (induction bs arbitrary: i)
  case (Cons b bs)
  then show ?case by (cases i) auto
qed auto

lemma allocate_free_count:
  "allocate p = Some (r, p') \<Longrightarrow> free_count p = Suc (free_count p')"
  using allocate_Some[of p r p'] free_count_update[of "r - 1" "open_slots p"]
  by (simp add: free_count_def)

lemma allocate_pool_ok: "pool_ok p \<Longrightarrow> allocate p = Some (r, p') \<Longrightarrow> pool_ok p'"
  using allocate_Some[of p r p'] by (simp add: pool_ok_def)

lemma allocate_data: "allocate p = Some (r, p') \<Longrightarrow> data p' = data p"
  using allocate_Some[of p r p'] by simp

lemma allocate_live:
  assumes "allocate p = Some (r, p')"
  shows "live p' q \<longleftrightarrow> live p q \<or> q = r"
  using allocate_Some[OF assms] by (auto simp: live_def nth_list_update)

lemma allocate_fresh: "allocate p = Some (r, p') \<Longrightarrow> \<not> live p r"
  using allocate_Some[of p r p'] by (simp add: live_def)

lemma ref_set_Some:
  assumes "ref_set p r v = Some p'"
  shows "open_slots p' = open_slots p" "0 < r" "ref_get p' q = (if q = r then Some v else ref_get p q)"
    "pool_ok p \<Longrightarrow> pool_ok p'"
proof -
  from assms obtain d where d: "arr_set (data p) (r - 1) v = Some d" "p' = p\<lparr>data := d\<rparr>" "0 < r"
    by (auto simp: ref_set_def split: if_splits)
  show "open_slots p' = open_slots p" "0 < r" using d by simp_all
  show "ref_get p' q = (if q = r then Some v else ref_get p q)"
  proof (cases "q = 0")
    case False
    with d have "(r - 1 = q - 1) = (q = r)" by auto
    with False d(2) arr.get_set[OF d(1), of "q - 1"] show ?thesis by (simp add: ref_get_def)
  qed (use d in \<open>simp add: ref_get_def\<close>)
  show "pool_ok p \<Longrightarrow> pool_ok p'" using d arr.size_set[OF d(1)] by (simp add: pool_ok_def)
qed

lemma ref_set_live: "ref_set p r v = Some p' \<Longrightarrow> live p' q \<longleftrightarrow> live p q"
  using ref_set_Some(1)[of p r v p'] by (simp add: live_def)

lemma ref_set_defined:
  assumes "pool_ok p" "live p r"
  shows "\<exists>p'. ref_set p r v = Some p'"
proof -
  have "r - 1 < arr_size (data p)" "0 < r" using assms by (auto simp: pool_ok_def live_def)
  then show ?thesis using arr.set_some[of "r - 1" "data p" v] by (auto simp: ref_set_def)
qed

lemma ref_set_free_count: "ref_set p r v = Some p' \<Longrightarrow> free_count p' = free_count p"
  using ref_set_Some(1)[of p r v p'] by (simp add: free_count_def)

lemma allocate_ref_get: "allocate p = Some (r, p') \<Longrightarrow> ref_get p' q = ref_get p q"
  using allocate_data[of p r p'] by (simp add: ref_get_def)

lemma pool_new_ok: "pool_ok (pool_new (Suc n) x)"
  by (simp add: pool_ok_def pool_new_def)

lemma pool_new_free_count: "free_count (pool_new n x) = n"
  by (simp add: free_count_def pool_new_def)

lemma ref_get_move: "ref_get (pool_move mv p) r = map_option mv (ref_get p r)"
  by (simp add: ref_get_def pool_move_def arr_get_list arr_list_map)

lemma ref_get_live: "pool_ok p \<Longrightarrow> live p r \<Longrightarrow> \<exists>x. ref_get p r = Some x"
  using arr.get_some[of "r - 1" "data p"] by (auto simp: ref_get_def pool_ok_def live_def)


section \<open>Properties\<close>

text \<open>
  C28: \<open>allocate\<close> hands out the lowest open slot, closes it and nothing else, and
  it fails exactly when no slot is open.
\<close>

theorem allocate_least:
  "case allocate p of
     None \<Rightarrow> (\<forall>i < length (open_slots p). \<not> open_slots p ! i)
   | Some (r, p') \<Rightarrow> \<not> live p r \<and> (\<forall>q. live p' q \<longleftrightarrow> live p q \<or> q = r) \<and> data p' = data p \<and>
       (\<forall>i < r - 1. \<not> open_slots p ! i)"
proof (cases "allocate p")
  case None
  then have "True \<notin> set (open_slots p)"
    using find_open_None[of 0 "open_slots p"] by (auto simp: allocate_def split: option.splits)
  with None show ?thesis by (auto simp: in_set_conv_nth)
next
  case (Some rp)
  obtain r p' where rp: "rp = (r, p')" by (cases rp)
  have "\<forall>i < r - 1. \<not> open_slots p ! i"
    using Some rp find_open_Some[of 0 "open_slots p" "r - 1"]
    by (auto simp: allocate_def split: option.splits)
  with Some rp show ?thesis
    using allocate_live[of p r p'] allocate_fresh[of p r p'] allocate_data[of p r p'] by simp
qed

theorem allocate_least_witness:
  "\<exists>p'. allocate \<lparr>data = More True (More False (One True)), open_slots = [False, True, True]\<rparr> = Some (2, p') \<and>
     live p' 2 \<and> data p' = More True (More False (One True))"
  using allocate_least[of "\<lparr>data = More True (More False (One True)), open_slots = [False, True, True]\<rparr>"]
  by (auto simp: allocate_def)

text \<open>
  C30: freeing a reference reopens the slot after the one it owns.
  The slot of the reference stays closed, and a neighbour that may be in use is offered to the
  next \<open>allocate\<close>: \<open>allocated_ref::free\<close> passes its one-based index to
  \<open>SingleAllocator::free\<close>, which expects the zero-based slot.
\<close>

theorem allocated_ref_free_wrong_slot:
  assumes "live p r" and "r < length (open_slots p)"
  shows "\<exists>p'. ref_free p r = Some p' \<and> live p' r \<and> \<not> live p' (Suc r)"
  using assms by (auto simp: ref_free_def free_slot_def live_def nth_list_update)

theorem allocated_ref_free_wrong_slot_witness:
  "\<exists>r1 r2 p1 p2 p3. allocate (pool_new 4 (0::nat)) = Some (r1, p1) \<and> allocate p1 = Some (r2, p2) \<and>
     ref_free p2 r1 = Some p3 \<and> live p3 r1 \<and> \<not> live p3 r2"
proof -
  have "allocate (pool_new 4 (0::nat)) = Some (1, (pool_new 4 0)\<lparr>open_slots := [False, True, True, True]\<rparr>)"
    by (simp add: allocate_def pool_new_def numeral_eq_Suc)
  moreover have "allocate ((pool_new 4 (0::nat))\<lparr>open_slots := [False, True, True, True]\<rparr>) =
      Some (2, (pool_new 4 0)\<lparr>open_slots := [False, False, True, True]\<rparr>)"
    by (simp add: allocate_def)
  ultimately show ?thesis
    using allocated_ref_free_wrong_slot[of "(pool_new 4 (0::nat))\<lparr>open_slots := [False, False, True, True]\<rparr>" 1]
    by (auto simp: live_def numeral_2_eq_2)
qed

end
