(* ===== verification/Ast.thy ===== *)
theory Ast
  imports Pool
begin

text \<open>
  The two syntax trees of the parser, \<open>transactions/mtl/new-parsing/ast.hpp\<close>: the pool form
  that the \<open>constexpr\<close> parser builds (\<open>namespace as_values\<close>) and the type form that the rest
  of the compiler consumes (\<open>namespace as_types\<close>), with the conversions \<open>as_type\<close> and
  \<open>as_value\<close> between them, and the tagged union they store nodes in (\<open>union.hpp\<close>).

  Two functions of the \<open>mutils\<close> library are parameters: \<open>cpy\<close>, the content of a \<open>char[20]\<close>
  after \<open>cstring::str_cpy\<close> into it, and \<open>trim\<close>, \<open>String<c...>::trim_ends\<close>.
\<close>

section \<open>Node payloads\<close>

text \<open>
  The structs of \<open>as_values\<close> in the order in which \<open>AST_elem\<close> lists them.  A reference is
  the index of an \<open>allocated_ref\<close>, \<open>0\<close> when null.
\<close>

datatype node =
    N_transaction nat nat
  | N_FieldReference nat string
  | N_FieldPointerReference nat string
  | N_Dereference nat
  | N_Endorse string nat
  | N_Ensure string nat
  | N_IsValid nat
  | N_VarReference string
  | N_Constant nat
  | N_BinOp char nat nat
  | N_Let nat nat
  | N_LetRemote nat nat
  | N_args_exprs "nat list"
  | N_args_varrefs "nat list"
  | N_Operation string nat nat nat bool
  | N_Assignment nat nat
  | N_Return nat
  | N_If nat nat nat
  | N_While nat nat
  | N_Sequence nat nat
  | N_Skip
  | N_Binding nat string

fun tag :: "node \<Rightarrow> nat" where
  "tag (N_transaction e pl) = 0"
| "tag (N_FieldReference s f) = 1"
| "tag (N_FieldPointerReference s f) = 2"
| "tag (N_Dereference s) = 3"
| "tag (N_Endorse l h) = 4"
| "tag (N_Ensure l h) = 5"
| "tag (N_IsValid h) = 6"
| "tag (N_VarReference v) = 7"
| "tag (N_Constant i) = 8"
| "tag (N_BinOp c l r) = 9"
| "tag (N_Let b e) = 10"
| "tag (N_LetRemote b e) = 11"
| "tag (N_args_exprs es) = 12"
| "tag (N_args_varrefs vs) = 13"
| "tag (N_Operation n h es vs st) = 14"
| "tag (N_Assignment v e) = 15"
| "tag (N_Return e) = 16"
| "tag (N_If c t e) = 17"
| "tag (N_While c b) = 18"
| "tag (N_Sequence e n) = 19"
| "tag N_Skip = 20"
| "tag (N_Binding r v) = 21"

text \<open>The default-constructed payloads.\<close>

definition no_chars :: string where
  "no_chars = replicate 20 (CHR 0x00)"

definition no_refs :: "nat list" where
  "no_refs = replicate 20 0"

definition default_refs :: "node list" where
  "default_refs = [N_transaction 0 0, N_FieldReference 0 no_chars, N_FieldPointerReference 0 no_chars,
     N_Dereference 0]"

definition default_exprs :: "node list" where
  "default_exprs = [N_Endorse no_chars 0, N_Ensure no_chars 0, N_IsValid 0, N_VarReference no_chars,
     N_Constant 0, N_BinOp (CHR 0x00) 0 0]"

definition default_lets :: "node list" where
  "default_lets = [N_Let 0 0, N_LetRemote 0 0, N_args_exprs no_refs, N_args_varrefs no_refs]"

definition default_stmts :: "node list" where
  "default_stmts = [N_Operation no_chars 0 0 0 False, N_Assignment 0 0, N_Return 0, N_If 0 0 0,
     N_While 0 0, N_Sequence 0 0, N_Skip]"

definition default_nodes :: "node list" where
  "default_nodes = default_refs @ default_exprs @ default_lets @ default_stmts @ [N_Binding 0 no_chars]"

section \<open>The tagged union\<close>

text \<open>
  \<open>Union<T1,T...>\<close> inherits from one \<open>Union_elem\<close> per alternative: every alternative has its
  payload and its own flag, and nothing but the operations keeps at most one flag set.
\<close>

record union_elem =
  t_of :: node
  is_this_elem :: bool

record ast_elem =
  elems :: "union_elem list"
  is_initialized :: bool

definition union_new :: ast_elem where
  "union_new = \<lparr>elems = map (\<lambda>n. \<lparr>t_of = n, is_this_elem = False\<rparr>) default_nodes,
                is_initialized = False\<rparr>"

definition union_well_formed :: "ast_elem \<Rightarrow> bool" where
  "union_well_formed u \<longleftrightarrow>
     length (filter is_this_elem (elems u)) = 1 \<and> is_initialized u"

text \<open>\<open>operator=(U&&)\<close>: clear every flag, then store and flag the alternative of \<open>n\<close>.\<close>

definition union_assign :: "ast_elem \<Rightarrow> node \<Rightarrow> ast_elem" where
  "union_assign u n =
     \<lparr>elems = (map (\<lambda>e. e\<lparr>is_this_elem := False\<rparr>) (elems u))
                [tag n := \<lparr>t_of = n, is_this_elem = True\<rparr>],
      is_initialized = True\<rparr>"

text \<open>\<open>get_<T>().is_this_elem = true\<close>, which leaves the other flags; \<open>as_value\<close> sets \<open>is_initialized\<close> as well, the
  parser does not.\<close>

definition union_mark :: "bool \<Rightarrow> ast_elem \<Rightarrow> nat \<Rightarrow> ast_elem" where
  "union_mark init u k =
     \<lparr>elems = (elems u)[k := (elems u ! k)\<lparr>is_this_elem := True\<rparr>], is_initialized = (init \<or> is_initialized u)\<rparr>"

text \<open>Writing all the fields of \<open>get_<T>().t\<close>.\<close>

definition union_store :: "ast_elem \<Rightarrow> node \<Rightarrow> ast_elem" where
  "union_store u n = u\<lparr>elems := (elems u)[tag n := (elems u ! tag n)\<lparr>t_of := n\<rparr>]\<rparr>"

text \<open>\<open>get<T>()\<close> asserts the flag.\<close>

definition union_get :: "ast_elem \<Rightarrow> nat \<Rightarrow> node option" where
  "union_get u k =
     (if k < length (elems u) \<and> is_this_elem (elems u ! k) then Some (t_of (elems u ! k)) else None)"

text \<open>The chain \<open>if constexpr (e.get_<T>().is_this_elem) ... else if ...\<close>: the first flagged alternative.\<close>

definition union_first :: "ast_elem \<Rightarrow> node option" where
  "union_first u = map_option t_of (List.find is_this_elem (elems u))"

fun which_from :: "union_elem list \<Rightarrow> nat" where
  "which_from [] = 0"
| "which_from (e # es) = (if is_this_elem e then 0 else 1 + which_from es)"

definition which :: "ast_elem \<Rightarrow> nat" where
  "which u = which_from (elems u)"

text \<open>The move constructor copies the alternatives and leaves \<open>is_initialized\<close> at its default.\<close>

definition union_move :: "ast_elem \<Rightarrow> ast_elem" where
  "union_move u = \<lparr>elems = elems u, is_initialized = False\<rparr>"

section \<open>Trees as types\<close>

text \<open>
  The types of \<open>as_types\<close>, each with the \<open>Statement\<close> or \<open>Expression\<close> around it.  An
  operation can be either, which is its flag.  \<open>T_error\<close> is the local type \<open>error\<close> that
  \<open>as_type\<close> returns for a slot with no flagged alternative.
\<close>

datatype tree =
    T_transaction tree nat
  | T_FieldReference tree string
  | T_FieldPointerReference tree string
  | T_Dereference tree
  | T_Endorse string tree
  | T_Ensure string tree
  | T_IsValid tree
  | T_VarReference string
  | T_Constant nat
  | T_BinOp char tree tree
  | T_Let tree tree
  | T_LetRemote tree tree
  | T_args_exprs "tree list"
  | T_args_varrefs "tree list"
  | T_Operation bool string tree tree tree
  | T_Assignment tree tree
  | T_Return tree
  | T_If tree tree tree
  | T_While tree tree
  | T_Sequence tree tree
  | T_Skip
  | T_Binding string tree
  | T_error

fun is_Expression :: "tree \<Rightarrow> bool" where
  "is_Expression (T_FieldReference s f) = True"
| "is_Expression (T_FieldPointerReference s f) = True"
| "is_Expression (T_Dereference s) = True"
| "is_Expression (T_Endorse l h) = True"
| "is_Expression (T_Ensure l h) = True"
| "is_Expression (T_IsValid h) = True"
| "is_Expression (T_VarReference v) = True"
| "is_Expression (T_Constant i) = True"
| "is_Expression (T_BinOp c l r) = True"
| "is_Expression (T_Operation st n h es vs) = (\<not> st)"
| "is_Expression _ = False"

fun is_Statement :: "tree \<Rightarrow> bool" where
  "is_Statement (T_transaction e pl) = True"
| "is_Statement (T_Let b e) = True"
| "is_Statement (T_LetRemote b e) = True"
| "is_Statement (T_Operation st n h es vs) = st"
| "is_Statement (T_Assignment v e) = True"
| "is_Statement (T_Return e) = True"
| "is_Statement (T_If c t e) = True"
| "is_Statement (T_While c b) = True"
| "is_Statement (T_Sequence e n) = True"
| "is_Statement T_Skip = True"
| "is_Statement _ = False"

fun is_astnode_transaction :: "tree \<Rightarrow> bool" where
  "is_astnode_transaction (T_transaction e pl) = True"
| "is_astnode_transaction _ = False"

fun is_astnode_Sequence :: "tree \<Rightarrow> bool" where
  "is_astnode_Sequence (T_Sequence e n) = True"
| "is_astnode_Sequence _ = False"

fun is_astnode_Skip :: "tree \<Rightarrow> bool" where
  "is_astnode_Skip T_Skip = True"
| "is_astnode_Skip _ = False"


section \<open>From types to values\<close>

type_synonym ast_pool = "ast_elem pool"

text \<open>
  The opening lines of every \<open>as_value\<close>: allocate a slot, then flag the alternative.  The
  closing ones write the fields.  The children are converted in between, and no child reads
  or writes its parent's slot, so the fields of a node are written together.
\<close>

definition new_node :: "bool \<Rightarrow> ast_pool \<Rightarrow> nat \<Rightarrow> (nat \<times> ast_pool) option" where
  "new_node init p k = do {
     (elem, p) \<leftarrow> allocate p;
     u \<leftarrow> ref_get p elem;
     p \<leftarrow> ref_set p elem (union_mark init u k);
     Some (elem, p)
   }"

text \<open>The string of a node is a \<open>char[20]\<close>; writing past its end does not compile.\<close>

fun node_chars :: "node \<Rightarrow> string" where
  "node_chars (N_FieldReference s f) = f"
| "node_chars (N_FieldPointerReference s f) = f"
| "node_chars (N_Endorse l h) = l"
| "node_chars (N_Ensure l h) = l"
| "node_chars (N_VarReference v) = v"
| "node_chars (N_Operation n h es vs st) = n"
| "node_chars (N_Binding r v) = v"
| "node_chars _ = []"

definition store_node :: "ast_pool \<Rightarrow> nat \<Rightarrow> node \<Rightarrow> (nat \<times> ast_pool) option" where
  "store_node p elem n = (if length (node_chars n) \<le> 20 then do {
     u \<leftarrow> ref_get p elem;
     p \<leftarrow> ref_set p elem (union_store u n);
     Some (elem, p) }
   else None)"

text \<open>
  \<open>sequence_assign\<close> converts the arguments in order, into the first entries of an array of
  twenty null references; one more argument is out of bounds.
\<close>

definition fill_refs :: "nat list \<Rightarrow> nat list option" where
  "fill_refs rs = (if length rs \<le> 20 then Some (rs @ replicate (20 - length rs) 0) else None)"

fun as_value :: "(string \<Rightarrow> string) \<Rightarrow> tree \<Rightarrow> ast_pool \<Rightarrow> (nat \<times> ast_pool) option"
  and as_value_args :: "(string \<Rightarrow> string) \<Rightarrow> tree list \<Rightarrow> ast_pool \<Rightarrow> (nat list \<times> ast_pool) option"
where
  "as_value cpy (T_transaction e payload) p = do {
     (elem, p) \<leftarrow> new_node True p 0;
     (e', p) \<leftarrow> as_value cpy e p;
     store_node p elem (N_transaction e' payload) }"
| "as_value cpy (T_FieldReference Struct Fld) p = do {
     (elem, p) \<leftarrow> new_node True p 1;
     (s, p) \<leftarrow> as_value cpy Struct p;
     store_node p elem (N_FieldReference s (cpy Fld)) }"
| "as_value cpy (T_FieldPointerReference Struct Fld) p = do {
     (elem, p) \<leftarrow> new_node True p 2;
     (s, p) \<leftarrow> as_value cpy Struct p;
     store_node p elem (N_FieldPointerReference s (cpy Fld)) }"
| "as_value cpy (T_Dereference Struct) p = do {
     (elem, p) \<leftarrow> new_node True p 3;
     (s, p) \<leftarrow> as_value cpy Struct p;
     store_node p elem (N_Dereference s) }"
| "as_value cpy (T_Endorse label Hndl) p = do {
     (elem, p) \<leftarrow> new_node True p 4;
     (h, p) \<leftarrow> as_value cpy Hndl p;
     store_node p elem (N_Endorse (cpy label) h) }"
| "as_value cpy (T_Ensure label Hndl) p = do {
     (elem, p) \<leftarrow> new_node True p 5;
     (h, p) \<leftarrow> as_value cpy Hndl p;
     store_node p elem (N_Ensure (cpy label) h) }"
| "as_value cpy (T_IsValid Hndl) p = do {
     (elem, p) \<leftarrow> new_node True p 6;
     (h, p) \<leftarrow> as_value cpy Hndl p;
     store_node p elem (N_IsValid h) }"
| "as_value cpy (T_VarReference Var) p = do {
     (elem, p) \<leftarrow> new_node True p 7;
     store_node p elem (N_VarReference (cpy Var)) }"
| "as_value cpy (T_Constant i) p = do {
     (elem, p) \<leftarrow> new_node True p 8;
     store_node p elem (N_Constant i) }"
| "as_value cpy (T_BinOp op L R) p = do {
     (elem, p) \<leftarrow> new_node True p 9;
     (l, p) \<leftarrow> as_value cpy L p;
     (r, p) \<leftarrow> as_value cpy R p;
     store_node p elem (N_BinOp op l r) }"
| "as_value cpy (T_Let Binding Body) p = do {
     (elem, p) \<leftarrow> new_node True p 10;
     (b, p) \<leftarrow> as_value cpy Binding p;
     (e, p) \<leftarrow> as_value cpy Body p;
     store_node p elem (N_Let b e) }"
| "as_value cpy (T_LetRemote Binding Body) p = do {
     (elem, p) \<leftarrow> new_node True p 11;
     (b, p) \<leftarrow> as_value cpy Binding p;
     (e, p) \<leftarrow> as_value cpy Body p;
     store_node p elem (N_LetRemote b e) }"
| "as_value cpy (T_args_exprs Args) p = do {
     (elem, p) \<leftarrow> new_node True p 12;
     (rs, p) \<leftarrow> as_value_args cpy Args p;
     exprs \<leftarrow> fill_refs rs;
     store_node p elem (N_args_exprs exprs) }"
| "as_value cpy (T_args_varrefs Args) p = do {
     (elem, p) \<leftarrow> new_node True p 13;
     (rs, p) \<leftarrow> as_value_args cpy Args p;
     vars \<leftarrow> fill_refs rs;
     store_node p elem (N_args_varrefs vars) }"
| "as_value cpy (T_Operation is_statement name Hndl expr_args var_args) p = do {
     (elem, p) \<leftarrow> new_node True p 14;
     (h, p) \<leftarrow> as_value cpy Hndl p;
     (es, p) \<leftarrow> as_value cpy expr_args p;
     (vs, p) \<leftarrow> as_value cpy var_args p;
     store_node p elem (N_Operation (cpy name) h es vs is_statement) }"
| "as_value cpy (T_Assignment Var Expr) p = do {
     (elem, p) \<leftarrow> new_node True p 15;
     (v, p) \<leftarrow> as_value cpy Var p;
     (e, p) \<leftarrow> as_value cpy Expr p;
     store_node p elem (N_Assignment v e) }"
| "as_value cpy (T_Return Expr) p = do {
     (elem, p) \<leftarrow> new_node True p 16;
     (e, p) \<leftarrow> as_value cpy Expr p;
     store_node p elem (N_Return e) }"
| "as_value cpy (T_If condition thn els) p = do {
     (elem, p) \<leftarrow> new_node True p 17;
     (c, p) \<leftarrow> as_value cpy condition p;
     (t, p) \<leftarrow> as_value cpy thn p;
     (e, p) \<leftarrow> as_value cpy els p;
     store_node p elem (N_If c t e) }"
| "as_value cpy (T_While condition body) p = do {
     (elem, p) \<leftarrow> new_node True p 18;
     (c, p) \<leftarrow> as_value cpy condition p;
     (b, p) \<leftarrow> as_value cpy body p;
     store_node p elem (N_While c b) }"
| "as_value cpy (T_Sequence e nxt) p = do {
     (elem, p) \<leftarrow> new_node True p 19;
     (e', p) \<leftarrow> as_value cpy e p;
     (n, p) \<leftarrow> as_value cpy nxt p;
     store_node p elem (N_Sequence e' n) }"
| "as_value cpy T_Skip p = do {
     (elem, p) \<leftarrow> new_node True p 20;
     store_node p elem N_Skip }"
| "as_value cpy (T_Binding var rhs) p = (if is_Expression rhs then do {
     (elem, p) \<leftarrow> new_node True p 21;
     (r, p) \<leftarrow> as_value cpy rhs p;
     store_node p elem (N_Binding r (cpy var)) } else None)"
| "as_value cpy T_error p = None"
| "as_value_args cpy [] p = Some ([], p)"
| "as_value_args cpy (a # as) p = do {
     (r, p) \<leftarrow> as_value cpy a p;
     (rs, p) \<leftarrow> as_value_args cpy as p;
     Some (r # rs, p) }"

text \<open>
  The allocator that the top-level \<open>as_value\<close> returns: its pool, moved out of the local
  \<open>as_values_ns_fns\<close>, and \<open>top\<close>, moved out of the root's transaction node.
\<close>

record ast_allocator =
  elem_pool :: ast_pool
  top_e :: nat
  top_payload :: nat

definition as_value_top :: "(string \<Rightarrow> string) \<Rightarrow> nat \<Rightarrow> tree \<Rightarrow> ast_allocator option" where
  "as_value_top cpy budget hd_tree = (if is_astnode_transaction hd_tree then do {
     (r, p) \<leftarrow> as_value cpy hd_tree (pool_new budget union_new);
     u \<leftarrow> ref_get p r;
     n \<leftarrow> union_get u 0;
     (case n of
        N_transaction e pl \<Rightarrow> Some \<lparr>elem_pool = pool_move union_move p, top_e = e, top_payload = pl\<rparr>
      | _ \<Rightarrow> None) } else None)"

section \<open>From values to types\<close>

text \<open>
  \<open>as_type<budget,F>\<close>, where \<open>F\<close> reads the slot \<open>r\<close> (\<open>arg_struct\<close> asserts \<open>r > 0\<close>).  The
  ladder over the arguments of an operation stops at the first null reference.
\<close>

definition as_type_exprs :: "(nat \<Rightarrow> tree option) \<Rightarrow> nat list \<Rightarrow> tree option" where
  "as_type_exprs recur es = do { ts \<leftarrow> those (map recur (takeWhile (\<lambda>i. i > 0) es)); Some (T_args_exprs ts) }"

definition as_type_varrefs :: "(nat \<Rightarrow> tree option) \<Rightarrow> nat list \<Rightarrow> tree option" where
  "as_type_varrefs recur vs = do { ts \<leftarrow> those (map recur (takeWhile (\<lambda>i. i > 0) vs)); Some (T_args_varrefs ts) }"

fun as_type :: "(string \<Rightarrow> string) \<Rightarrow> nat \<Rightarrow> ast_pool \<Rightarrow> nat \<Rightarrow> tree option" where
  "as_type trim 0 p r = None"
| "as_type trim (Suc b) p r = (if Suc b \<le> 10000 then do {
     u \<leftarrow> ref_get p r;
     (case union_first u of
        Some (N_transaction e pl) \<Rightarrow> do { e' \<leftarrow> as_type trim b p e; Some (T_transaction e' pl) }
      | Some (N_FieldReference s f) \<Rightarrow> do { s' \<leftarrow> as_type trim b p s; Some (T_FieldReference s' (trim f)) }
      | Some (N_FieldPointerReference s f) \<Rightarrow>
          do { s' \<leftarrow> as_type trim b p s; Some (T_FieldPointerReference s' (trim f)) }
      | Some (N_Dereference s) \<Rightarrow> do { s' \<leftarrow> as_type trim b p s; Some (T_Dereference s') }
      | Some (N_Endorse l h) \<Rightarrow> do { h' \<leftarrow> as_type trim b p h; Some (T_Endorse (trim l) h') }
      | Some (N_Ensure l h) \<Rightarrow> do { h' \<leftarrow> as_type trim b p h; Some (T_Ensure (trim l) h') }
      | Some (N_IsValid h) \<Rightarrow> do { h' \<leftarrow> as_type trim b p h; Some (T_IsValid h') }
      | Some (N_VarReference v) \<Rightarrow> Some (T_VarReference (trim v))
      | Some (N_Constant i) \<Rightarrow> Some (T_Constant i)
      | Some (N_BinOp op l r) \<Rightarrow>
          do { l' \<leftarrow> as_type trim b p l; r' \<leftarrow> as_type trim b p r; Some (T_BinOp op l' r') }
      | Some (N_Let bi e) \<Rightarrow>
          do { b' \<leftarrow> as_type trim b p bi; e' \<leftarrow> as_type trim b p e; Some (T_Let b' e') }
      | Some (N_LetRemote bi e) \<Rightarrow>
          do { b' \<leftarrow> as_type trim b p bi; e' \<leftarrow> as_type trim b p e; Some (T_LetRemote b' e') }
      | Some (N_args_exprs es) \<Rightarrow>
          as_type_exprs (as_type trim b p) es
      | Some (N_args_varrefs vs) \<Rightarrow>
          as_type_varrefs (as_type trim b p) vs
      | Some (N_Operation n h es vs st) \<Rightarrow>
          do { h' \<leftarrow> as_type trim b p h; es' \<leftarrow> as_type trim b p es; vs' \<leftarrow> as_type trim b p vs;
               Some (T_Operation st (trim n) h' es' vs') }
      | Some (N_Assignment v e) \<Rightarrow>
          do { v' \<leftarrow> as_type trim b p v; e' \<leftarrow> as_type trim b p e; Some (T_Assignment v' e') }
      | Some (N_Return e) \<Rightarrow> do { e' \<leftarrow> as_type trim b p e; Some (T_Return e') }
      | Some (N_If c t e) \<Rightarrow>
          do { c' \<leftarrow> as_type trim b p c; t' \<leftarrow> as_type trim b p t; e' \<leftarrow> as_type trim b p e;
               Some (T_If c' t' e') }
      | Some (N_While c e) \<Rightarrow>
          do { c' \<leftarrow> as_type trim b p c; e' \<leftarrow> as_type trim b p e; Some (T_While c' e') }
      | Some (N_Sequence e n) \<Rightarrow>
          do { e' \<leftarrow> as_type trim b p e; n' \<leftarrow> as_type trim b p n; Some (T_Sequence e' n') }
      | Some N_Skip \<Rightarrow> Some T_Skip
      | Some (N_Binding rhs v) \<Rightarrow>
          do { r' \<leftarrow> as_type trim b p rhs;
               if is_Expression r' then Some (T_Binding (trim v) r') else None }
      | None \<Rightarrow> Some T_error) } else None)"

definition as_type_top :: "(string \<Rightarrow> string) \<Rightarrow> ast_allocator \<Rightarrow> tree option" where
  "as_type_top trim a = do {
     e \<leftarrow> as_type trim 1000 (elem_pool a) (top_e a);
     Some (T_transaction e (top_payload a)) }"


section \<open>One view of all node kinds\<close>

text \<open>
  The lemmas below see a tree as a node with a list of children: \<open>as_value\<close> allocates the
  node, converts the children left to right and stores their references.
\<close>

fun children :: "tree \<Rightarrow> tree list" where
  "children (T_transaction e pl) = [e]"
| "children (T_FieldReference s f) = [s]"
| "children (T_FieldPointerReference s f) = [s]"
| "children (T_Dereference s) = [s]"
| "children (T_Endorse l h) = [h]"
| "children (T_Ensure l h) = [h]"
| "children (T_IsValid h) = [h]"
| "children (T_VarReference v) = []"
| "children (T_Constant i) = []"
| "children (T_BinOp c l r) = [l, r]"
| "children (T_Let b e) = [b, e]"
| "children (T_LetRemote b e) = [b, e]"
| "children (T_args_exprs es) = es"
| "children (T_args_varrefs vs) = vs"
| "children (T_Operation st n h es vs) = [h, es, vs]"
| "children (T_Assignment v e) = [v, e]"
| "children (T_Return e) = [e]"
| "children (T_If c t e) = [c, t, e]"
| "children (T_While c b) = [c, b]"
| "children (T_Sequence e n) = [e, n]"
| "children T_Skip = []"
| "children (T_Binding v r) = [r]"
| "children T_error = []"

fun mk_node :: "(string \<Rightarrow> string) \<Rightarrow> tree \<Rightarrow> nat list \<Rightarrow> node" where
  "mk_node cpy (T_transaction e pl) rs = N_transaction (rs ! 0) pl"
| "mk_node cpy (T_FieldReference s f) rs = N_FieldReference (rs ! 0) (cpy f)"
| "mk_node cpy (T_FieldPointerReference s f) rs = N_FieldPointerReference (rs ! 0) (cpy f)"
| "mk_node cpy (T_Dereference s) rs = N_Dereference (rs ! 0)"
| "mk_node cpy (T_Endorse l h) rs = N_Endorse (cpy l) (rs ! 0)"
| "mk_node cpy (T_Ensure l h) rs = N_Ensure (cpy l) (rs ! 0)"
| "mk_node cpy (T_IsValid h) rs = N_IsValid (rs ! 0)"
| "mk_node cpy (T_VarReference v) rs = N_VarReference (cpy v)"
| "mk_node cpy (T_Constant i) rs = N_Constant i"
| "mk_node cpy (T_BinOp c l r) rs = N_BinOp c (rs ! 0) (rs ! 1)"
| "mk_node cpy (T_Let b e) rs = N_Let (rs ! 0) (rs ! 1)"
| "mk_node cpy (T_LetRemote b e) rs = N_LetRemote (rs ! 0) (rs ! 1)"
| "mk_node cpy (T_args_exprs es) rs = N_args_exprs (rs @ replicate (20 - length rs) 0)"
| "mk_node cpy (T_args_varrefs vs) rs = N_args_varrefs (rs @ replicate (20 - length rs) 0)"
| "mk_node cpy (T_Operation st n h es vs) rs = N_Operation (cpy n) (rs ! 0) (rs ! 1) (rs ! 2) st"
| "mk_node cpy (T_Assignment v e) rs = N_Assignment (rs ! 0) (rs ! 1)"
| "mk_node cpy (T_Return e) rs = N_Return (rs ! 0)"
| "mk_node cpy (T_If c t e) rs = N_If (rs ! 0) (rs ! 1) (rs ! 2)"
| "mk_node cpy (T_While c b) rs = N_While (rs ! 0) (rs ! 1)"
| "mk_node cpy (T_Sequence e n) rs = N_Sequence (rs ! 0) (rs ! 1)"
| "mk_node cpy T_Skip rs = N_Skip"
| "mk_node cpy (T_Binding v r) rs = N_Binding (rs ! 0) (cpy v)"
| "mk_node cpy T_error rs = N_Skip"

text \<open>What a single node must satisfy to be a type of \<open>as_types\<close> that fits into a pool node.\<close>

fun node_wf :: "tree \<Rightarrow> bool" where
  "node_wf (T_args_exprs es) = (length es \<le> 20)"
| "node_wf (T_args_varrefs vs) = (length vs \<le> 20)"
| "node_wf (T_Binding v r) = is_Expression r"
| "node_wf T_error = False"
| "node_wf _ = True"

lemma size_children: "c \<in> set (children t) \<Longrightarrow> size c < size t"
  by (cases t) (auto dest: size_list_estimation'[where f = size, OF _ order_refl])

lemma tree_induct_children [case_names node]:
  "(\<And>t. (\<And>c. c \<in> set (children t) \<Longrightarrow> P c) \<Longrightarrow> P t) \<Longrightarrow> P t"
  by (induction t rule: measure_induct_rule[where f = size]) (use size_children in blast)

function tree_wf :: "tree \<Rightarrow> bool" where
  "tree_wf t \<longleftrightarrow> node_wf t \<and> (\<forall>c \<in> set (children t). tree_wf c)"
  by pat_completeness auto
termination by (relation "measure size") (auto simp: size_children)

function nodes :: "tree \<Rightarrow> nat" where
  "nodes t = Suc (sum_list (map nodes (children t)))"
  by pat_completeness auto
termination by (relation "measure size") (auto simp: size_children)

function tree_height :: "tree \<Rightarrow> nat" where
  "tree_height t = Suc (fold max (map tree_height (children t)) 0)"
  by pat_completeness auto
termination by (relation "measure size") (auto simp: size_children)

fun node_strings :: "tree \<Rightarrow> string list" where
  "node_strings (T_FieldReference s f) = [f]"
| "node_strings (T_FieldPointerReference s f) = [f]"
| "node_strings (T_Endorse l h) = [l]"
| "node_strings (T_Ensure l h) = [l]"
| "node_strings (T_VarReference v) = [v]"
| "node_strings (T_Operation st n h es vs) = [n]"
| "node_strings (T_Binding v r) = [v]"
| "node_strings _ = []"

function tree_strings :: "tree \<Rightarrow> string list" where
  "tree_strings t = node_strings t @ concat (map tree_strings (children t))"
  by pat_completeness auto
termination by (relation "measure size") (auto simp: size_children)

declare tree_wf.simps [simp del] nodes.simps [simp del] tree_height.simps [simp del]
  tree_strings.simps [simp del]

lemma tree_wf_alt: "tree_wf t \<longleftrightarrow> node_wf t \<and> list_all tree_wf (children t)"
  by (simp add: tree_wf.simps[of t] list_all_iff)

lemma as_value_args_split:
  "as_value_args cpy [a] p = do { (x, p) \<leftarrow> as_value cpy a p; Some ([x], p) }"
  "as_value_args cpy [a, b] p =
     do { (x, p) \<leftarrow> as_value cpy a p; (y, p) \<leftarrow> as_value cpy b p; Some ([x, y], p) }"
  "as_value_args cpy [a, b, c] p =
     do { (x, p) \<leftarrow> as_value cpy a p; (y, p) \<leftarrow> as_value cpy b p; (z, p) \<leftarrow> as_value cpy c p;
          Some ([x, y, z], p) }"
  by (simp_all add: case_prod_unfold bind_assoc del: as_value.simps)

lemma as_value_args_length: "as_value_args cpy ts p = Some (rs, p') \<Longrightarrow> length rs = length ts"
  by (induction ts arbitrary: p rs p')
     (auto simp: bind_Some_iff split: prod.splits simp del: as_value.simps)

lemma as_value_generic:
  assumes "node_wf t"
  shows "as_value cpy t p = do {
     (elem, p) \<leftarrow> new_node True p (tag (mk_node cpy t []));
     (rs, p) \<leftarrow> as_value_args cpy (children t) p;
     store_node p elem (mk_node cpy t rs) }"
proof -
  note s = as_value_args_split case_prod_unfold bind_assoc
  have fill: "Option.bind (as_value_args cpy as p) (\<lambda>q. Option.bind (fill_refs (fst q)) (f q))
      = Option.bind (as_value_args cpy as p) (\<lambda>q. f q (fst q @ replicate (20 - length (fst q)) 0))"
    if "length as \<le> 20"
    for as p and f :: "nat list \<times> ast_pool \<Rightarrow> nat list \<Rightarrow> (nat \<times> ast_pool) option"
    using that as_value_args_length[of cpy as p]
    by (cases "as_value_args cpy as p") (auto simp: fill_refs_def)
  show ?thesis using assms by (cases t) (simp_all add: s fill)
qed

lemma as_value_node_wf: "as_value cpy t p = Some (r, p') \<Longrightarrow> node_wf t"
  by (cases t) (auto simp: bind_Some_iff fill_refs_def dest!: as_value_args_length
      split: if_splits prod.splits)

declare as_value.simps [simp del]


section \<open>What the conversion leaves in the pool\<close>

definition node_elem :: "bool \<Rightarrow> node \<Rightarrow> ast_elem" where
  "node_elem init n = \<lparr>elems = (elems union_new)[tag n := \<lparr>t_of = n, is_this_elem = True\<rparr>],
                       is_initialized = init\<rparr>"

text \<open>The slots that are not handed out hold default-constructed unions.\<close>

definition fresh_pool :: "ast_pool \<Rightarrow> bool" where
  "fresh_pool p \<longleftrightarrow> pool_ok p \<and>
     (\<forall>r. 0 < r \<and> r \<le> length (open_slots p) \<and> \<not> live p r \<longrightarrow> ref_get p r = Some union_new)"

definition pool_ext :: "ast_pool \<Rightarrow> ast_pool \<Rightarrow> bool" where
  "pool_ext p p' \<longleftrightarrow> fresh_pool p' \<and>
     (\<forall>q. live p q \<longrightarrow> live p' q \<and> ref_get p' q = ref_get p q)"

abbreviation new_slots :: "ast_pool \<Rightarrow> ast_pool \<Rightarrow> nat set" where
  "new_slots p p' \<equiv> {q. live p' q \<and> \<not> live p q}"

text \<open>The tree \<open>t\<close> is stored at \<open>r\<close>, in slots of \<open>X\<close> only.\<close>

inductive represents :: "(string \<Rightarrow> string) \<Rightarrow> ast_pool \<Rightarrow> nat set \<Rightarrow> nat \<Rightarrow> tree \<Rightarrow> bool"
  for cpy :: "string \<Rightarrow> string" and p :: ast_pool and X :: "nat set" where
  represents_node:
    "0 < r \<Longrightarrow> r \<in> X \<Longrightarrow> ref_get p r = Some (node_elem init (mk_node cpy t rs)) \<Longrightarrow>
     list_all2 (represents cpy p X) rs (children t) \<Longrightarrow> represents cpy p X r t"
monos list.rel_mono_strong

inductive_cases representsE: "represents cpy p X r t"

lemma represents_frame:
  assumes "represents cpy p X r t" "\<And>q. q \<in> X \<Longrightarrow> q \<in> Y \<and> ref_get p' q = ref_get p q"
  shows "represents cpy p' Y r t"
  using assms(1)
proof induction
  case (represents_node r init t rs)
  then show ?case using assms(2)[of r]
    by (intro represents.represents_node[of r Y p' init cpy t rs]) (auto elim: list.rel_mono_strong)
qed

lemma length_default_nodes [simp]: "length default_nodes = 22"
  by (simp add: default_nodes_def default_refs_def default_exprs_def default_lets_def default_stmts_def)

lemma length_elems_new [simp]: "length (elems union_new) = 22"
  by (simp add: union_new_def)

lemma tag_less [simp]: "tag n < 22"
  by (cases n) auto

lemma tag_mk_node: "tag (mk_node cpy t rs) = tag (mk_node cpy t [])"
  by (cases t) auto

lemma store_marked: "union_store (union_mark init union_new (tag n)) n = node_elem init n"
  by (cases "elems union_new ! tag n") (simp add: union_store_def union_mark_def node_elem_def union_new_def)

lemma fresh_pool_ok: "fresh_pool p \<Longrightarrow> pool_ok p"
  by (simp add: fresh_pool_def)

lemma fresh_pool_new: "fresh_pool (pool_new (Suc n) union_new)"
  by (auto simp: fresh_pool_def pool_ok_def ref_get_def pool_new_def arr_get_list
      arr_list_make simp del: replicate.simps arr_make.simps)

lemma new_node_spec:
  assumes "fresh_pool p" "0 < free_count p"
  obtains r p' where "new_node init p k = Some (r, p')" "pool_ext p p'" "0 < r" "\<not> live p r" "live p' r"
    "ref_get p' r = Some (union_mark init union_new k)" "free_count p = Suc (free_count p')"
proof -
  have "allocate p \<noteq> None" using assms(2) by (simp add: allocate_fails_iff)
  then obtain r p1 where a: "allocate p = Some (r, p1)" by auto
  note a' = allocate_Some[OF a] allocate_live[OF a] allocate_fresh[OF a] allocate_ref_get[OF a]
  have ok1: "pool_ok p1" using allocate_pool_ok[OF fresh_pool_ok[OF assms(1)] a] .
  have g: "ref_get p1 r = Some union_new"
    using a' assms(1) by (auto simp: fresh_pool_def)
  have "live p1 r" using a' by simp
  then obtain p2 where s: "ref_set p1 r (union_mark init union_new k) = Some p2"
    using ref_set_defined[OF ok1] by blast
  note s' = ref_set_Some[OF s] ref_set_live[OF s]
  have len: "length (open_slots p2) = length (open_slots p)" using a' s' by simp
  have "new_node init p k = Some (r, p2)" using a g s by (simp add: new_node_def)
  moreover have "pool_ext p p2" using a' s' ok1 assms(1) len
    by (auto simp: pool_ext_def fresh_pool_def)
  moreover have "live p2 r" "ref_get p2 r = Some (union_mark init union_new k)" using a' s' by auto
  moreover have "free_count p = Suc (free_count p2)"
    using allocate_free_count[OF a] ref_set_free_count[OF s] by simp
  ultimately show ?thesis using that a' by blast
qed

lemma store_node_spec:
  assumes "fresh_pool p" "live p r" "ref_get p r = Some (union_mark init union_new (tag n))" "length (node_chars n) \<le> 20"
  obtains p' where "store_node p r n = Some (r, p')" "fresh_pool p'" "\<And>q. live p' q \<longleftrightarrow> live p q"
    "\<And>q. ref_get p' q = (if q = r then Some (node_elem init n) else ref_get p q)"
    "free_count p' = free_count p"
proof -
  obtain p' where s: "ref_set p r (node_elem init n) = Some p'"
    using ref_set_defined[OF fresh_pool_ok[OF assms(1)] assms(2)] by blast
  note s' = ref_set_Some[OF s] ref_set_live[OF s] ref_set_free_count[OF s]
  have "store_node p r n = Some (r, p')" using assms(3,4) s by (simp add: store_node_def store_marked)
  moreover have "fresh_pool p'" using assms s' by (auto simp: fresh_pool_def)
  ultimately show ?thesis using that s' by blast
qed


lemma pool_ext_trans: "pool_ext p q \<Longrightarrow> pool_ext q r \<Longrightarrow> pool_ext p r"
  by (simp add: pool_ext_def)

lemma pool_ext_fresh: "pool_ext p p' \<Longrightarrow> fresh_pool p'"
  by (simp add: pool_ext_def)

text \<open>The contract of a conversion that succeeds.\<close>

definition built :: "(string \<Rightarrow> string) \<Rightarrow> ast_pool \<Rightarrow> tree \<Rightarrow> nat \<Rightarrow> ast_pool \<Rightarrow> bool" where
  "built cpy p t r p' \<longleftrightarrow> pool_ext p p' \<and> represents cpy p' (new_slots p p') r t \<and>
     free_count p = nodes t + free_count p'"

lemma represents_ext:
  assumes "represents cpy p1 (new_slots p p1) r t" "pool_ext p p1" "pool_ext p1 p2"
  shows "represents cpy p2 (new_slots p p2) r t"
  by (rule represents_frame[OF assms(1)]) (use assms(2,3) in \<open>auto simp: pool_ext_def\<close>)

lemma represents_later:
  assumes "represents cpy p2 (new_slots p1 p2) r t" "pool_ext p p1"
  shows "represents cpy p2 (new_slots p p2) r t"
  by (rule represents_frame[OF assms(1)]) (use assms(2) in \<open>auto simp: pool_ext_def\<close>)

text \<open>The strings of a tree fit into the fields of their nodes.\<close>

definition strings_fit :: "(string \<Rightarrow> string) \<Rightarrow> tree \<Rightarrow> bool" where
  "strings_fit cpy t \<longleftrightarrow> (\<forall>s \<in> set (tree_strings t). length (cpy s) \<le> 20)"

lemma strings_fit_node:
  "strings_fit cpy t \<longleftrightarrow> (\<forall>s \<in> set (node_strings t). length (cpy s) \<le> 20) \<and> (\<forall>c \<in> set (children t). strings_fit cpy c)"
  by (auto simp: strings_fit_def tree_strings.simps[of t])

lemma node_chars_fit: "length (node_chars (mk_node cpy t rs)) \<le> 20 \<longleftrightarrow> (\<forall>s \<in> set (node_strings t). length (cpy s) \<le> 20)"
  by (cases t) auto

text \<open>A computation that stores a tree in any pool with room for it; and computations one after another.\<close>

definition delivers :: "(string \<Rightarrow> string) \<Rightarrow> (ast_pool \<Rightarrow> (nat \<times> ast_pool) option) \<Rightarrow> tree \<Rightarrow> bool" where
  "delivers cpy m t \<longleftrightarrow>
     (strings_fit cpy t \<longrightarrow>
       (\<forall>p. fresh_pool p \<and> nodes t \<le> free_count p \<longrightarrow> (\<exists>r p'. m p = Some (r, p') \<and> built cpy p t r p')))"

lemma deliversI:
  "(\<And>p. strings_fit cpy t \<Longrightarrow> fresh_pool p \<Longrightarrow> nodes t \<le> free_count p \<Longrightarrow>
     \<exists>r p'. m p = Some (r, p') \<and> built cpy p t r p') \<Longrightarrow> delivers cpy m t"
  by (simp add: delivers_def)

lemma deliversE:
  assumes "delivers cpy m t" "strings_fit cpy t" "fresh_pool p" "nodes t \<le> free_count p"
  obtains r p' where "m p = Some (r, p')" "built cpy p t r p'"
  using assms by (auto simp: delivers_def)

fun in_order :: "(ast_pool \<Rightarrow> (nat \<times> ast_pool) option) list \<Rightarrow> ast_pool \<Rightarrow> (nat list \<times> ast_pool) option" where
  "in_order [] p = Some ([], p)"
| "in_order (m # ms) p = do { (r, p) \<leftarrow> m p; (rs, p) \<leftarrow> in_order ms p; Some (r # rs, p) }"

lemma in_order_delivers:
  assumes "list_all2 (delivers cpy) ms ts" "\<forall>t \<in> set ts. strings_fit cpy t" "fresh_pool p"
    "sum_list (map nodes ts) \<le> free_count p"
  shows "\<exists>rs p'. in_order ms p = Some (rs, p') \<and> pool_ext p p' \<and>
      list_all2 (represents cpy p' (new_slots p p')) rs ts \<and>
      free_count p = sum_list (map nodes ts) + free_count p'"
  using assms
proof (induction ms ts arbitrary: p rule: list_all2_induct)
  case Nil
  then show ?case by (simp add: pool_ext_def)
next
  case (Cons m ms t ts)
  have "strings_fit cpy t" "nodes t \<le> free_count p" using Cons.prems(1,3) by simp_all
  from deliversE[OF Cons.hyps(1) this(1) Cons.prems(2) this(2)] obtain r p1 where
    r: "m p = Some (r, p1)" "built cpy p t r p1" .
  then have e1: "pool_ext p p1" and c1: "free_count p = nodes t + free_count p1"
    by (auto simp: built_def)
  have "sum_list (map nodes ts) \<le> free_count p1" using c1 Cons.prems(3) by simp
  then obtain rs p2 where rs: "in_order ms p1 = Some (rs, p2)" "pool_ext p1 p2"
    "list_all2 (represents cpy p2 (new_slots p1 p2)) rs ts"
    "free_count p1 = sum_list (map nodes ts) + free_count p2"
    using Cons.IH[of p1] Cons.prems(1) pool_ext_fresh[OF e1] by auto
  have "list_all2 (represents cpy p2 (new_slots p p2)) rs ts"
    using rs(3) by (rule list.rel_mono_strong) (rule represents_later[OF _ e1])
  moreover have "represents cpy p2 (new_slots p p2) r t"
    using r(2) represents_ext[OF _ e1 rs(2)] by (simp add: built_def)
  moreover have "in_order (m # ms) p = Some (r # rs, p2)" using r(1) rs(1) by simp
  ultimately show ?case using pool_ext_trans[OF e1 rs(2)] c1 rs(4) by auto
qed

text \<open>A node whose children \<open>cs\<close> are stored in some order; \<open>g\<close> gives the order in which the node refers to them.\<close>

lemma delivers_node:
  assumes ms: "list_all2 (delivers cpy) ms cs"
    and g: "\<And>R rs. list_all2 R rs cs \<Longrightarrow> list_all2 R (g rs) (children t)"
    and sum: "sum_list (map nodes cs) = sum_list (map nodes (children t))" "set cs = set (children t)"
    and m: "\<And>p. m p = do {
      (elem, p) \<leftarrow> new_node init p (tag (mk_node cpy t [])); (rs, p) \<leftarrow> in_order ms p; store_node p elem (mk_node cpy t (g rs)) }"
  shows "delivers cpy m t"
proof (rule deliversI)
  fix p assume fit: "strings_fit cpy t" and p: "fresh_pool p" "nodes t \<le> free_count p"
  let ?k = "tag (mk_node cpy t [])"
  have fits: "\<forall>c \<in> set cs. strings_fit cpy c" "length (node_chars (mk_node cpy t (g rs))) \<le> 20" for rs
    using fit sum(2) by (simp_all add: strings_fit_node[of cpy t] node_chars_fit)
  have n: "nodes t = Suc (sum_list (map nodes cs))" using nodes.simps[of t] sum(1) by simp
  have pos: "0 < free_count p" using p(2) n by simp
  obtain r p1 where r: "new_node init p ?k = Some (r, p1)" "pool_ext p p1" "0 < r" "\<not> live p r" "live p1 r"
    "ref_get p1 r = Some (union_mark init union_new ?k)" "free_count p = Suc (free_count p1)"
    by (rule new_node_spec[OF p(1) pos])
  have le: "sum_list (map nodes cs) \<le> free_count p1" using n r(7) p(2) by simp
  from in_order_delivers[OF ms fits(1) pool_ext_fresh[OF r(2)] le] obtain rs p2 where
    rs: "in_order ms p1 = Some (rs, p2)" "pool_ext p1 p2" "list_all2 (represents cpy p2 (new_slots p1 p2)) rs cs"
    "free_count p1 = sum_list (map nodes cs) + free_count p2" by blast
  have r2: "live p2 r" "ref_get p2 r = Some (union_mark init union_new (tag (mk_node cpy t (g rs))))"
    using r(5,6) rs(2) by (simp_all add: pool_ext_def tag_mk_node[of cpy t "g rs"])
  obtain p3 where p3: "store_node p2 r (mk_node cpy t (g rs)) = Some (r, p3)" "fresh_pool p3"
    "\<And>q. live p3 q \<longleftrightarrow> live p2 q"
    "\<And>q. ref_get p3 q = (if q = r then Some (node_elem init (mk_node cpy t (g rs))) else ref_get p2 q)"
    "free_count p3 = free_count p2"
    using store_node_spec[OF pool_ext_fresh[OF rs(2)] r2 fits(2)] by blast
  have "m p = Some (r, p3)" unfolding m using r(1) rs(1) p3(1) by simp
  moreover have "pool_ext p p3" unfolding pool_ext_def
  proof (intro conjI allI impI)
    fix q assume q: "live p q"
    then have "q \<noteq> r" using r(4) by auto
    with q pool_ext_trans[OF r(2) rs(2)] show "live p3 q" "ref_get p3 q = ref_get p q"
      by (simp_all add: pool_ext_def p3(3,4))
  qed (rule p3(2))
  moreover have "represents cpy p3 (new_slots p p3) r t"
  proof (rule represents_node)
    have "list_all2 (represents cpy p3 (new_slots p p3)) rs cs"
      using rs(3)
    proof (rule list.rel_mono_strong)
      fix x c assume "represents cpy p2 (new_slots p1 p2) x c"
      then show "represents cpy p3 (new_slots p p3) x c"
      proof (rule represents_frame)
        fix q assume q: "q \<in> new_slots p1 p2"
        then have "q \<noteq> r" "\<not> live p q" using r(2,5) by (auto simp: pool_ext_def)
        with q p3(3,4) show "q \<in> new_slots p p3 \<and> ref_get p3 q = ref_get p2 q" by simp
      qed
    qed
    then show "list_all2 (represents cpy p3 (new_slots p p3)) (g rs) (children t)" by (rule g)
  qed (use r(3,4) r2 p3 in auto)
  ultimately show "\<exists>r p'. m p = Some (r, p') \<and> built cpy p t r p'" using n r(7) rs(4) p3(5) by (auto simp: built_def)
qed

lemma as_value_args_in_order: "as_value_args cpy ts p = in_order (map (as_value cpy) ts) p"
  by (induction ts arbitrary: p) simp_all

lemma as_value_delivers: "tree_wf t \<Longrightarrow> delivers cpy (as_value cpy t) t"
proof (induction t rule: tree_induct_children)
  case (node t)
  then have "list_all2 (delivers cpy) (map (as_value cpy) (children t)) (children t)"
    by (auto simp: tree_wf.simps[of t] list_all2_conv_all_nth)
  moreover have "node_wf t" using node.prems by (simp add: tree_wf.simps[of t])
  ultimately show ?case
    by (intro delivers_node[where g = "\<lambda>rs. rs" and init = True]) (simp_all add: as_value_generic as_value_args_in_order)
qed

lemma as_value_builds:
  "tree_wf t \<Longrightarrow> strings_fit cpy t \<Longrightarrow> fresh_pool p \<Longrightarrow> nodes t \<le> free_count p \<Longrightarrow>
   \<exists>r p'. as_value cpy t p = Some (r, p') \<and> built cpy p t r p'"
  using as_value_delivers by (simp add: delivers_def)


section \<open>The memory a conversion needs\<close>

lemma new_node_count: "new_node init p k = Some (r, p') \<Longrightarrow> free_count p = Suc (free_count p')"
  by (auto simp: new_node_def bind_Some_iff dest!: allocate_free_count ref_set_free_count)

lemma store_node_count: "store_node p r n = Some (q, p') \<Longrightarrow> free_count p' = free_count p"
  by (auto simp: store_node_def bind_Some_iff dest!: ref_set_free_count split: if_splits)

lemma store_node_fits: "store_node p r n = Some (q, p') \<Longrightarrow> length (node_chars n) \<le> 20"
  by (simp add: store_node_def split: if_splits)

lemma as_value_args_count:
  assumes "\<And>t p r p'. t \<in> set ts \<Longrightarrow> as_value cpy t p = Some (r, p') \<Longrightarrow>
      tree_wf t \<and> strings_fit cpy t \<and> free_count p = nodes t + free_count p'"
    and "as_value_args cpy ts p = Some (rs, p')"
  shows "(\<forall>t \<in> set ts. tree_wf t \<and> strings_fit cpy t) \<and> free_count p = sum_list (map nodes ts) + free_count p'"
  using assms
proof (induction ts arbitrary: p rs)
  case (Cons t ts)
  from Cons.prems(2) obtain r p1 rs' where
    t: "as_value cpy t p = Some (r, p1)" and ts: "as_value_args cpy ts p1 = Some (rs', p')"
    by (auto simp: bind_Some_iff)
  have "tree_wf t \<and> strings_fit cpy t \<and> free_count p = nodes t + free_count p1"
    using t by (intro Cons.prems(1)) simp_all
  moreover have "(\<forall>t \<in> set ts. tree_wf t \<and> strings_fit cpy t) \<and> free_count p1 = sum_list (map nodes ts) + free_count p'"
    using ts by (intro Cons.IH[of p1 rs'] Cons.prems(1)) simp_all
  ultimately show ?case by simp
qed simp

lemma as_value_count:
  "as_value cpy t p = Some (r, p') \<Longrightarrow> tree_wf t \<and> strings_fit cpy t \<and> free_count p = nodes t + free_count p'"
proof (induction t arbitrary: p r p' rule: tree_induct_children)
  case (node t)
  have wf: "node_wf t" using as_value_node_wf[OF node.prems] .
  from node.prems[unfolded as_value_generic[OF wf]] obtain r1 p1 rs p2 where
    s: "new_node True p (tag (mk_node cpy t [])) = Some (r1, p1)"
       "as_value_args cpy (children t) p1 = Some (rs, p2)"
       "store_node p2 r1 (mk_node cpy t rs) = Some (r, p')"
    by (auto simp: bind_Some_iff)
  have "(\<forall>c \<in> set (children t). tree_wf c \<and> strings_fit cpy c) \<and>
      free_count p1 = sum_list (map nodes (children t)) + free_count p2"
    by (rule as_value_args_count[OF _ s(2)]) (rule node.IH)
  then show ?case
    using wf new_node_count[OF s(1)] store_node_count[OF s(3)] store_node_fits[OF s(3)]
    by (simp add: tree_wf.simps[of t] nodes.simps[of t] strings_fit_node[of cpy t] node_chars_fit)
qed

lemma as_value_succeeds_iff:
  assumes "fresh_pool p"
  shows "as_value cpy t p \<noteq> None \<longleftrightarrow> tree_wf t \<and> strings_fit cpy t \<and> nodes t \<le> free_count p"
proof
  assume "as_value cpy t p \<noteq> None"
  then obtain r p' where "as_value cpy t p = Some (r, p')" by auto
  then show "tree_wf t \<and> strings_fit cpy t \<and> nodes t \<le> free_count p" using as_value_count by fastforce
next
  assume "tree_wf t \<and> strings_fit cpy t \<and> nodes t \<le> free_count p"
  then show "as_value cpy t p \<noteq> None" using as_value_builds[of t cpy p] assms by auto
qed

section \<open>Reading back\<close>

lemma find_update:
  "k < length xs \<Longrightarrow> P v \<Longrightarrow> \<forall>x \<in> set xs. \<not> P x \<Longrightarrow> List.find P (xs[k := v]) = Some v"
proof (induction xs arbitrary: k)
  case (Cons x xs)
  then show ?case by (cases k) auto
qed auto

lemma union_first_node [simp]: "union_first (node_elem init n) = Some n"
proof -
  have "\<forall>e \<in> set (elems union_new). \<not> is_this_elem e" by (auto simp: union_new_def)
  then have "List.find is_this_elem ((elems union_new)[tag n := \<lparr>t_of = n, is_this_elem = True\<rparr>])
      = Some \<lparr>t_of = n, is_this_elem = True\<rparr>"
    by (intro find_update) auto
  then show ?thesis by (simp add: union_first_def node_elem_def)
qed

lemma union_first_move [simp]: "union_first (union_move u) = union_first u"
  by (simp add: union_first_def union_move_def)

lemma union_get_node: "union_get (node_elem init n) (tag n) = Some n"
  by (simp add: union_get_def node_elem_def)

lemma as_type_move: "as_type trim b (pool_move union_move p) r = as_type trim b p r"
proof (induction b arbitrary: r)
  case (Suc b)
  have f: "as_type trim b (pool_move union_move p) = as_type trim b p" using Suc by (rule ext)
  show ?case by (cases "ref_get p r") (simp_all only: as_type.simps ref_get_move f option.map
      bind.simps union_first_move)
qed simp

lemma takeWhile_refs: "list_all (\<lambda>r. 0 < r) rs \<Longrightarrow>
    takeWhile (\<lambda>i. i > 0) (rs @ replicate n (0::nat)) = rs"
  by (cases n) (auto simp: takeWhile_append2 list_all_iff takeWhile_tail)

lemma as_type_node:
  assumes "ref_get p r = Some (node_elem init (mk_node cpy t rs))" "node_wf t" "b < 10000"
    "length rs = length (children t)" "list_all (\<lambda>r. 0 < r) rs"
    "map (as_type trim b p) rs = map Some (children t)"
    "\<And>s. s \<in> set (node_strings t) \<Longrightarrow> trim (cpy s) = s"
  shows "as_type trim (Suc b) p r = Some t"
  using assms
  by (cases t) (auto simp: length_Suc_conv takeWhile_refs as_type_exprs_def as_type_varrefs_def)


lemma fold_max_le: "fold max xs (m::nat) \<le> b \<longleftrightarrow> m \<le> b \<and> (\<forall>x \<in> set xs. x \<le> b)"
  by (induction xs arbitrary: m) auto

lemma represents_pos: "list_all2 (represents cpy p X) rs ts \<Longrightarrow> list_all (\<lambda>r. 0 < r) rs"
  by (auto simp: list_all2_conv_all_nth list_all_length elim: representsE)

lemma as_type_represents:
  "tree_wf t \<Longrightarrow> represents cpy p X r t \<Longrightarrow> tree_height t \<le> b \<Longrightarrow> b \<le> 10000 \<Longrightarrow>
   (\<And>s. s \<in> set (tree_strings t) \<Longrightarrow> trim (cpy s) = s) \<Longrightarrow> as_type trim b p r = Some t"
proof (induction t arbitrary: r b rule: tree_induct_children)
  case (node t)
  obtain init rs where rs: "ref_get p r = Some (node_elem init (mk_node cpy t rs))"
    "list_all2 (represents cpy p X) rs (children t)" using node.prems(2) by (auto elim: representsE)
  obtain b' where b: "b = Suc b'" and h: "\<And>c. c \<in> set (children t) \<Longrightarrow> tree_height c \<le> b'"
    using node.prems(3) by (cases b) (auto simp: tree_height.simps[of t] fold_max_le)
  have wf: "node_wf t" "\<And>c. c \<in> set (children t) \<Longrightarrow> tree_wf c"
    using node.prems(1) by (simp_all add: tree_wf.simps[of t])
  have str: "trim (cpy s) = s" if "s \<in> set (node_strings t) \<or> (\<exists>c \<in> set (children t). s \<in> set (tree_strings c))" for s
    using node.prems(5)[of s] that by (auto simp: tree_strings.simps[of t])
  have "map (as_type trim b' p) rs = map Some (children t)"
  proof (rule nth_equalityI)
    fix i assume "i < length (map (as_type trim b' p) rs)"
    then have i: "i < length rs" "children t ! i \<in> set (children t)"
      "represents cpy p X (rs ! i) (children t ! i)"
      using rs(2) by (auto simp: list_all2_conv_all_nth)
    have "as_type trim b' p (rs ! i) = Some (children t ! i)"
      using i b node.prems(4) by (intro node.IH[OF i(2) wf(2)[OF i(2)] i(3) h[OF i(2)]] str) auto
    then show "map (as_type trim b' p) rs ! i = map Some (children t) ! i"
      using i(1) rs(2) by (simp add: list_all2_lengthD)
  qed (use rs(2) in \<open>simp add: list_all2_lengthD\<close>)
  then show ?case unfolding b
    using rs wf(1) b node.prems(4) list_all2_lengthD[OF rs(2)] represents_pos[OF rs(2)] str
    by (intro as_type_node[OF rs(1)]) auto
qed

lemma as_type_of_as_value:
  assumes "as_value cpy t p = Some (r, p')" "fresh_pool p" "tree_height t \<le> b" "b \<le> 10000"
    "\<And>s. s \<in> set (tree_strings t) \<Longrightarrow> trim (cpy s) = s"
  shows "as_type trim b p' r = Some t"
proof -
  have wf: "tree_wf t" "strings_fit cpy t" "nodes t \<le> free_count p" using as_value_count[OF assms(1)] by auto
  then have "represents cpy p' (new_slots p p') r t"
    using as_value_builds[of t cpy p] assms(1,2) by (auto simp: built_def)
  then show ?thesis using as_type_represents wf(1) assms(3-5) by blast
qed


section \<open>Properties\<close>

lemma pool_new_zero: "as_value cpy t (pool_new 0 x) = None"
proof (rule ccontr)
  assume "as_value cpy t (pool_new 0 x) \<noteq> None"
  then obtain r p' where "as_value cpy t (pool_new 0 x) = Some (r, p')" by auto
  then show False using as_value_count[of cpy t "pool_new 0 x" r p']
    by (simp add: pool_new_free_count nodes.simps[of t])
qed

lemma as_value_new_iff:
  "as_value cpy t (pool_new budget union_new) \<noteq> None \<longleftrightarrow> tree_wf t \<and> strings_fit cpy t \<and> nodes t \<le> budget"
proof (cases budget)
  case 0
  then show ?thesis by (simp add: pool_new_zero nodes.simps[of t])
next
  case (Suc n)
  then show ?thesis
    using as_value_succeeds_iff[OF fresh_pool_new[of n], of cpy t] by (simp add: pool_new_free_count)
qed

lemma represents_root:
  "represents cpy p X r (T_transaction e pl) \<Longrightarrow>
   \<exists>x init. ref_get p r = Some (node_elem init (N_transaction x pl)) \<and> represents cpy p X x e"
  by (erule representsE) (auto simp: list_all2_Cons2)

lemma as_value_top_Some:
  assumes "as_value cpy (T_transaction e pl) (pool_new budget union_new) = Some (r, p)"
  obtains x X where "as_value_top cpy budget (T_transaction e pl) =
      Some \<lparr>elem_pool = pool_move union_move p, top_e = x, top_payload = pl\<rparr>"
    "represents cpy p X x e" "tree_wf e"
proof -
  let ?t = "T_transaction e pl"
  obtain n where n: "budget = Suc n" using assms by (cases budget) (auto simp: pool_new_zero)
  have c: "tree_wf ?t" "strings_fit cpy ?t" "nodes ?t \<le> free_count (pool_new budget union_new)"
    using as_value_count[OF assms] by simp_all
  have "represents cpy p (new_slots (pool_new budget union_new) p) r ?t"
    using as_value_builds[of ?t cpy "pool_new budget union_new"] c fresh_pool_new[of n] n assms
    by (auto simp: built_def)
  then obtain x init where x: "ref_get p r = Some (node_elem init (N_transaction x pl))"
    "represents cpy p (new_slots (pool_new budget union_new) p) x e" by (auto dest: represents_root)
  have "as_value_top cpy budget ?t = Some \<lparr>elem_pool = pool_move union_move p, top_e = x, top_payload = pl\<rparr>"
    using assms x(1) union_get_node[of init "N_transaction x pl"] by (simp add: as_value_top_def)
  then show ?thesis using x(2) c(1) that by (simp add: tree_wf.simps[of ?t])
qed

lemma as_value_top_defined:
  assumes "is_astnode_transaction t" "tree_wf t" "strings_fit cpy t" "nodes t \<le> budget"
  shows "\<exists>a. as_value_top cpy budget t = Some a"
proof -
  obtain e pl where t: "t = T_transaction e pl" using assms(1) by (cases t) auto
  obtain r p where "as_value cpy t (pool_new budget union_new) = Some (r, p)"
    using as_value_new_iff[of cpy t budget] assms(2-4) by auto
  then show ?thesis using as_value_top_Some[of cpy e pl budget r p] t by blast
qed

text \<open>
  C20: converting a tree of types into a pool of \<open>budget\<close> nodes compiles exactly when
  the tree is a transaction, all its nodes are well-formed (bindings bind expressions, at most
  twenty arguments), what \<open>str_cpy\<close> writes of each name fits into its \<open>char[20]\<close>, and it has at most
  \<open>budget\<close> nodes: the allocator neither runs out early nor hands out a slot twice.
\<close>

theorem as_value_top_succeeds_iff:
  "as_value_top cpy budget t \<noteq> None \<longleftrightarrow>
   is_astnode_transaction t \<and> tree_wf t \<and> strings_fit cpy t \<and> nodes t \<le> budget"
proof
  assume a: "as_value_top cpy budget t \<noteq> None"
  then have "as_value cpy t (pool_new budget union_new) \<noteq> None" "is_astnode_transaction t"
    by (cases "as_value cpy t (pool_new budget union_new)"; simp add: as_value_top_def split: if_splits)+
  then show "is_astnode_transaction t \<and> tree_wf t \<and> strings_fit cpy t \<and> nodes t \<le> budget"
    using as_value_new_iff by blast
next
  assume "is_astnode_transaction t \<and> tree_wf t \<and> strings_fit cpy t \<and> nodes t \<le> budget"
  then show "as_value_top cpy budget t \<noteq> None" using as_value_top_defined[of t cpy budget] by auto
qed

text \<open>
  C12: the pool form of a transaction, as \<open>as_value\<close> builds it and
  its caller receives it, reads back as the same type under \<open>as_type\<close>, which has a budget of
  1000 levels, provided \<open>trim_ends\<close> recovers each string of the tree from the \<open>char[20]\<close> that
  \<open>str_cpy\<close> filled.
\<close>

theorem as_type_as_value_roundtrip:
  assumes "as_value_top cpy budget t = Some a"
    and "tree_height t \<le> 1001"
    and "\<forall>s \<in> set (tree_strings t). trim (cpy s) = s"
  shows "as_type_top trim a = Some t"
proof -
  obtain e pl where t: "t = T_transaction e pl"
    using assms(1) by (cases t) (auto simp: as_value_top_def)
  have "as_value cpy t (pool_new budget union_new) \<noteq> None"
    using assms(1) by (cases "as_value cpy t (pool_new budget union_new)")
      (auto simp: as_value_top_def split: if_splits)
  then obtain r p where rp: "as_value cpy (T_transaction e pl) (pool_new budget union_new) = Some (r, p)"
    using t by auto
  have h: "tree_height e \<le> 1000" using assms(2) t by (simp add: tree_height.simps[of "T_transaction e pl"])
  have s: "\<And>s. s \<in> set (tree_strings e) \<Longrightarrow> trim (cpy s) = s"
    using assms(3) t by (simp add: tree_strings.simps[of "T_transaction e pl"])
  show ?thesis
  proof (rule as_value_top_Some[OF rp])
    fix x X assume x: "as_value_top cpy budget (T_transaction e pl) =
        Some \<lparr>elem_pool = pool_move union_move p, top_e = x, top_payload = pl\<rparr>"
      "represents cpy p X x e" "tree_wf e"
    have "as_type trim 1000 p x = Some e" using as_type_represents[OF x(3,2) h _ s] by simp
    moreover have "a = \<lparr>elem_pool = pool_move union_move p, top_e = x, top_payload = pl\<rparr>"
      using x(1) assms(1) t by simp
    ultimately show ?thesis using t by (simp add: as_type_top_def as_type_move)
  qed
qed

text \<open>A concrete copy and trim: pad with null characters, and cut at the first one.\<close>

definition pad20 :: "string \<Rightarrow> string" where
  "pad20 s = s @ replicate (20 - length s) (CHR 0x00)"

definition cut0 :: "string \<Rightarrow> string" where
  "cut0 s = takeWhile (\<lambda>c. c \<noteq> CHR 0x00) s"

definition sample_tree :: tree where
  "sample_tree = T_transaction
     (T_Let (T_Binding ''x'' (T_BinOp (CHR ''+'') (T_Constant 1) (T_Constant 2)))
        (T_Sequence (T_Return (T_VarReference ''x'')) T_Skip)) 7"

theorem as_type_as_value_roundtrip_witness:
  "\<exists>a. as_value_top pad20 12 sample_tree = Some a \<and> as_type_top cut0 a = Some sample_tree"
proof -
  have n: "nodes sample_tree \<le> 12" "tree_wf sample_tree" "tree_height sample_tree \<le> 1001"
    "strings_fit pad20 sample_tree" "\<forall>s \<in> set (tree_strings sample_tree). cut0 (pad20 s) = s" "is_astnode_transaction sample_tree"
    by (simp_all add: sample_tree_def nodes.simps tree_wf_alt tree_height.simps tree_strings.simps
        strings_fit_def cut0_def pad20_def del: replicate_Suc)
  obtain a where a: "as_value_top pad20 12 sample_tree = Some a"
    using as_value_top_defined[OF n(6,2,4,1)] by blast
  show ?thesis using a as_type_as_value_roundtrip[of pad20 12 sample_tree a cut0, OF a n(3,5)] by blast
qed



lemma which_from_update:
  "k < length es \<Longrightarrow> is_this_elem v \<Longrightarrow> \<forall>e \<in> set es. \<not> is_this_elem e \<Longrightarrow> which_from (es[k := v]) = k"
proof (induction es arbitrary: k)
  case (Cons e es)
  then show ?case by (cases k) auto
qed simp

lemma filter_update_one:
  "k < length es \<Longrightarrow> P v \<Longrightarrow> \<forall>e \<in> set es. \<not> P e \<Longrightarrow> filter P (es[k := v]) = [v]"
proof (induction es arbitrary: k)
  case (Cons e es)
  then show ?case by (cases k) (auto simp: filter_empty_conv)
qed simp

text \<open>
  C29: assigning an alternative to a union, whatever it held before, leaves
  exactly that alternative flagged, so that \<open>which\<close> and \<open>get\<close> agree on it.
\<close>

theorem union_assign_one:
  assumes "length (elems u) = 22"
  shows "union_well_formed (union_assign u n) \<and> which (union_assign u n) = tag n \<and>
    union_get (union_assign u n) (tag n) = Some n \<and> union_first (union_assign u n) = Some n"
proof -
  let ?es = "map (\<lambda>e. e\<lparr>is_this_elem := False\<rparr>) (elems u)" and ?v = "\<lparr>t_of = n, is_this_elem = True\<rparr>"
  have es: "tag n < length ?es" "is_this_elem ?v" "\<forall>e \<in> set ?es. \<not> is_this_elem e"
    using assms by auto
  show ?thesis
    using filter_update_one[OF es] which_from_update[OF es] find_update[OF es] es(1)
    by (simp add: union_well_formed_def union_assign_def which_def union_get_def union_first_def)
qed

theorem union_assign_one_witness:
  "which (union_assign (union_assign union_new (N_Constant 4)) N_Skip) = 20"
  using union_assign_one[of "union_assign union_new (N_Constant 4)" N_Skip]
  by (simp add: union_assign_def)

text \<open>
  A union that has been moved from one place to another is
  never \<open>well_formed\<close>: neither the move constructor nor the copy assignment carries
  \<open>is_initialized\<close>, although the alternative and its flag arrive.
\<close>

theorem union_move_loses_initialized:
  "\<not> union_well_formed (union_move u) \<and> union_first (union_move u) = union_first u"
  by (simp add: union_well_formed_def union_move_def union_first_def)

end
