(* ===== verification/OldAst.thy ===== *)
theory OldAst
  imports Ast
begin

text \<open>
  The syntax tree of the compiler proper, \<open>transactions/mtl/AST_parse.hpp\<close> (\<open>parse_phase\<close>),
  and the conversion from the parser's tree to it,
  \<open>transactions/mtl/new-parsing/to-old-ast-parse.hpp\<close>.

  A type of \<open>parse_phase\<close> is complete only for the arguments its partial specialisations
  allow: fields of expressions, bodies that are statements, nine binary operators, variables as
  the variable arguments of an operation.  The datatypes below hold the complete types; a
  conversion that would name an incomplete one is \<^term>\<open>None\<close>.
\<close>

datatype expr =
    E_FieldReference expr name
  | E_FieldPointerReference expr name
  | E_Dereference expr
  | E_Endorse name expr
  | E_Ensure name expr
  | E_IsValid expr
  | E_VarReference name
  | E_Constant nat
  | E_BinOp char expr expr
  | E_Operation name expr "expr list" "name list"

datatype stmt =
    S_Let name expr stmt
  | S_LetRemote name expr stmt
  | S_Operation name expr "expr list" "name list"
  | S_Assignment expr expr
  | S_Return expr
  | S_If expr stmt stmt
  | S_While expr stmt
  | S_Sequence "stmt list"

fun is_var_reference :: "expr \<Rightarrow> bool" where
  "is_var_reference (E_VarReference v) = True"
| "is_var_reference _ = False"

fun is_constant :: "expr \<Rightarrow> bool" where
  "is_constant (E_Constant i) = True"
| "is_constant _ = False"

text \<open>The operators for which \<open>BinOp\<close> has a specialisation.\<close>

definition binops :: string where
  "binops = ''+*-/&|<>=''"

text \<open>
  \<open>is_depth_1\<close>.  Its clause for fields expects a bare \<open>VarReference\<close>, where the tree has an
  \<open>Expression<VarReference>\<close>, so it never applies.
\<close>

fun is_depth_1 :: "expr \<Rightarrow> bool" where
  "is_depth_1 (E_VarReference v) = True"
| "is_depth_1 (E_BinOp op l r) = (is_var_reference l \<and> is_var_reference r)"
| "is_depth_1 (E_Constant i) = True"
| "is_depth_1 _ = False"

text \<open>\<open>contains_fieldpointer_ref\<close>, incomplete for the other expressions.\<close>

fun contains_fieldpointer_ref :: "expr \<Rightarrow> bool option" where
  "contains_fieldpointer_ref (E_VarReference v) = Some False"
| "contains_fieldpointer_ref (E_FieldReference (E_Dereference t) f) = Some True"
| "contains_fieldpointer_ref (E_FieldReference t f) = contains_fieldpointer_ref t"
| "contains_fieldpointer_ref (E_FieldPointerReference t f) = Some True"
| "contains_fieldpointer_ref _ = None"

section \<open>Conversion\<close>

fun var_name :: "expr \<Rightarrow> name option" where
  "var_name (E_VarReference v) = Some v"
| "var_name _ = None"

text \<open>
  Expressions.  \<open>Constant<p>\<close> narrows a \<open>size_t\<close> template argument to \<open>int\<close>, which is an
  error unless the value fits.
\<close>

fun convert_expr :: "tree \<Rightarrow> expr option" and convert_exprs :: "tree list \<Rightarrow> expr list option" where
  "convert_expr (T_FieldReference s f) = do { s' \<leftarrow> convert_expr s; Some (E_FieldReference s' f) }"
| "convert_expr (T_FieldPointerReference s f) =
     do { s' \<leftarrow> convert_expr s; Some (E_FieldPointerReference s' f) }"
| "convert_expr (T_Dereference s) = do { s' \<leftarrow> convert_expr s; Some (E_Dereference s') }"
| "convert_expr (T_Ensure l h) = do { h' \<leftarrow> convert_expr h; Some (E_Ensure l h') }"
| "convert_expr (T_Endorse l h) = do { h' \<leftarrow> convert_expr h; Some (E_Endorse l h') }"
| "convert_expr (T_IsValid h) = do { h' \<leftarrow> convert_expr h; Some (E_IsValid h') }"
| "convert_expr (T_VarReference v) = Some (E_VarReference v)"
| "convert_expr (T_Constant i) = (if int i < 2 ^ 31 then Some (E_Constant i) else None)"
| "convert_expr (T_BinOp op l r) = do {
     l' \<leftarrow> convert_expr l; r' \<leftarrow> convert_expr r;
     if op \<in> set binops then Some (E_BinOp op l' r') else None }"
| "convert_expr (T_Operation is_statement n h eargs vargs) = (if is_statement then None else
     (case eargs of T_args_exprs es \<Rightarrow> (case vargs of T_args_varrefs vs \<Rightarrow> do {
        h' \<leftarrow> convert_expr h; es' \<leftarrow> convert_exprs es;
        vs' \<leftarrow> convert_exprs vs; vs'' \<leftarrow> those (map var_name vs');
        Some (E_Operation n h' es' vs'') } | _ \<Rightarrow> None) | _ \<Rightarrow> None))"
| "convert_expr _ = None"
| "convert_exprs [] = Some []"
| "convert_exprs (t # ts) = do { e \<leftarrow> convert_expr t; es \<leftarrow> convert_exprs ts; Some (e # es) }"

text \<open>
  Statements.  A \<open>Sequence\<close> whose tail is a \<open>Sequence\<close> is prepended to it, one whose tail is
  \<open>Skip\<close> drops it, and every other tail is a second element.
\<close>

fun convert_stmt :: "tree \<Rightarrow> stmt option" where
  "convert_stmt (T_transaction e pl) = convert_stmt e"
| "convert_stmt (T_Let binding body) = (case binding of T_Binding v rhs \<Rightarrow> do {
     e \<leftarrow> convert_expr rhs; b \<leftarrow> convert_stmt body; Some (S_Let v e b) } | _ \<Rightarrow> None)"
| "convert_stmt (T_LetRemote binding body) = (case binding of T_Binding v rhs \<Rightarrow> do {
     e \<leftarrow> convert_expr rhs; b \<leftarrow> convert_stmt body; Some (S_LetRemote v e b) } | _ \<Rightarrow> None)"
| "convert_stmt (T_Operation is_statement n h eargs vargs) = (if \<not> is_statement then None else
     (case eargs of T_args_exprs es \<Rightarrow> (case vargs of T_args_varrefs vs \<Rightarrow> do {
        h' \<leftarrow> convert_expr h; es' \<leftarrow> convert_exprs es;
        vs' \<leftarrow> convert_exprs vs; vs'' \<leftarrow> those (map var_name vs');
        Some (S_Operation n h' es' vs'') } | _ \<Rightarrow> None) | _ \<Rightarrow> None))"
| "convert_stmt (T_Assignment l r) = do {
     l' \<leftarrow> convert_expr l; r' \<leftarrow> convert_expr r; Some (S_Assignment l' r') }"
| "convert_stmt (T_Return e) = do { e' \<leftarrow> convert_expr e; Some (S_Return e') }"
| "convert_stmt (T_If c t e) = do {
     c' \<leftarrow> convert_expr c; t' \<leftarrow> convert_stmt t; e' \<leftarrow> convert_stmt e; Some (S_If c' t' e') }"
| "convert_stmt (T_While c b) = do {
     c' \<leftarrow> convert_expr c; b' \<leftarrow> convert_stmt b; Some (S_While c' b') }"
| "convert_stmt (T_Sequence e n) = do {
     e' \<leftarrow> convert_stmt e;
     if is_astnode_Sequence n then do {
       n' \<leftarrow> convert_stmt n;
       (case n' of S_Sequence ss \<Rightarrow> Some (S_Sequence (e' # ss)) | _ \<Rightarrow> None) }
     else if is_astnode_Skip n then Some (S_Sequence [e'])
     else do { n' \<leftarrow> convert_stmt n; Some (S_Sequence [e', n']) } }"
| "convert_stmt T_Skip = Some (S_Sequence [])"
| "convert_stmt _ = None"

definition convert_to_old_parsed :: "tree \<Rightarrow> stmt option" where
  "convert_to_old_parsed t = convert_stmt t"

section \<open>What the conversion does to sequences\<close>

text \<open>The statements of a right-nested sequence, without the \<open>Skip\<close> at its end.\<close>

fun seq_elems :: "tree \<Rightarrow> tree list" where
  "seq_elems (T_Sequence e n) = e # seq_elems n"
| "seq_elems T_Skip = []"
| "seq_elems t = [t]"

lemma seq_elems_other: "\<not> is_astnode_Sequence t \<Longrightarrow> \<not> is_astnode_Skip t \<Longrightarrow> seq_elems t = [t]"
  by (cases t) auto

lemma convert_seq_elems:
  "is_astnode_Sequence t \<Longrightarrow>
   convert_stmt t = map_option S_Sequence (those (map convert_stmt (seq_elems t)))"
proof (induction t)
  case (T_Sequence e n)
  show ?case
  proof (cases "is_astnode_Sequence n")
    case True
    then show ?thesis using T_Sequence.IH(2)
      by (cases "convert_stmt e"; cases "those (map convert_stmt (seq_elems n))") simp_all
  next
    case False
    show ?thesis
    proof (cases "is_astnode_Skip n")
      case True
      then have "n = T_Skip" by (cases n) auto
      then show ?thesis by (cases "convert_stmt e") simp_all
    next
      case False': False
      then show ?thesis using False seq_elems_other[of n]
        by (cases "convert_stmt e"; cases "convert_stmt n") simp_all
    qed
  qed
qed auto

text \<open>
  C27: a right-nested parser sequence becomes one flat sequence of its
  statements in program order, without the trailing \<open>Skip\<close>, and it converts exactly when
  each of its statements does.
\<close>

theorem convert_sequence_flattens:
  "convert_to_old_parsed (T_Sequence e n) =
   map_option S_Sequence (those (map convert_to_old_parsed (e # seq_elems n)))"
proof -
  have "convert_to_old_parsed = convert_stmt" by (simp add: fun_eq_iff convert_to_old_parsed_def)
  then show ?thesis using convert_seq_elems[of "T_Sequence e n"] by simp
qed

end
