(* ===== verification/Flatten.thy ===== *)
theory Flatten
  imports OldAst
begin

text \<open>
  The A-normalisation of \<open>transactions/mtl/flatten_expressions.hpp\<close>: \<open>desugar_while\<close> names the
  condition of every loop, and \<open>flatten_exprs\<close> binds every compound subexpression to a fresh
  variable, one layer at a time.

  The template template parameter \<open>SubStatement\<close> is a function from expressions to statements.
  \<open>seqnum\<close> and \<open>depth\<close> are template parameters of type \<open>char\<close>: an argument above 127 is a
  narrowing conversion, which does not compile.
\<close>

definition depth_limit :: nat where
  "depth_limit = 1000"

definition fits_char :: "nat \<Rightarrow> bool" where
  "fits_char n \<longleftrightarrow> n \<le> 127"

definition generate_name :: "nat \<Rightarrow> nat \<Rightarrow> name" where
  "generate_name seqnum depth = ''anorm'' @ [char_of seqnum, char_of depth]"

definition remote_name :: "nat \<Rightarrow> nat \<Rightarrow> name" where
  "remote_name seqnum depth = ''remote_bound_tmp'' @ [CHR 0x00, char_of seqnum, char_of depth]"

definition while_name :: "nat \<Rightarrow> nat \<Rightarrow> name" where
  "while_name seqnum depth = ''while'' @ [char_of seqnum, char_of depth]"

section \<open>Removing one layer\<close>

text \<open>The overloads that bind an expression whose operands are variables.\<close>

definition bind_layer :: "nat \<Rightarrow> nat \<Rightarrow> (expr \<Rightarrow> stmt) \<Rightarrow> expr \<Rightarrow> stmt option" where
  "bind_layer s d SubStatement e =
     Some (S_Let (generate_name s d) e (SubStatement (E_VarReference (generate_name s d))))"

fun layer_size :: "expr \<Rightarrow> nat" where
  "layer_size (E_FieldReference e f) = Suc (layer_size e)"
| "layer_size (E_FieldPointerReference e f) = 3 + layer_size e"
| "layer_size (E_Dereference e) = Suc (layer_size e)"
| "layer_size (E_Endorse l e) = Suc (layer_size e)"
| "layer_size (E_Ensure l e) = Suc (layer_size e)"
| "layer_size (E_IsValid e) = Suc (layer_size e)"
| "layer_size (E_VarReference v) = 1"
| "layer_size (E_Constant i) = 1"
| "layer_size (E_BinOp op l r) = Suc (layer_size l + layer_size r)"
| "layer_size (E_Operation n h es vs) = Suc (layer_size h + sum_list (map layer_size es))"

function remove_layer :: "nat \<Rightarrow> nat \<Rightarrow> (expr \<Rightarrow> stmt) \<Rightarrow> expr \<Rightarrow> stmt option" where
  "remove_layer s d K (E_FieldReference e f) =
     (if is_var_reference e then bind_layer s d K (E_FieldReference e f)
      else remove_layer s d (\<lambda>n. K (E_FieldReference n f)) e)"
| "remove_layer s d K (E_FieldPointerReference e f) =
     remove_layer s d K (E_FieldReference (E_Dereference e) f)"
| "remove_layer s d K (E_Dereference e) =
     (if is_var_reference e
      then Some (S_LetRemote (remote_name s d) e (K (E_VarReference (remote_name s d))))
      else remove_layer s d (\<lambda>n. K (E_Dereference n)) e)"
| "remove_layer s d K (E_IsValid e) =
     (if is_var_reference e then bind_layer s d K (E_IsValid e)
      else remove_layer s d (\<lambda>n. K (E_IsValid n)) e)"
| "remove_layer s d K (E_Endorse l e) =
     (if is_var_reference e then bind_layer s d K (E_Endorse l e)
      else remove_layer s d (\<lambda>n. K (E_Endorse l n)) e)"
| "remove_layer s d K (E_Ensure l e) =
     (if is_var_reference e then bind_layer s d K (E_Ensure l e)
      else remove_layer s d (\<lambda>n. K (E_Ensure l n)) e)"
| "remove_layer s d K (E_VarReference v) = None"
| "remove_layer s d K (E_Constant i) = bind_layer s d K (E_Constant i)"
| "remove_layer s d K (E_BinOp op l r) =
     (if is_var_reference l \<and> is_var_reference r then bind_layer s d K (E_BinOp op l r)
      else if is_var_reference l then remove_layer s d (\<lambda>n. K (E_BinOp op l n)) r
      else remove_layer s d (\<lambda>n. K (E_BinOp op n r)) l)"
| "remove_layer s d K (E_Operation n h es vs) =
     (if is_var_reference h then
        (case es of
           [] \<Rightarrow> bind_layer s d K (E_Operation n h es vs)
         | e1 # rest \<Rightarrow>
             (case var_name e1 of
                Some v \<Rightarrow> remove_layer s d K (E_Operation n h rest (vs @ [v]))
              | None \<Rightarrow> remove_layer s d (\<lambda>e. K (E_Operation n h (e # rest) vs)) e1))
      else remove_layer s d (\<lambda>e. K (E_Operation n e es vs)) h)"
  by pat_completeness auto
termination
  by (relation "measure (\<lambda>(s, d, K, e). layer_size e)") (auto elim: var_name.elims)

declare remove_layer.simps [simp del]

section \<open>Flattening statements\<close>

text \<open>The right-hand sides that a \<open>Let\<close> may keep: one overload of \<open>_flatten_exprs\<close> each.\<close>

fun flat_rhs :: "expr \<Rightarrow> bool" where
  "flat_rhs (E_VarReference v) = True"
| "flat_rhs (E_Constant i) = True"
| "flat_rhs (E_BinOp op l r) = (is_var_reference l \<and> is_var_reference r)"
| "flat_rhs (E_FieldReference e f) = (is_var_reference e \<or> is_constant e)"
| "flat_rhs (E_IsValid e) = is_var_reference e"
| "flat_rhs (E_Endorse l e) = is_var_reference e"
| "flat_rhs (E_Ensure l e) = is_var_reference e"
| "flat_rhs (E_Operation n h es vs) = (is_var_reference h \<and> es = [])"
| "flat_rhs _ = False"

text \<open>
  \<open>operation_to_statement_f\<close> turns the flattened \<open>return op(...)\<close> back into the statement
  \<open>op(...)\<close>.  The overload for \<open>Let\<close> around \<open>LetRemote\<close> is defined before the one for
  \<open>LetRemote\<close> around \<open>LetRemote\<close>, which it therefore cannot call.
\<close>

fun operation_to_statement_f :: "stmt \<Rightarrow> stmt option" where
  "operation_to_statement_f (S_Let n e b) =
     (case b of
        S_Return r \<Rightarrow>
          (if is_var_reference r then
             (case e of E_Operation name hndl es vs \<Rightarrow> Some (S_Operation name hndl es vs) | _ \<Rightarrow> None)
           else None)
      | S_Let m f c \<Rightarrow> map_option (S_Let n e) (operation_to_statement_f b)
      | S_LetRemote m f c \<Rightarrow>
          (case c of S_Let _ _ _ \<Rightarrow> map_option (S_Let n e) (operation_to_statement_f b) | _ \<Rightarrow> None)
      | _ \<Rightarrow> None)"
| "operation_to_statement_f (S_LetRemote n e b) =
     (case b of
        S_Let m f c \<Rightarrow> map_option (S_LetRemote n e) (operation_to_statement_f b)
      | S_LetRemote m f c \<Rightarrow> map_option (S_LetRemote n e) (operation_to_statement_f b)
      | _ \<Rightarrow> None)"
| "operation_to_statement_f _ = None"

text \<open>How far the recursion at one depth can go: into sequences, and from an operation to a binding.\<close>

fun flatten_weight :: "stmt \<Rightarrow> nat" where
  "flatten_weight (S_Operation n h es vs) = 2"
| "flatten_weight (S_Sequence ss) = Suc (Suc (sum_list (map (\<lambda>x. Suc (flatten_weight x)) ss)))"
| "flatten_weight _ = 1"

lemma remove_layer_binds:
  "remove_layer s d K e = Some st \<Longrightarrow>
   \<exists>x r e'. (st = S_Let x r (K e') \<or> st = S_LetRemote x r (K e'))"
proof (induction s d K e arbitrary: st rule: remove_layer.induct)
  case (10 s d K n h es vs)
  then show ?case
    by (fastforce simp: remove_layer.simps(10)[of s d K n h es vs] bind_layer_def
        split: if_splits list.splits option.splits)
qed (fastforce simp: remove_layer.simps bind_layer_def split: if_splits)+

lemma remove_layer_weight: "remove_layer s d K e = Some st \<Longrightarrow> flatten_weight st = 1"
  by (drule remove_layer_binds) auto

function flatten_exprs :: "nat \<Rightarrow> nat \<Rightarrow> stmt \<Rightarrow> stmt option"
  and flatten_seq :: "nat \<Rightarrow> nat \<Rightarrow> stmt list \<Rightarrow> stmt list option" where
  "flatten_exprs s d st =
    (if \<not> (fits_char s \<and> fits_char d) then None
     else if depth_limit \<le> d then Some st
     else (case st of
       S_Let x e b \<Rightarrow>
         if flat_rhs e then do { b' \<leftarrow> flatten_exprs s (d + 1) b; Some (S_Let x e b') }
         else do { partial \<leftarrow> remove_layer s d (\<lambda>n. S_Let x n b) e; flatten_exprs s (d + 1) partial }
     | S_LetRemote x e b \<Rightarrow>
         if is_var_reference e then do { b' \<leftarrow> flatten_exprs s (d + 1) b; Some (S_LetRemote x e b') }
         else do { partial \<leftarrow> remove_layer s d (\<lambda>n. S_LetRemote x n b) e; flatten_exprs s (d + 1) partial }
     | S_Assignment l r \<Rightarrow>
         if is_var_reference r then do {
           c \<leftarrow> contains_fieldpointer_ref l;
           if c then do { partial \<leftarrow> remove_layer s d (\<lambda>n. S_Assignment n r) l; flatten_exprs s (d + 1) partial }
           else Some st }
         else do { partial \<leftarrow> remove_layer s d (\<lambda>n. S_Assignment l n) r; flatten_exprs s (d + 1) partial }
     | S_Return e \<Rightarrow>
         if is_var_reference e then Some st
         else do { partial \<leftarrow> remove_layer s d S_Return e; flatten_exprs s (d + 1) partial }
     | S_While c b \<Rightarrow>
         if is_var_reference c then do { b' \<leftarrow> flatten_exprs s (d + 1) b; Some (S_While c b') }
         else do { partial \<leftarrow> remove_layer s d (\<lambda>n. S_While n b) c; flatten_exprs s (d + 1) partial }
     | S_If c t e \<Rightarrow>
         if is_var_reference c then do {
           t' \<leftarrow> flatten_exprs s (d + 1) t; e' \<leftarrow> flatten_exprs (s + 1) (d + 1) e; Some (S_If c t' e') }
         else do { partial \<leftarrow> remove_layer s d (\<lambda>n. S_If n t e) c; flatten_exprs s (d + 1) partial }
     | S_Operation n h es vs \<Rightarrow>
         if is_var_reference h \<and> es = [] then Some st
         else do {
           ret_partial \<leftarrow> remove_layer s d S_Return (E_Operation n h es vs);
           ret \<leftarrow> flatten_exprs (s + 1) d ret_partial;
           operation_to_statement_f ret }
     | S_Sequence ss \<Rightarrow> map_option S_Sequence (flatten_seq s d ss)))"
| "flatten_seq s d ss =
    (if \<not> (fits_char s \<and> fits_char d) then None
     else if depth_limit \<le> d then Some ss
     else (case ss of
       [] \<Rightarrow> Some []
     | st # stmts \<Rightarrow> do {
         st' \<leftarrow> flatten_exprs s d st; stmts' \<leftarrow> flatten_seq (s + 1) d stmts; Some (st' # stmts') }))"
  by pat_completeness auto
termination
  by (relation "inv_image (less_than <*lex*> less_than)
      (\<lambda>x. case x of Inl (s, d, st) \<Rightarrow> (128 - d, flatten_weight st)
                   | Inr (s, d, ss) \<Rightarrow> (128 - d, Suc (sum_list (map (\<lambda>x. Suc (flatten_weight x)) ss))))")
     (auto simp: fits_char_def dest: remove_layer_weight)

declare flatten_exprs.simps [simp del] flatten_seq.simps [simp del]

section \<open>Loop conditions\<close>

text \<open>
  \<open>desugar_while\<close>: \<open>while (c) t\<close> becomes
  \<open>let w = true in while (w) { if (c) t else w = false }\<close>.
\<close>

fun desugar_while :: "nat \<Rightarrow> nat \<Rightarrow> stmt \<Rightarrow> stmt option"
  and desugar_seq :: "nat \<Rightarrow> nat \<Rightarrow> stmt list \<Rightarrow> stmt list option" where
  "desugar_while s d st = (if \<not> (fits_char s \<and> fits_char d) then None else (case st of
      S_Let x e b \<Rightarrow> do { b' \<leftarrow> desugar_while s (d + 1) b; Some (S_Let x e b') }
    | S_LetRemote x e b \<Rightarrow> do { b' \<leftarrow> desugar_while s (d + 1) b; Some (S_LetRemote x e b') }
    | S_Assignment l r \<Rightarrow> Some st
    | S_Operation n h es vs \<Rightarrow> Some st
    | S_Return e \<Rightarrow> Some st
    | S_If c t e \<Rightarrow> do {
        t' \<leftarrow> desugar_while s (d + 1) t; e' \<leftarrow> desugar_while (s + 1) (d + 1) e; Some (S_If c t' e') }
    | S_While c t \<Rightarrow> do {
        t' \<leftarrow> desugar_while s (d + 1) t;
        Some (S_Let (while_name s d) (E_VarReference ''true'')
               (S_While (E_VarReference (while_name s d))
                 (S_If c t' (S_Assignment (E_VarReference (while_name s d)) (E_VarReference ''false''))))) }
    | S_Sequence ss \<Rightarrow> map_option S_Sequence (desugar_seq s d ss)))"
| "desugar_seq s d [] = (if fits_char s \<and> fits_char d then Some [] else None)"
| "desugar_seq s d (st # stmts) = (if \<not> (fits_char s \<and> fits_char d) then None else do {
     st' \<leftarrow> desugar_while s d st; stmts' \<leftarrow> desugar_seq (s + 1) d stmts; Some (st' # stmts') })"

declare desugar_while.simps [simp del]

definition flatten_expressions :: "stmt \<Rightarrow> stmt option" where
  "flatten_expressions a = do { a' \<leftarrow> desugar_while 1 1 a; flatten_exprs 1 1 a' }"


section \<open>What removing a layer does\<close>

fun expr_vars :: "expr \<Rightarrow> name set" where
  "expr_vars (E_FieldReference e f) = expr_vars e"
| "expr_vars (E_FieldPointerReference e f) = expr_vars e"
| "expr_vars (E_Dereference e) = expr_vars e"
| "expr_vars (E_Endorse l e) = expr_vars e"
| "expr_vars (E_Ensure l e) = expr_vars e"
| "expr_vars (E_IsValid e) = expr_vars e"
| "expr_vars (E_VarReference v) = {v}"
| "expr_vars (E_Constant i) = {}"
| "expr_vars (E_BinOp op l r) = expr_vars l \<union> expr_vars r"
| "expr_vars (E_Operation n h es vs) = expr_vars h \<union> (\<Union>e \<in> set es. expr_vars e) \<union> set vs"

fun subst :: "name \<Rightarrow> expr \<Rightarrow> expr \<Rightarrow> expr" where
  "subst x r (E_FieldReference e f) = E_FieldReference (subst x r e) f"
| "subst x r (E_FieldPointerReference e f) = E_FieldPointerReference (subst x r e) f"
| "subst x r (E_Dereference e) = E_Dereference (subst x r e)"
| "subst x r (E_Endorse l e) = E_Endorse l (subst x r e)"
| "subst x r (E_Ensure l e) = E_Ensure l (subst x r e)"
| "subst x r (E_IsValid e) = E_IsValid (subst x r e)"
| "subst x r (E_VarReference v) = (if v = x then r else E_VarReference v)"
| "subst x r (E_Constant i) = E_Constant i"
| "subst x r (E_BinOp op l r') = E_BinOp op (subst x r l) (subst x r r')"
| "subst x r (E_Operation n h es vs) = E_Operation n (subst x r h) (map (subst x r) es) vs"

text \<open>How often an expression uses a variable.\<close>

fun uses :: "name \<Rightarrow> expr \<Rightarrow> nat" where
  "uses x (E_FieldReference e f) = uses x e"
| "uses x (E_FieldPointerReference e f) = uses x e"
| "uses x (E_Dereference e) = uses x e"
| "uses x (E_Endorse l e) = uses x e"
| "uses x (E_Ensure l e) = uses x e"
| "uses x (E_IsValid e) = uses x e"
| "uses x (E_VarReference v) = (if v = x then 1 else 0)"
| "uses x (E_Constant i) = 0"
| "uses x (E_BinOp op l r) = uses x l + uses x r"
| "uses x (E_Operation n h es vs) = uses x h + sum_list (map (uses x) es) + count_list vs x"

lemma uses_fresh: "x \<notin> expr_vars e \<Longrightarrow> uses x e = 0"
  by (induction e) auto

text \<open>
  Two spellings of the same expression: \<open>a->f\<close> for \<open>( *a).f\<close>, and an operation with its leading
  arguments among the variable arguments or among the expressions.
\<close>

fun canon :: "expr \<Rightarrow> expr" where
  "canon (E_FieldReference e f) = E_FieldReference (canon e) f"
| "canon (E_FieldPointerReference e f) = E_FieldReference (E_Dereference (canon e)) f"
| "canon (E_Dereference e) = E_Dereference (canon e)"
| "canon (E_Endorse l e) = E_Endorse l (canon e)"
| "canon (E_Ensure l e) = E_Ensure l (canon e)"
| "canon (E_IsValid e) = E_IsValid (canon e)"
| "canon (E_VarReference v) = E_VarReference v"
| "canon (E_Constant i) = E_Constant i"
| "canon (E_BinOp op l r) = E_BinOp op (canon l) (canon r)"
| "canon (E_Operation n h es vs) = E_Operation n (canon h) (map E_VarReference vs @ map canon es) []"

lemma subst_fresh: "x \<notin> expr_vars e \<Longrightarrow> subst x r e = e"
  by (induction e) (auto simp: map_idI)

text \<open>
  The result of removing a layer: a binding of a flat expression, or of a remote variable, in
  front of the statement with the bound expression replaced by the variable.
\<close>

definition hoisted :: "nat \<Rightarrow> nat \<Rightarrow> (expr \<Rightarrow> stmt) \<Rightarrow> expr \<Rightarrow> stmt \<Rightarrow> bool" where
  "hoisted s d K e st \<longleftrightarrow>
     (\<exists>r e'. st = S_Let (generate_name s d) r (K e') \<and> flat_rhs r \<and> \<not> is_var_reference r \<and>
        expr_vars r \<subseteq> expr_vars e \<and> expr_vars e' \<subseteq> insert (generate_name s d) (expr_vars e) \<and>
        (generate_name s d \<notin> expr_vars e \<longrightarrow>
           uses (generate_name s d) e' = 1 \<and> canon (subst (generate_name s d) r e') = canon e)) \<or>
     (\<exists>v e'. st = S_LetRemote (remote_name s d) (E_VarReference v) (K e') \<and>
        v \<in> expr_vars e \<and> expr_vars e' \<subseteq> insert (remote_name s d) (expr_vars e) \<and>
        (remote_name s d \<notin> expr_vars e \<longrightarrow> uses (remote_name s d) e' = 1 \<and>
           canon (subst (remote_name s d) (E_Dereference (E_VarReference v)) e') = canon e))"

text \<open>Hoisting out of a subexpression \<open>e\<close> of \<open>C e\<close>.\<close>

lemma hoisted_context:
  assumes "hoisted s d (\<lambda>n. K (C n)) e st"
    and "\<And>n. expr_vars (C n) = expr_vars n \<union> V"
    and "\<And>x n. x \<notin> V \<Longrightarrow> uses x (C n) = uses x n"
    and "\<And>x r n. x \<notin> V \<Longrightarrow> canon (subst x r (C n)) = D (canon (subst x r n))"
    and "canon (C e) = D (canon e)"
  shows "hoisted s d K (C e) st"
proof -
  from assms(1) show ?thesis unfolding hoisted_def
  proof (elim disjE exE conjE, goal_cases)
    case (1 r e')
    then show ?case using assms(2-5) by (intro disjI1 exI[of _ r] exI[of _ "C e'"]) auto
  next
    case (2 v e')
    then show ?case using assms(2-5) by (intro disjI2 exI[of _ v] exI[of _ "C e'"]) auto
  qed
qed

lemma hoisted_bind:
  "bind_layer s d K e = Some st \<Longrightarrow> flat_rhs e \<Longrightarrow> \<not> is_var_reference e \<Longrightarrow> hoisted s d K e st"
  unfolding hoisted_def bind_layer_def
  by (intro disjI1 exI[of _ e] exI[of _ "E_VarReference (generate_name s d)"]) auto

lemma hoisted_same:
  "hoisted s d K e st \<Longrightarrow> expr_vars e = expr_vars e2 \<Longrightarrow> canon e = canon e2 \<Longrightarrow> hoisted s d K e2 st"
  by (simp add: hoisted_def)

lemma var_name_Some: "var_name e = Some v \<Longrightarrow> e = E_VarReference v"
  by (cases e) auto

lemma remove_layer_hoisted: "remove_layer s d K e = Some st \<Longrightarrow> hoisted s d K e st"
proof (induction s d K e arbitrary: st rule: remove_layer.induct)
  case (1 s d K e f)
  then show ?case
    by (cases "is_var_reference e")
       (auto simp: remove_layer.simps(1) intro: hoisted_bind
         hoisted_context[where C = "\<lambda>n. E_FieldReference n f" and V = "{}" and D = "\<lambda>n. E_FieldReference n f"])
next
  case (2 s d K e f)
  then show ?case
    by (auto simp: remove_layer.simps(2) intro: hoisted_same[of s d K "E_FieldReference (E_Dereference e) f"])
next
  case (3 s d K e)
  show ?case
  proof (cases e)
    case (E_VarReference v)
    then show ?thesis using 3 unfolding hoisted_def
      by (intro disjI2 exI[of _ v] exI[of _ "E_VarReference (remote_name s d)"])
         (auto simp: remove_layer.simps(3))
  qed (use 3 in \<open>auto simp: remove_layer.simps(3) intro!:
         hoisted_context[where C = E_Dereference and V = "{}" and D = E_Dereference]\<close>)
next
  case (4 s d K e)
  then show ?case
    by (cases "is_var_reference e")
       (auto simp: remove_layer.simps(4) intro: hoisted_bind
         hoisted_context[where C = E_IsValid and V = "{}" and D = E_IsValid])
next
  case (5 s d K l e)
  then show ?case
    by (cases "is_var_reference e")
       (auto simp: remove_layer.simps(5) intro: hoisted_bind
         hoisted_context[where C = "E_Endorse l" and V = "{}" and D = "E_Endorse l"])
next
  case (6 s d K l e)
  then show ?case
    by (cases "is_var_reference e")
       (auto simp: remove_layer.simps(6) intro: hoisted_bind
         hoisted_context[where C = "E_Ensure l" and V = "{}" and D = "E_Ensure l"])
next
  case (7 s d K v)
  then show ?case by (simp add: remove_layer.simps)
next
  case (8 s d K i)
  then show ?case by (auto simp: remove_layer.simps intro: hoisted_bind)
next
  case (9 s d K op l r)
  then show ?case
    by (cases "is_var_reference l"; cases "is_var_reference r")
       (auto simp: remove_layer.simps(9) subst_fresh uses_fresh intro: hoisted_bind
         hoisted_context[where C = "\<lambda>n. E_BinOp op l n" and V = "expr_vars l" and D = "E_BinOp op (canon l)"]
         hoisted_context[where C = "\<lambda>n. E_BinOp op n r" and V = "expr_vars r" and D = "\<lambda>n. E_BinOp op n (canon r)"])
next
  case (10 s d K n h es vs)
  show ?case
  proof (cases "is_var_reference h")
    case False
    show ?thesis
      by (rule hoisted_context[where C = "\<lambda>e. E_Operation n e es vs"
            and V = "(\<Union>e \<in> set es. expr_vars e) \<union> set vs"
            and D = "\<lambda>e. E_Operation n e (map E_VarReference vs @ map canon es) []"])
         (use 10 False in \<open>auto simp: remove_layer.simps(10) subst_fresh uses_fresh count_list_0_iff\<close>)
  next
    case h: True
    show ?thesis
    proof (cases es)
      case Nil
      then show ?thesis using 10 h by (auto simp: remove_layer.simps(10) intro: hoisted_bind)
    next
      case (Cons e1 rest)
      show ?thesis
      proof (cases "var_name e1")
        case None
        show ?thesis unfolding Cons
          by (rule hoisted_context[where C = "\<lambda>e. E_Operation n h (e # rest) vs"
                and V = "expr_vars h \<union> (\<Union>e \<in> set rest. expr_vars e) \<union> set vs"
                and D = "\<lambda>e. E_Operation n (canon h) (map E_VarReference vs @ e # map canon rest) []"])
             (use 10 h Cons None in \<open>auto simp: remove_layer.simps(10) subst_fresh uses_fresh count_list_0_iff\<close>)
      next
        case (Some v)
        then have e1: "e1 = E_VarReference v" by (rule var_name_Some)
        have "hoisted s d K (E_Operation n h rest (vs @ [v])) st"
          using 10 h Cons Some by (simp add: remove_layer.simps(10)[of s d K n h "e1 # rest" vs])
        then show ?thesis by (rule hoisted_same) (auto simp: Cons e1)
      qed
    qed
  qed
qed


lemma remove_layer_var: "is_var_reference e \<Longrightarrow> remove_layer s d K e = None"
  by (cases e) (auto simp: remove_layer.simps)

lemma var_name_None: "var_name e = None \<longleftrightarrow> \<not> is_var_reference e"
  by (cases e) auto

lemma remove_layer_defined: "\<not> is_var_reference e \<Longrightarrow> \<exists>st. remove_layer s d K e = Some st"
proof (induction s d K e rule: remove_layer.induct)
  case (10 s d K n h es vs)
  then show ?case unfolding remove_layer.simps(10)[of s d K n h es vs]
    by (auto simp: bind_layer_def var_name_None split: list.split option.split)
qed (auto simp: remove_layer.simps bind_layer_def)

section \<open>A-normal form\<close>

fun anf :: "stmt \<Rightarrow> bool" where
  "anf (S_Let x e b) = (flat_rhs e \<and> anf b)"
| "anf (S_LetRemote x e b) = (is_var_reference e \<and> anf b)"
| "anf (S_Operation n h es vs) = (is_var_reference h \<and> es = [])"
| "anf (S_Assignment l r) = (contains_fieldpointer_ref l = Some False \<and> is_var_reference r)"
| "anf (S_Return e) = is_var_reference e"
| "anf (S_If c t e) = (is_var_reference c \<and> anf t \<and> anf e)"
| "anf (S_While c b) = (is_var_reference c \<and> anf b)"
| "anf (S_Sequence ss) = (\<forall>st \<in> set ss. anf st)"

declare operation_to_statement_f.simps(1,2) [simp del]

lemma operation_to_statement_Let:
  assumes "operation_to_statement_f (S_Let n e b) = Some st'"
  shows "(\<exists>name hndl es vs. e = E_Operation name hndl es vs \<and> st' = S_Operation name hndl es vs) \<or>
    (\<exists>b'. operation_to_statement_f b = Some b' \<and> st' = S_Let n e b')"
proof -
  note u = assms[unfolded operation_to_statement_f.simps(1)[of n e b]]
  show ?thesis
  proof (cases b)
    case (S_Return r)
    with u show ?thesis by (cases e) (simp_all split: if_splits)
  next
    case (S_LetRemote m f c)
    with u show ?thesis by (cases c) auto
  qed (use u in auto)
qed

lemma operation_to_statement_LetRemote:
  assumes "operation_to_statement_f (S_LetRemote n e b) = Some st'"
  shows "\<exists>b'. operation_to_statement_f b = Some b' \<and> st' = S_LetRemote n e b'"
  using assms[unfolded operation_to_statement_f.simps(2)[of n e b]] by (cases b) auto

lemma operation_to_statement_anf:
  "anf st \<Longrightarrow> operation_to_statement_f st = Some st' \<Longrightarrow> anf st'"
proof (induction st arbitrary: st')
  case (S_Let n e b)
  then show ?case using operation_to_statement_Let[OF S_Let.prems(2)] by auto
next
  case (S_LetRemote n e b)
  then show ?case using operation_to_statement_LetRemote[OF S_LetRemote.prems(2)] by auto
next
  case (S_If c t e)
  show ?case using S_If.prems by simp
next
  case (S_While c b)
  show ?case using S_While.prems by simp
next
  case (S_Sequence ss)
  show ?case using S_Sequence.prems by simp
qed simp_all

lemma fits_char_limit: "fits_char d \<Longrightarrow> \<not> depth_limit \<le> d"
  by (simp add: fits_char_def depth_limit_def)

lemma flatten_exprs_unfold:
  "fits_char s \<Longrightarrow> fits_char d \<Longrightarrow> flatten_seq s d [] = Some []"
  "fits_char s \<Longrightarrow> fits_char d \<Longrightarrow> flatten_seq s d (st # stmts) = do {
     st' \<leftarrow> flatten_exprs s d st; stmts' \<leftarrow> flatten_seq (s + 1) d stmts; Some (st' # stmts') }"
  by (simp_all add: flatten_seq.simps[of s d] fits_char_limit)

lemma flatten_anf:
  "flatten_exprs s d st = Some st' \<Longrightarrow> anf st'"
  "flatten_seq s d ss = Some ss' \<Longrightarrow> \<forall>x \<in> set ss'. anf x"
proof (induction s d st and s d ss arbitrary: st' and ss' rule: flatten_exprs_flatten_seq.induct)
  case (1 s d st)
  have fits: "fits_char s" "fits_char d"
    using 1(15) by (auto simp: flatten_exprs.simps[of s d st] split: if_splits)
  with 1 show ?case
    by (cases st) (auto simp: flatten_exprs.simps[of s d] fits_char_limit bind_Some_iff
        split: if_splits dest: operation_to_statement_anf)
next
  case (2 s d ss)
  have fits: "fits_char s" "fits_char d"
    using 2(3) by (auto simp: flatten_seq.simps[of s d ss] split: if_splits)
  with 2 show ?case by (cases ss) (auto simp: flatten_exprs_unfold fits_char_limit bind_Some_iff)
qed


section \<open>Scoping\<close>

fun scoped :: "name set \<Rightarrow> stmt \<Rightarrow> bool" where
  "scoped \<Gamma> (S_Let x e b) = (expr_vars e \<subseteq> \<Gamma> \<and> scoped (insert x \<Gamma>) b)"
| "scoped \<Gamma> (S_LetRemote x e b) = (expr_vars e \<subseteq> \<Gamma> \<and> scoped (insert x \<Gamma>) b)"
| "scoped \<Gamma> (S_Operation n h es vs) = (expr_vars (E_Operation n h es vs) \<subseteq> \<Gamma>)"
| "scoped \<Gamma> (S_Assignment l r) = (expr_vars l \<subseteq> \<Gamma> \<and> expr_vars r \<subseteq> \<Gamma>)"
| "scoped \<Gamma> (S_Return e) = (expr_vars e \<subseteq> \<Gamma>)"
| "scoped \<Gamma> (S_If c t e) = (expr_vars c \<subseteq> \<Gamma> \<and> scoped \<Gamma> t \<and> scoped \<Gamma> e)"
| "scoped \<Gamma> (S_While c b) = (expr_vars c \<subseteq> \<Gamma> \<and> scoped \<Gamma> b)"
| "scoped \<Gamma> (S_Sequence ss) = (\<forall>st \<in> set ss. scoped \<Gamma> st)"

lemma scoped_mono: "scoped \<Gamma> st \<Longrightarrow> \<Gamma> \<subseteq> \<Delta> \<Longrightarrow> scoped \<Delta> st"
proof (induction st arbitrary: \<Gamma> \<Delta>)
  case (S_Let x e b)
  then show ?case using S_Let.IH[of "insert x \<Gamma>" "insert x \<Delta>"] by auto
next
  case (S_LetRemote x e b)
  then show ?case using S_LetRemote.IH[of "insert x \<Gamma>" "insert x \<Delta>"] by auto
next
  case (S_If c t e)
  then show ?case using S_If.IH[of \<Gamma> \<Delta>] by auto
next
  case (S_While c b)
  then show ?case using S_While.IH[of \<Gamma> \<Delta>] by auto
next
  case (S_Sequence ss)
  then show ?case unfolding scoped.simps by blast
qed auto

lemma hoisted_scoped:
  assumes "remove_layer s d K e = Some st" "expr_vars e \<subseteq> \<Gamma>"
    and "\<And>n \<Delta>. \<Gamma> \<subseteq> \<Delta> \<Longrightarrow> expr_vars n \<subseteq> \<Delta> \<Longrightarrow> scoped \<Delta> (K n)"
  shows "scoped \<Gamma> st"
  using remove_layer_hoisted[OF assms(1)] unfolding hoisted_def
proof (elim disjE exE conjE, goal_cases)
  case (1 r e')
  then show ?case using assms(2) assms(3)[of "insert (generate_name s d) \<Gamma>" e'] by auto
next
  case (2 v e')
  then show ?case using assms(2) assms(3)[of "insert (remote_name s d) \<Gamma>" e'] by auto
qed

lemma operation_to_statement_scoped:
  "scoped \<Gamma> st \<Longrightarrow> operation_to_statement_f st = Some st' \<Longrightarrow> scoped \<Gamma> st'"
proof (induction st arbitrary: st' \<Gamma>)
  case (S_Let n e b)
  then show ?case using operation_to_statement_Let[OF S_Let.prems(2)] by auto
next
  case (S_LetRemote n e b)
  then show ?case using operation_to_statement_LetRemote[OF S_LetRemote.prems(2)] by auto
next
  case (S_If c t e)
  show ?case using S_If.prems by simp
next
  case (S_While c b)
  show ?case using S_While.prems by simp
next
  case (S_Sequence ss)
  show ?case using S_Sequence.prems by simp
qed simp_all

lemma flatten_scoped:
  "flatten_exprs s d st = Some st' \<Longrightarrow> scoped \<Gamma> st \<Longrightarrow> scoped \<Gamma> st'"
  "flatten_seq s d ss = Some ss' \<Longrightarrow> \<forall>x \<in> set ss. scoped \<Gamma> x \<Longrightarrow> \<forall>x \<in> set ss'. scoped \<Gamma> x"
proof (induction s d st and s d ss arbitrary: st' \<Gamma> and ss' \<Gamma> rule: flatten_exprs_flatten_seq.induct)
  case (1 s d st)
  have fits: "fits_char s" "fits_char d" "\<not> depth_limit \<le> d"
    using 1(15) by (auto simp: flatten_exprs.simps[of s d st] fits_char_limit split: if_splits)
  note u = 1(15)[unfolded flatten_exprs.simps[of s d st]]
  show ?case
  proof (cases st)
    case (S_Let x e b)
    have h: "remove_layer s d (\<lambda>n. S_Let x n b) e = Some p \<Longrightarrow> scoped \<Gamma> p" for p
      using 1(16) S_Let by (elim hoisted_scoped) (auto elim: scoped_mono)
    show ?thesis using u fits 1(1,2,16) S_Let h by (auto simp: bind_Some_iff split: if_splits)
  next
    case (S_LetRemote x e b)
    have h: "remove_layer s d (\<lambda>n. S_LetRemote x n b) e = Some p \<Longrightarrow> scoped \<Gamma> p" for p
      using 1(16) S_LetRemote by (elim hoisted_scoped) (auto elim: scoped_mono)
    show ?thesis using u fits 1(3,4,16) S_LetRemote h by (auto simp: bind_Some_iff split: if_splits)
  next
    case (S_Assignment l r)
    have h1: "remove_layer s d (\<lambda>n. S_Assignment n r) l = Some p \<Longrightarrow> scoped \<Gamma> p" for p
      using 1(16) S_Assignment by (elim hoisted_scoped) auto
    have h2: "remove_layer s d (\<lambda>n. S_Assignment l n) r = Some p \<Longrightarrow> scoped \<Gamma> p" for p
      using 1(16) S_Assignment by (elim hoisted_scoped) auto
    show ?thesis using u fits 1(6,7,16) S_Assignment h1 h2
      by (auto simp: bind_Some_iff split: if_splits)
  next
    case (S_Return e)
    have h: "remove_layer s d S_Return e = Some p \<Longrightarrow> scoped \<Gamma> p" for p
      using 1(16) S_Return by (elim hoisted_scoped) auto
    show ?thesis using u fits 1(8,16) S_Return h by (auto simp: bind_Some_iff split: if_splits)
  next
    case (S_While c b)
    have h: "remove_layer s d (\<lambda>n. S_While n b) c = Some p \<Longrightarrow> scoped \<Gamma> p" for p
      using 1(16) S_While by (elim hoisted_scoped) (auto elim: scoped_mono)
    show ?thesis using u fits 1(12,13,16) S_While h by (auto simp: bind_Some_iff split: if_splits)
  next
    case (S_If c t e)
    have h: "remove_layer s d (\<lambda>n. S_If n t e) c = Some p \<Longrightarrow> scoped \<Gamma> p" for p
      using 1(16) S_If by (elim hoisted_scoped) (auto elim: scoped_mono)
    show ?thesis using u fits 1(9-11,16) S_If h by (auto simp: bind_Some_iff split: if_splits)
  next
    case (S_Operation n h es vs)
    have h: "remove_layer s d S_Return (E_Operation n h es vs) = Some p \<Longrightarrow> scoped \<Gamma> p" for p
      using 1(16) S_Operation by (elim hoisted_scoped) auto
    have ih: "scoped \<Gamma> q \<and> (operation_to_statement_f q = Some st' \<longrightarrow> scoped \<Gamma> st')"
      if "\<not> (is_var_reference h \<and> es = [])" "flatten_exprs (Suc s) d p = Some q"
        "remove_layer s d S_Return (E_Operation n h es vs) = Some p" for p q
      using 1(5)[of n h es vs p q \<Gamma>] fits S_Operation that h[of p]
        operation_to_statement_scoped[of \<Gamma> q st'] by simp
    show ?thesis using u fits 1(16) S_Operation ih
      by (auto simp: bind_Some_iff split: if_splits)
  next
    case (S_Sequence ss)
    show ?thesis using u fits 1(14,16) S_Sequence by auto
  qed
next
  case (2 s d ss)
  have fits: "fits_char s" "fits_char d"
    using 2(3) by (auto simp: flatten_seq.simps[of s d ss] split: if_splits)
  with 2 show ?case by (cases ss) (auto simp: flatten_exprs_unfold fits_char_limit bind_Some_iff)
qed


text \<open>The loops of a program whose conditions are variables.\<close>

fun while_vars :: "stmt \<Rightarrow> bool" where
  "while_vars (S_Let x e b) = while_vars b"
| "while_vars (S_LetRemote x e b) = while_vars b"
| "while_vars (S_If c t e) = (while_vars t \<and> while_vars e)"
| "while_vars (S_While c b) = (is_var_reference c \<and> while_vars b)"
| "while_vars (S_Sequence ss) = (\<forall>st \<in> set ss. while_vars st)"
| "while_vars _ = True"

lemma desugar_while_correct:
  "desugar_while s d st = Some st' \<Longrightarrow> while_vars st' \<and>
     (scoped \<Gamma> st \<longrightarrow> ''true'' \<in> \<Gamma> \<longrightarrow> ''false'' \<in> \<Gamma> \<longrightarrow> scoped \<Gamma> st')"
  "desugar_seq s d ss = Some ss' \<Longrightarrow> \<forall>st \<in> set ss'. while_vars st \<and>
     ((\<forall>st \<in> set ss. scoped \<Gamma> st) \<longrightarrow> ''true'' \<in> \<Gamma> \<longrightarrow> ''false'' \<in> \<Gamma> \<longrightarrow> scoped \<Gamma> st)"
proof (induction s d st and s d ss arbitrary: st' \<Gamma> and ss' \<Gamma> rule: desugar_while_desugar_seq.induct)
  case (1 s d st)
  note u = "1.prems"[unfolded desugar_while.simps[of s d st]]
  show ?case
  proof (cases st)
    case (S_Let x e b)
    show ?thesis using u 1(1)[of x e b _ "insert x \<Gamma>"] S_Let
      by (auto simp: bind_Some_iff split: if_splits)
  next
    case (S_LetRemote x e b)
    show ?thesis using u 1(2)[of x e b _ "insert x \<Gamma>"] S_LetRemote
      by (auto simp: bind_Some_iff split: if_splits)
  next
    case (S_If c t e)
    show ?thesis using u 1(3)[of c t e _ \<Gamma>] 1(4)[of c t e _ _ \<Gamma>] S_If
      by (auto simp: bind_Some_iff split: if_splits)
  next
    case (S_While c t)
    show ?thesis using u 1(5)[of c t _ \<Gamma>] S_While
      by (auto simp: bind_Some_iff split: if_splits elim: scoped_mono)
  next
    case (S_Sequence ss)
    show ?thesis using u 1(6)[of ss _ \<Gamma>] S_Sequence by (auto split: if_splits)
  qed (use u in \<open>auto split: if_splits\<close>)
next
  case (2 s d)
  then show ?case by (simp split: if_splits)
next
  case (3 s d st stmts)
  from 3(3) obtain a b where ab: "fits_char s" "fits_char d" "desugar_while s d st = Some a"
    "desugar_seq (s + 1) d stmts = Some b" "ss' = a # b"
    by (auto simp: bind_Some_iff split: if_splits)
  show ?case using ab 3(1)[of a \<Gamma>] 3(2)[of a b \<Gamma>] by auto
qed


section \<open>Properties\<close>

text \<open>
  C11: the flattened program is in A-normal form: every right-hand side
  is one operator applied to variables, remote bindings, conditions and returned values are
  variables, and assignments reach no field through a pointer; it refers to no variable that
  the original program could not see, but for the binders it adds around their uses.
\<close>

theorem flatten_expressions_anf:
  assumes "flatten_expressions a = Some b"
    and "scoped \<Gamma> a" and "''true'' \<in> \<Gamma>" and "''false'' \<in> \<Gamma>"
  shows "anf b \<and> scoped \<Gamma> b"
proof -
  obtain a' where a': "desugar_while 1 1 a = Some a'" "flatten_exprs 1 1 a' = Some b"
    using assms(1) by (auto simp: flatten_expressions_def bind_Some_iff)
  have "scoped \<Gamma> a'" using desugar_while_correct(1)[OF a'(1)] assms(2-4) by blast
  then show ?thesis using flatten_anf(1)[OF a'(2)] flatten_scoped(1)[OF a'(2)] by blast
qed

definition sample_loop :: stmt where
  "sample_loop = S_Sequence
     [S_While (E_BinOp (CHR ''<'') (E_VarReference ''i'') (E_Constant 3))
        (S_Assignment (E_VarReference ''i'') (E_FieldPointerReference (E_VarReference ''p'') ''next'')),
      S_Operation ''push'' (E_Dereference (E_VarReference ''h'')) [E_VarReference ''i'', E_Constant 7] []]"

theorem flatten_expressions_anf_witness:
  "\<exists>b. flatten_expressions sample_loop = Some b \<and> anf b \<and>
     scoped {''i'', ''p'', ''h'', ''true'', ''false''} b"
proof -
  have "flatten_expressions sample_loop \<noteq> None" by code_simp
  then obtain b where b: "flatten_expressions sample_loop = Some b" by auto
  show ?thesis using b flatten_expressions_anf[OF b, of "{''i'', ''p'', ''h'', ''true'', ''false''}"]
    by (simp add: sample_loop_def)
qed

text \<open>
  C19: removing a layer from an expression that is not a variable always
  succeeds, and it moves one flat subexpression, no variable itself (or one dereferenced handle), into a
  binding in front of the statement: what is left uses the binder exactly once, and substituting the
  subexpression back for it gives the original expression, up to the two spellings of field access
  through a pointer and of operation arguments, whose order is kept.
\<close>

theorem remove_layer_inverse:
  assumes "\<not> is_var_reference e"
    and "generate_name s d \<notin> expr_vars e" and "remote_name s d \<notin> expr_vars e"
  shows "(\<exists>r e'. remove_layer s d K e = Some (S_Let (generate_name s d) r (K e')) \<and>
      flat_rhs r \<and> \<not> is_var_reference r \<and> uses (generate_name s d) e' = 1 \<and>
      canon (subst (generate_name s d) r e') = canon e) \<or>
    (\<exists>v e'. remove_layer s d K e = Some (S_LetRemote (remote_name s d) (E_VarReference v) (K e')) \<and>
      uses (remote_name s d) e' = 1 \<and>
      canon (subst (remote_name s d) (E_Dereference (E_VarReference v)) e') = canon e)"
proof -
  obtain st where st: "remove_layer s d K e = Some st" using remove_layer_defined[OF assms(1)] by blast
  show ?thesis using remove_layer_hoisted[OF st] assms(2,3) unfolding hoisted_def st by blast
qed

theorem remove_layer_inverse_witness:
  "remove_layer 1 1 S_Return (E_BinOp (CHR ''+'') (E_VarReference ''x'') (E_Constant 2)) =
     Some (S_Let (generate_name 1 1) (E_Constant 2)
       (S_Return (E_BinOp (CHR ''+'') (E_VarReference ''x'') (E_VarReference (generate_name 1 1)))))"
  using remove_layer_inverse[of "E_BinOp (CHR ''+'') (E_VarReference ''x'') (E_Constant 2)" 1 1 S_Return]
  by (simp add: remove_layer.simps bind_layer_def generate_name_def remote_name_def)

text \<open>
  After \<open>desugar_while\<close> every loop tests a variable, so flattening
  never moves the evaluation of a condition out of its loop.
\<close>

theorem desugar_while_conditions:
  assumes "desugar_while s d st = Some st'"
  shows "while_vars st'"
  using desugar_while_correct(1)[OF assms] by blast

theorem desugar_while_conditions_witness:
  "while_vars (S_Let (while_name 1 1) (E_VarReference ''true'')
     (S_While (E_VarReference (while_name 1 1))
       (S_If (E_IsValid (E_VarReference ''h'')) (S_Sequence [])
          (S_Assignment (E_VarReference (while_name 1 1)) (E_VarReference ''false'')))))"
proof -
  have d: "desugar_while 1 1 (S_While (E_IsValid (E_VarReference ''h'')) (S_Sequence [])) =
      Some (S_Let (while_name 1 1) (E_VarReference ''true'')
     (S_While (E_VarReference (while_name 1 1))
       (S_If (E_IsValid (E_VarReference ''h'')) (S_Sequence [])
          (S_Assignment (E_VarReference (while_name 1 1)) (E_VarReference ''false'')))))"
    by (simp add: desugar_while.simps fits_char_def)
  show ?thesis by (rule desugar_while_conditions[OF d])
qed

text \<open>
  The cut-off at \<open>depth_limit\<close>, beyond which \<open>flatten_exprs\<close>
  means to return its argument as it is, is never reached: the depth is a \<open>char\<close>, and a
  program that nests more than 127 layers does not compile.
\<close>

theorem flatten_depth_limit_unreachable:
  "flatten_exprs s (depth_limit + k) st = None"
  by (simp add: flatten_exprs.simps fits_char_def depth_limit_def)

end
