(* ===== verification/Clock.thy ===== *)
theory Clock
  imports Prelude
begin

text \<open>
  Vector clocks (\<open>tracker/Ends.hpp\<close>, \<open>Ends.cpp\<close>) and the shared clock that the tracker reads
  (\<open>tracker/ClockManager.cpp\<close>).

  A clock has four entries; \<open>-1\<close> stands for "not known yet".  The operations of \<open>ends\<close> are
  pointwise: \<open>max\<close> and \<open>prec\<close>.  The type is made a \<open>semilattice_sup\<close> with exactly those two, so
  that the library's facts about suprema apply to the clocks of the tracker.  The comparison
  of \<open>std::array\<close> with \<open>operator<\<close>, which is lexicographic, is a different relation.

  The second half is the shared clock: a thread receives clocks from a socket and writes them
  entry by entry into a volatile array, while a transaction copies that array entry by entry.
  It is modelled as a step relation whose interleavings are all those of the two loops.
\<close>

section \<open>Clocks\<close>

datatype clock = Clock int int int int

fun entries :: "clock \<Rightarrow> int list" where
  "entries (Clock a b c d) = [a, b, c, d]"

fun clock_of :: "int list \<Rightarrow> clock option" where
  "clock_of [a, b, c, d] = Some (Clock a b c d)"
| "clock_of _ = None"

fun ends_max :: "clock \<Rightarrow> clock \<Rightarrow> clock" where
  "ends_max (Clock a b c d) (Clock a' b' c' d') = Clock (max a a') (max b b') (max c c') (max d d')"

text \<open>The variadic \<open>max\<close>: the first argument against the maximum of the others.\<close>

fun ends_max_args :: "clock list \<Rightarrow> clock option" where
  "ends_max_args [a, b] = Some (ends_max a b)"
| "ends_max_args (a # b # c # arrays) =
     do { m \<leftarrow> ends_max_args (b # c # arrays); Some (ends_max a m) }"
| "ends_max_args _ = None"

definition ends_max_range :: "clock list \<Rightarrow> clock" where
  "ends_max_range cs = foldl ends_max (Clock (-1) (-1) (-1) (-1)) cs"

fun is_same_from :: "int list \<Rightarrow> int list \<Rightarrow> bool" where
  "is_same_from (a # as) (b # bs) = (if a \<noteq> b then False else is_same_from as bs)"
| "is_same_from _ _ = True"

definition is_same :: "clock \<Rightarrow> clock \<Rightarrow> bool" where
  "is_same a b = is_same_from (entries a) (entries b)"

text \<open>\<open>prec\<close> is \<^term>\<open>None\<close> where an assertion on an unknown entry fails; it returns at the first
  entry that is larger, before looking at the rest.\<close>

fun prec_from :: "int list \<Rightarrow> int list \<Rightarrow> bool option" where
  "prec_from (a # as) (b # bs) =
     (if a = -1 \<or> b = -1 then None
      else if a > b then Some False
      else prec_from as bs)"
| "prec_from _ _ = Some True"

definition prec :: "clock \<Rightarrow> clock \<Rightarrow> bool option" where
  "prec a b = prec_from (entries a) (entries b)"

text \<open>\<open>operator<\<close> of \<open>std::array\<close>.\<close>

fun array_less_from :: "int list \<Rightarrow> int list \<Rightarrow> bool" where
  "array_less_from (a # as) (b # bs) =
     (if a < b then True else if b < a then False else array_less_from as bs)"
| "array_less_from [] (b # bs) = True"
| "array_less_from _ [] = False"

definition array_less :: "clock \<Rightarrow> clock \<Rightarrow> bool" where
  "array_less a b = array_less_from (entries a) (entries b)"

subsection \<open>The lattice of clocks\<close>

instantiation clock :: semilattice_sup
begin

fun less_eq_clock :: "clock \<Rightarrow> clock \<Rightarrow> bool" where
  "less_eq_clock (Clock a b c d) (Clock a' b' c' d') = (a \<le> a' \<and> b \<le> b' \<and> c \<le> c' \<and> d \<le> d')"

definition less_clock :: "clock \<Rightarrow> clock \<Rightarrow> bool" where
  "less_clock a b \<longleftrightarrow> a \<le> b \<and> \<not> b \<le> (a :: clock)"

definition sup_clock :: "clock \<Rightarrow> clock \<Rightarrow> clock" where
  "sup_clock a b = ends_max a b"

instance
proof
  fix x y z :: clock
  show "x < y \<longleftrightarrow> x \<le> y \<and> \<not> y \<le> x" by (rule less_clock_def)
  show "x \<le> x" by (cases x) simp
  show "x \<le> y \<Longrightarrow> y \<le> z \<Longrightarrow> x \<le> z" by (cases x; cases y; cases z) simp
  show "x \<le> y \<Longrightarrow> y \<le> x \<Longrightarrow> x = y" by (cases x; cases y) simp
  show "x \<le> sup x y" by (cases x; cases y) (simp add: sup_clock_def)
  show "y \<le> sup x y" by (cases x; cases y) (simp add: sup_clock_def)
  show "y \<le> x \<Longrightarrow> z \<le> x \<Longrightarrow> sup y z \<le> x" by (cases x; cases y; cases z) (simp add: sup_clock_def)
qed

end

lemma ends_max_sup [clock_simps]: "ends_max a b = sup a b"
  by (simp add: sup_clock_def)

lemma less_eq_clock_entries: "a \<le> b \<longleftrightarrow> (\<forall>i < 4. entries a ! i \<le> entries b ! i)"
  by (cases a; cases b) (auto simp: less_Suc_eq numeral_eq_Suc nth_Cons split: nat.splits)

lemma length_entries [simp]: "length (entries c) = 4"
  by (cases c) simp

lemma entries_inject [simp]: "entries a = entries b \<longleftrightarrow> a = b"
  by (cases a; cases b) auto

lemma clock_of_entries [simp]: "clock_of (entries c) = Some c"
  by (cases c) simp

lemma clock_of_Some_iff: "clock_of xs = Some c \<longleftrightarrow> xs = entries c"
  by (cases c; cases xs rule: clock_of.cases) auto

lemma clock_of_total: "length xs = 4 \<Longrightarrow> \<exists>c. clock_of xs = Some c \<and> entries c = xs"
  by (cases xs rule: clock_of.cases) auto

definition known :: "clock \<Rightarrow> bool" where
  "known c \<longleftrightarrow> -1 \<notin> set (entries c)"

definition zero_clock :: clock where
  "zero_clock = Clock 0 0 0 0"

lemma known_mono: "zero_clock \<le> c \<Longrightarrow> known c"
  by (cases c) (auto simp: known_def zero_clock_def)

lemma is_same_iff [clock_simps]: "is_same a b \<longleftrightarrow> a = b"
  by (cases a; cases b) (auto simp: is_same_def)

lemma prec_iff [clock_simps]: "known a \<Longrightarrow> known b \<Longrightarrow> prec a b = Some (a \<le> b)"
  by (cases a; cases b) (auto simp: prec_def known_def)

lemma prec_True_iff: "prec a b = Some True \<longleftrightarrow> known a \<and> known b \<and> a \<le> b"
  by (cases a; cases b) (auto simp: prec_def known_def)

lemma array_less_iff:
  "array_less (Clock a b c d) (Clock a' b' c' d') \<longleftrightarrow>
     a < a' \<or> a = a' \<and> (b < b' \<or> b = b' \<and> (c < c' \<or> c = c' \<and> d < d'))"
  by (auto simp: array_less_def)

lemma less_eq_array_less: "a \<le> b \<Longrightarrow> a \<noteq> b \<Longrightarrow> array_less a b"
  by (cases a; cases b) (auto simp: array_less_iff)

lemma array_less_trichotomy: "array_less a b \<or> a = b \<or> array_less b a"
  by (cases a; cases b) (auto simp: array_less_iff)

subsection \<open>Maxima of many clocks\<close>

lemma foldl_ends_max_le: "foldl ends_max c cs \<le> u \<longleftrightarrow> c \<le> u \<and> (\<forall>x \<in> set cs. x \<le> u)"
  by (induction cs arbitrary: c) (auto simp: clock_simps)

lemma ends_max_args_le:
  "ends_max_args cs = Some m \<Longrightarrow> m \<le> u \<longleftrightarrow> (\<forall>x \<in> set cs. x \<le> u)"
  by (induction cs arbitrary: m rule: ends_max_args.induct) (auto simp: bind_Some_iff clock_simps)

lemma ends_max_range_le:
  "ends_max_range cs \<le> u \<longleftrightarrow> Clock (-1) (-1) (-1) (-1) \<le> u \<and> (\<forall>x \<in> set cs. x \<le> u)"
  by (simp add: ends_max_range_def foldl_ends_max_le)

lemma eq_by_upper_bounds: "(\<And>u :: clock. a \<le> u \<longleftrightarrow> b \<le> u) \<Longrightarrow> a = b"
  by (meson order_antisym order_refl)

text \<open>The minimum of unknown entries that the loop starts from is absorbed by any clock that is
  not below it.\<close>

lemma sup_ends_max_range_le:
  "zero_clock \<le> c \<Longrightarrow> sup c (ends_max_range cs) \<le> u \<longleftrightarrow> c \<le> u \<and> (\<forall>x \<in> set cs. x \<le> u)"
proof -
  assume "zero_clock \<le> c"
  then have "Clock (-1) (-1) (-1) (-1) \<le> c"
    by (cases c) (simp add: zero_clock_def)
  then show ?thesis
    by (auto simp: ends_max_range_le intro: order_trans)
qed

text \<open>The two ways to take the maximum of several clocks agree: the variadic
  \<open>max\<close> of a list of clocks is the \<open>max\<close> over the range that holds them, in any order and with
  any repetitions, whenever one of them has all entries known (at least \<open>-1\<close>).\<close>

theorem ends_max_agree:
  assumes "ends_max_args cs = Some m" and "set ds = set cs" and "c \<in> set cs" and "zero_clock \<le> c"
  shows "ends_max_range ds = m"
proof (rule eq_by_upper_bounds)
  fix u
  have low: "Clock (-1) (-1) (-1) (-1) \<le> u" if "c \<le> u"
    using that assms(4) by (cases c; cases u) (auto simp: zero_clock_def)
  show "ends_max_range ds \<le> u \<longleftrightarrow> m \<le> u"
    using assms low by (auto simp: ends_max_range_le ends_max_args_le)
qed

theorem ends_max_agree_witness:
  "ends_max_range [Clock 1 5 0 2, Clock 3 4 1 2, Clock 1 5 0 2] = Clock 3 5 1 2"
  by (rule ends_max_agree [of "[Clock 3 4 1 2, Clock 1 5 0 2]" _ _ "Clock 3 4 1 2"])
    (auto simp: zero_clock_def)

section \<open>The shared clock\<close>

text \<open>
  \<open>shared\<close> is the volatile array of \<open>ClockManager\<close>.  \<open>incoming\<close> is the clock the receiving loop
  is writing, with the index it writes next; \<open>inbox\<close> what the connection will still deliver.
  \<open>copying\<close> is \<open>newc\<close> of a running \<open>updateClock\<close>, the entries copied so far and whether the next
  entry has passed the test for \<open>-1\<close>; the entry is read again after the test.  \<open>aborted\<close> records
  a failed assertion.
\<close>

record clock_state =
  shared :: "int list"
  incoming :: "(int list \<times> nat) option"
  inbox :: "clock list"
  copying :: "(int list \<times> bool) option"
  global_min :: clock
  aborted :: bool

definition initial_clock_state :: "clock list \<Rightarrow> clock_state" where
  "initial_clock_state msgs =
     \<lparr>shared = [0, 0, 0, 0], incoming = None, inbox = msgs, copying = None,
      global_min = Clock 0 0 0 0, aborted = False\<rparr>"

definition finish_update :: "int list \<Rightarrow> clock_state \<Rightarrow> clock_state" where
  "finish_update newc s =
     (case clock_of newc of
        None \<Rightarrow> s
      | Some c \<Rightarrow>
          if prec (global_min s) c = Some True
          then s\<lparr>global_min := c, copying := None\<rparr>
          else s\<lparr>aborted := True, copying := None\<rparr>)"

inductive clock_step :: "clock_state \<Rightarrow> clock_state \<Rightarrow> bool" where
  receive: "incoming s = None \<Longrightarrow> inbox s = c # cs \<Longrightarrow>
    clock_step s (s\<lparr>incoming := Some (entries c, 0), inbox := cs\<rparr>)"
| write_entry: "incoming s = Some (tmpclock, i) \<Longrightarrow> i < length tmpclock \<Longrightarrow>
    clock_step s (s\<lparr>shared := (shared s)[i := tmpclock ! i], incoming := Some (tmpclock, Suc i)\<rparr>)"
| written: "incoming s = Some (tmpclock, i) \<Longrightarrow> length tmpclock \<le> i \<Longrightarrow>
    clock_step s (s\<lparr>incoming := None\<rparr>)"
| start_update: "copying s = None \<Longrightarrow> \<not> aborted s \<Longrightarrow>
    clock_step s (s\<lparr>copying := Some ([], False)\<rparr>)"
| test_entry: "copying s = Some (newc, False) \<Longrightarrow> length newc < length (shared s) \<Longrightarrow>
    clock_step s (s\<lparr>copying := Some (newc, shared s ! length newc \<noteq> -1)\<rparr>)"
| read_entry: "copying s = Some (newc, True) \<Longrightarrow> length newc < length (shared s) \<Longrightarrow>
    clock_step s (s\<lparr>copying := Some (newc @ [shared s ! length newc], False)\<rparr>)"
| finish: "copying s = Some (newc, False) \<Longrightarrow> length newc = length (shared s) \<Longrightarrow>
    clock_step s (finish_update newc s)"

definition growing :: "clock \<Rightarrow> clock list \<Rightarrow> bool" where
  "growing c cs \<longleftrightarrow> sorted_wrt (\<le>) (c # cs)"

text \<open>The invariant: what is in the array is between the clock being written and the one before
  it, and whatever a transaction has copied is between its old clock and the array.\<close>

definition between :: "int list \<Rightarrow> int list \<Rightarrow> bool" where
  "between xs ys \<longleftrightarrow> length ys = 4 \<and> (\<forall>i < 4. xs ! i \<le> ys ! i)"

fun writing_inv :: "int list \<Rightarrow> clock list \<Rightarrow> (int list \<times> nat) option \<Rightarrow> bool" where
  "writing_inv sh msgs None = True"
| "writing_inv sh msgs (Some (tmp, k)) =
     (between sh tmp \<and> (\<forall>c \<in> set msgs. between tmp (entries c)))"

fun copying_inv :: "clock \<Rightarrow> int list \<Rightarrow> (int list \<times> bool) option \<Rightarrow> bool" where
  "copying_inv m sh None = True"
| "copying_inv m sh (Some (newc, t)) =
     (length newc \<le> 4 \<and> (\<forall>i < length newc. entries m ! i \<le> newc ! i \<and> newc ! i \<le> sh ! i))"

definition clock_inv :: "clock_state \<Rightarrow> bool" where
  "clock_inv s \<longleftrightarrow>
     \<not> aborted s \<and> zero_clock \<le> global_min s \<and> between (entries (global_min s)) (shared s) \<and>
     sorted_wrt (\<le>) (inbox s) \<and> (\<forall>c \<in> set (inbox s). between (shared s) (entries c)) \<and>
     writing_inv (shared s) (inbox s) (incoming s) \<and>
     copying_inv (global_min s) (shared s) (copying s)"

lemma between_trans: "between xs ys \<Longrightarrow> between ys zs \<Longrightarrow> between xs zs"
  by (auto simp: between_def intro: order_trans)

lemma between_entries: "between (entries a) (entries b) \<longleftrightarrow> a \<le> b"
  by (simp add: between_def less_eq_clock_entries)

lemma copying_inv_mono: "copying_inv m sh cp \<Longrightarrow> between sh sh' \<Longrightarrow> copying_inv m sh' cp"
  by (cases cp) (auto simp: between_def, meson less_le_trans order_trans)

lemma clock_inv_initial:
  "growing zero_clock msgs \<Longrightarrow> clock_inv (initial_clock_state msgs)"
proof -
  have z: "[0, 0, 0, 0] = entries zero_clock" "Clock 0 0 0 0 = zero_clock"
    by (simp_all add: zero_clock_def)
  show "growing zero_clock msgs \<Longrightarrow> clock_inv (initial_clock_state msgs)"
    unfolding clock_inv_def initial_clock_state_def z by (simp add: growing_def between_entries)
qed

lemma clock_inv_receive:
  "clock_inv s \<Longrightarrow> incoming s = None \<Longrightarrow> inbox s = c # cs \<Longrightarrow>
   clock_inv (s\<lparr>incoming := Some (entries c, 0), inbox := cs\<rparr>)"
  by (simp add: clock_inv_def between_entries)

lemma clock_inv_write_entry:
  assumes inv: "clock_inv s" and inc: "incoming s = Some (tmp, k)" and k: "k < length tmp"
  shows "clock_inv (s\<lparr>shared := (shared s)[k := tmp ! k], incoming := Some (tmp, Suc k)\<rparr>)"
proof -
  let ?sh = "(shared s)[k := tmp ! k]"
  have "between (entries (global_min s)) (shared s)" and "between (shared s) tmp"
    using inv inc by (auto simp: clock_inv_def)
  then have up: "between (shared s) ?sh" and below: "between ?sh tmp"
    using k by (auto simp: between_def nth_list_update)
  from inv inc show ?thesis
    unfolding clock_inv_def
    using up below between_trans [OF _ up] between_trans [OF below] copying_inv_mono [OF _ up]
    by auto
qed

lemma clock_inv_written:
  "clock_inv s \<Longrightarrow> clock_inv (s\<lparr>incoming := None\<rparr>)"
  by (simp add: clock_inv_def)

lemma clock_inv_copying:
  "clock_inv s \<Longrightarrow> length newc \<le> 4 \<Longrightarrow>
   (\<And>i. i < length newc \<Longrightarrow> entries (global_min s) ! i \<le> newc ! i \<and> newc ! i \<le> shared s ! i) \<Longrightarrow>
   clock_inv (s\<lparr>copying := Some (newc, t)\<rparr>)"
  by (auto simp: clock_inv_def)

lemma clock_inv_read_entry:
  assumes "clock_inv s" and "copying s = Some (newc, t)" and "length newc < length (shared s)"
  shows "clock_inv (s\<lparr>copying := Some (newc @ [shared s ! length newc], t')\<rparr>)"
  using assms by (intro clock_inv_copying) (auto simp: clock_inv_def between_def nth_append less_Suc_eq)

lemma clock_inv_finish:
  assumes inv: "clock_inv s" and cp: "copying s = Some (newc, t)" and len: "length newc = length (shared s)"
  shows "\<exists>c. finish_update newc s = s\<lparr>global_min := c, copying := None\<rparr> \<and> global_min s \<le> c \<and>
           clock_inv (finish_update newc s)"
proof -
  from inv len have "length newc = 4" by (simp add: clock_inv_def between_def)
  then obtain c where c: "clock_of newc = Some c" "entries c = newc" using clock_of_total by blast
  have le: "global_min s \<le> c" and low: "zero_clock \<le> global_min s"
    using inv cp c \<open>length newc = 4\<close> by (auto simp: clock_inv_def less_eq_clock_entries)
  then have "prec (global_min s) c = Some True"
    by (auto simp: prec_True_iff intro: known_mono order_trans)
  then have eq: "finish_update newc s = s\<lparr>global_min := c, copying := None\<rparr>"
    by (simp add: finish_update_def c)
  have "clock_inv (s\<lparr>global_min := c, copying := None\<rparr>)"
    using inv cp c le low \<open>length newc = 4\<close>
    by (auto simp: clock_inv_def between_def intro: order_trans)
  with eq le show ?thesis by metis
qed

lemma clock_inv_step: "clock_step s t \<Longrightarrow> clock_inv s \<Longrightarrow> clock_inv t \<and> global_min s \<le> global_min t"
proof (induction rule: clock_step.induct)
  case (start_update s)
  then show ?case using clock_inv_copying [of s "[]"] by simp
next
  case (test_entry s newc)
  then show ?case using clock_inv_copying [of s newc] by (auto simp: clock_inv_def)
next
  case (finish s newc)
  then obtain c where "finish_update newc s = s\<lparr>global_min := c, copying := None\<rparr>"
    "global_min s \<le> c" "clock_inv (finish_update newc s)"
    using clock_inv_finish by blast
  then show ?case by simp
qed (simp_all add: clock_inv_receive clock_inv_write_entry clock_inv_written clock_inv_read_entry)

lemma clock_inv_steps:
  "clock_step\<^sup>*\<^sup>* s t \<Longrightarrow> clock_inv s \<Longrightarrow> clock_inv t \<and> global_min s \<le> global_min t"
  by (induction rule: rtranclp_induct) (auto dest: clock_inv_step intro: order_trans)

text \<open>C31: if the clocks that arrive never go back, no interleaving of the
  receiving loop with \<open>updateClock\<close> trips the assertion of \<open>updateClock\<close>, although the copy may
  mix entries of several clocks, and the tracker's clock never goes back.\<close>

theorem update_clock_never_aborts:
  assumes "growing zero_clock msgs" and "clock_step\<^sup>*\<^sup>* (initial_clock_state msgs) s"
    and "clock_step\<^sup>*\<^sup>* s t"
  shows "\<not> aborted t \<and> global_min s \<le> global_min t"
proof -
  have "clock_inv s"
    using clock_inv_steps [OF assms(2) clock_inv_initial [OF assms(1)]] by simp
  then have "clock_inv t \<and> global_min s \<le> global_min t"
    using clock_inv_steps [OF assms(3)] by simp
  then show ?thesis by (simp add: clock_inv_def)
qed

text \<open>The witness is a torn copy: the first entry is read before the clock \<open>Clock 1 1 1 1\<close> is
  written and the others after it, so the tracker ends with a clock that nobody sent.\<close>

inductive_simps clock_step_simps: "clock_step s t"

definition torn :: "(int list \<times> nat) option \<Rightarrow> int list \<Rightarrow> clock list \<Rightarrow> (int list \<times> bool) option \<Rightarrow> clock_state" where
  "torn inc sh msgs cp =
     \<lparr>shared = sh, incoming = inc, inbox = msgs, copying = cp, global_min = Clock 0 0 0 0,
      aborted = False\<rparr>"

definition torn_end :: clock_state where
  "torn_end = (torn (Some ([1, 1, 1, 1], 4)) [1, 1, 1, 1] [] None)\<lparr>global_min := Clock 0 1 1 1\<rparr>"

lemma torn_run: "clock_step\<^sup>*\<^sup>* (initial_clock_state [Clock 1 1 1 1]) torn_end"
proof -
  let ?c = "[1, 1, 1, 1] :: int list"
  let ?run = "[torn None [0, 0, 0, 0] [Clock 1 1 1 1] None,
    torn None [0, 0, 0, 0] [Clock 1 1 1 1] (Some ([], False)),
    torn None [0, 0, 0, 0] [Clock 1 1 1 1] (Some ([], True)),
    torn None [0, 0, 0, 0] [Clock 1 1 1 1] (Some ([0], False)),
    torn (Some (?c, 0)) [0, 0, 0, 0] [] (Some ([0], False)),
    torn (Some (?c, 1)) [1, 0, 0, 0] [] (Some ([0], False)),
    torn (Some (?c, 2)) [1, 1, 0, 0] [] (Some ([0], False)),
    torn (Some (?c, 3)) [1, 1, 1, 0] [] (Some ([0], False)),
    torn (Some (?c, 4)) ?c [] (Some ([0], False)),
    torn (Some (?c, 4)) ?c [] (Some ([0], True)),
    torn (Some (?c, 4)) ?c [] (Some ([0, 1], False)),
    torn (Some (?c, 4)) ?c [] (Some ([0, 1], True)),
    torn (Some (?c, 4)) ?c [] (Some ([0, 1, 1], False)),
    torn (Some (?c, 4)) ?c [] (Some ([0, 1, 1], True)),
    torn (Some (?c, 4)) ?c [] (Some ([0, 1, 1, 1], False)), torn_end]"
  have start: "initial_clock_state [Clock 1 1 1 1] = hd ?run"
    by (simp add: initial_clock_state_def torn_def)
  have "successively clock_step ?run"
    by (simp add: clock_step_simps torn_def torn_end_def finish_update_def prec_def)
  from successively_rtranclp [OF this] show ?thesis unfolding start by simp
qed

theorem update_clock_never_aborts_witness:
  "\<not> aborted torn_end \<and> Clock 0 0 0 0 \<le> Clock 0 1 1 1"
  using update_clock_never_aborts [of "[Clock 1 1 1 1]" "initial_clock_state [Clock 1 1 1 1]" torn_end]
    torn_run
  by (simp add: growing_def zero_clock_def initial_clock_state_def torn_end_def torn_def)

end
