(* ===== verification/TestingStore.thy ===== *)
theory TestingStore
  imports Prelude "HOL-Library.Word"
begin

text \<open>
  Names, tombstones (\<open>tracker/Tombstone.hpp\<close>), the interface through which the tracker uses a
  store (\<open>DataStore.hpp\<close>, \<open>tracker/trackable_datastore_impl.hpp\<close>), and the in-memory store of
  the tests (\<open>testing_store/TestingStore.hpp\<close>) that implements it.

  The interface is a record of operations, the table of virtual functions of
  \<open>TrackableDataStore_super\<close>; the locale \<open>tombstone_store\<close> states what a store promises.  The
  container of the testing store, \<open>mutils::HeteroMap\<close>, is not in the repository: its operations are
  the parameters of the locale \<open>hetero_map\<close>, and a sublocale shows that any such container gives
  a store.
\<close>

section \<open>Names and tombstones\<close>

type_synonym Name = "64 word"

record tombstone =
  nonce :: "64 word"
  ip_addr :: "32 word"
  portno :: "32 word"

definition tombstone_name :: "tombstone \<Rightarrow> Name" where
  "tombstone_name t = nonce t"

definition tombstone_eq :: "tombstone \<Rightarrow> tombstone \<Rightarrow> bool" where
  "tombstone_eq a b \<longleftrightarrow> nonce a = nonce b \<and> ip_addr a = ip_addr b \<and> portno a = portno b"

definition tombstone_less :: "tombstone \<Rightarrow> tombstone \<Rightarrow> bool" where
  "tombstone_less a b \<longleftrightarrow> sint (nonce a) < sint (nonce b)"

lemma tombstone_eq_iff: "tombstone_eq a b \<longleftrightarrow> (a :: tombstone) = b"
  by (auto simp: tombstone_eq_def)

text \<open>Two tombstones are the same element of a \<open>std::set\<close> if neither is less: their nonces agree.\<close>

definition same_element :: "tombstone \<Rightarrow> tombstone \<Rightarrow> bool" where
  "same_element a b \<longleftrightarrow> \<not> tombstone_less a b \<and> \<not> tombstone_less b a"

lemma same_element_iff: "same_element a b \<longleftrightarrow> nonce a = nonce b"
proof -
  have "same_element a b \<longleftrightarrow> sint (nonce a) = sint (nonce b)"
    by (auto simp: same_element_def tombstone_less_def)
  then show ?thesis by (metis signed_word_eqI)
qed

section \<open>The interface of a store\<close>

datatype store_error = TombNameCollision | AssertionFailed | StoreFailure

record 's store_ops =
  exists_trk :: "'s \<Rightarrow> Name \<Rightarrow> bool"
  new_tomb_trk :: "'s \<Rightarrow> Name \<Rightarrow> tombstone \<Rightarrow> store_error + 's"
  tombstone_put :: "'s \<Rightarrow> Name \<Rightarrow> tombstone \<Rightarrow> store_error + 's"
  tombstone_get :: "'s \<Rightarrow> Name \<Rightarrow> store_error + tombstone"

text \<open>\<open>tombstone_put\<close> and \<open>tombstone_get\<close> stand for \<open>put\<close> and \<open>get_without_context\<close> on the handle
  that \<open>existing_tombstone_trk\<close> returns.\<close>

locale tombstone_store =
  fixes ops :: "'s store_ops"
  assumes new_exists: "new_tomb_trk ops s n t = Inr s' \<Longrightarrow> exists_trk ops s' k \<longleftrightarrow> k = n \<or> exists_trk ops s k"
    and put_exists: "tombstone_put ops s n t = Inr s' \<Longrightarrow> exists_trk ops s' k \<longleftrightarrow> k = n \<or> exists_trk ops s k"
    and new_get: "new_tomb_trk ops s n t = Inr s' \<Longrightarrow> tombstone_get ops s' k = (if k = n then Inr t else tombstone_get ops s k)"
    and put_get: "tombstone_put ops s n t = Inr s' \<Longrightarrow> tombstone_get ops s' k = (if k = n then Inr t else tombstone_get ops s k)"

text \<open>A store whose writes never fail, as one kept in memory.\<close>

locale total_tombstone_store = tombstone_store +
  assumes new_total: "\<exists>s'. new_tomb_trk ops s n t = Inr s'"
    and put_total: "\<exists>s'. tombstone_put ops s n t = Inr s'"

section \<open>The testing store\<close>

text \<open>The entry of the container under a name is a pointer to a shared pointer: each can be null.\<close>

datatype 'v cell = NullPtr | NullShared | Stored 'v

datatype 'v object = IntObj "32 word" | ListObj "'v list" | TombObj tombstone | Obj 'v

locale hetero_map =
  fixes contains :: "'m \<Rightarrow> Name \<Rightarrow> bool"
    and entry :: "'m \<Rightarrow> Name \<Rightarrow> 'v object cell"
    and assign :: "'m \<Rightarrow> Name \<Rightarrow> 'v object cell \<Rightarrow> 'm"
  assumes entry_assign: "entry (assign m n c) k = (if k = n then c else entry m k)"
    and contains_assign: "contains (assign m n c) k \<longleftrightarrow> k = n \<or> contains m k"

definition object_put :: "('m \<Rightarrow> Name \<Rightarrow> 'v object cell) \<Rightarrow> ('m \<Rightarrow> Name \<Rightarrow> 'v object cell \<Rightarrow> 'm) \<Rightarrow>
    'm \<Rightarrow> Name \<Rightarrow> 'v object \<Rightarrow> store_error + 'm" where
  "object_put entry assign m name t =
     (let m' = (case entry m name of
                  NullPtr \<Rightarrow> assign m name (Stored t)
                | NullShared \<Rightarrow> assign m name (Stored t)
                | Stored _ \<Rightarrow> assign m name (Stored t))
      in case entry m' name of
           NullPtr \<Rightarrow> Inl AssertionFailed
         | NullShared \<Rightarrow> Inl AssertionFailed
         | Stored _ \<Rightarrow> Inr m')"

text \<open>\<open>get\<close> dereferences the entry; there is nothing to dereference for a null one.\<close>

definition object_get :: "('m \<Rightarrow> Name \<Rightarrow> 'v object cell) \<Rightarrow> 'm \<Rightarrow> Name \<Rightarrow> store_error + 'v object" where
  "object_get entry m name =
     (case entry m name of NullPtr \<Rightarrow> Inl StoreFailure | NullShared \<Rightarrow> Inl StoreFailure | Stored v \<Rightarrow> Inr v)"

definition object_is_valid :: "('m \<Rightarrow> Name \<Rightarrow> bool) \<Rightarrow> 'm \<Rightarrow> Name \<Rightarrow> bool" where
  "object_is_valid contains m name = contains m name"

definition newObject :: "('m \<Rightarrow> Name \<Rightarrow> 'v object cell) \<Rightarrow> ('m \<Rightarrow> Name \<Rightarrow> 'v object cell \<Rightarrow> 'm) \<Rightarrow>
    'm \<Rightarrow> Name \<Rightarrow> 'v object \<Rightarrow> store_error + 'm \<times> Name" where
  "newObject entry assign m name init =
     (case object_put entry assign m name init of Inl e \<Rightarrow> Inl e | Inr m' \<Rightarrow> Inr (m', name))"

definition existingObject :: "'m \<Rightarrow> Name \<Rightarrow> Name" where
  "existingObject m name = name"

definition store_exists :: "('m \<Rightarrow> Name \<Rightarrow> bool) \<Rightarrow> 'm \<Rightarrow> Name \<Rightarrow> bool" where
  "store_exists contains m n = contains m n"

text \<open>\<open>create_new\<close> on a handle makes every object under the name 124.\<close>

definition create_new :: "('m \<Rightarrow> Name \<Rightarrow> 'v object cell) \<Rightarrow> ('m \<Rightarrow> Name \<Rightarrow> 'v object cell \<Rightarrow> 'm) \<Rightarrow>
    'm \<Rightarrow> 'v object \<Rightarrow> store_error + 'm \<times> Name" where
  "create_new entry assign m t = newObject entry assign m 124 t"

definition operation_append :: "('m \<Rightarrow> Name \<Rightarrow> 'v object cell) \<Rightarrow> ('m \<Rightarrow> Name \<Rightarrow> 'v object cell \<Rightarrow> 'm) \<Rightarrow>
    'm \<Rightarrow> Name \<Rightarrow> 'v \<Rightarrow> store_error + 'm" where
  "operation_append entry assign m hndl t =
     (case entry m hndl of
        Stored (ListObj lst) \<Rightarrow> Inr (assign m hndl (Stored (ListObj (lst @ [t]))))
      | _ \<Rightarrow> Inl StoreFailure)"

definition operation_consistent_read :: "('m \<Rightarrow> Name \<Rightarrow> 'v object cell) \<Rightarrow> 'm \<Rightarrow> Name \<Rightarrow> store_error + 'v object" where
  "operation_consistent_read entry m hndl = object_get entry m hndl"

definition operation_increment :: "('m \<Rightarrow> Name \<Rightarrow> 'v object cell) \<Rightarrow> ('m \<Rightarrow> Name \<Rightarrow> 'v object cell \<Rightarrow> 'm) \<Rightarrow>
    'm \<Rightarrow> Name \<Rightarrow> store_error + 'm" where
  "operation_increment entry assign m hndl =
     (case object_get entry m hndl of
        Inl e \<Rightarrow> Inl e
      | Inr (IntObj i) \<Rightarrow> object_put entry assign m hndl (IntObj (i + 1))
      | Inr _ \<Rightarrow> Inl StoreFailure)"

text \<open>The table of virtual functions that the tracker sees.\<close>

definition testing_ops :: "('m \<Rightarrow> Name \<Rightarrow> bool) \<Rightarrow> ('m \<Rightarrow> Name \<Rightarrow> 'v object cell) \<Rightarrow>
    ('m \<Rightarrow> Name \<Rightarrow> 'v object cell \<Rightarrow> 'm) \<Rightarrow> 'm store_ops" where
  "testing_ops contains entry assign =
     \<lparr>exists_trk = store_exists contains,
      new_tomb_trk = (\<lambda>m n t. case newObject entry assign m n (TombObj t) of
                                Inl e \<Rightarrow> Inl e | Inr (m', h) \<Rightarrow> Inr m'),
      tombstone_put = (\<lambda>m n t. object_put entry assign m (existingObject m n) (TombObj t)),
      tombstone_get = (\<lambda>m n. case object_get entry m (existingObject m n) of
                               Inl e \<Rightarrow> Inl e | Inr (TombObj t) \<Rightarrow> Inr t | Inr _ \<Rightarrow> Inl StoreFailure)\<rparr>"

subsection \<open>Objects of the testing store\<close>

context hetero_map
begin

lemma put_assign: "object_put entry assign m n t = Inr (assign m n (Stored t))"
  by (simp add: object_put_def Let_def entry_assign split: cell.splits)

lemma get_assign: "object_get entry (assign m n (Stored t)) k = (if k = n then Inr t else object_get entry m k)"
  by (simp add: object_get_def entry_assign)

lemma new_assign: "newObject entry assign m n t = Inr (assign m n (Stored t), n)"
  by (simp add: newObject_def put_assign)

end

sublocale hetero_map \<subseteq> total_tombstone_store "testing_ops contains entry assign"
  by unfold_locales
    (auto simp: testing_ops_def new_assign put_assign get_assign existingObject_def store_exists_def
      contains_assign)

text \<open>The container as a map: the instance on which the testing store runs in the witnesses.\<close>

definition map_contains :: "(Name \<rightharpoonup> 'c) \<Rightarrow> Name \<Rightarrow> bool" where
  "map_contains m n \<longleftrightarrow> m n \<noteq> None"

definition map_entry :: "(Name \<rightharpoonup> 'v object cell) \<Rightarrow> Name \<Rightarrow> 'v object cell" where
  "map_entry m n = (case m n of None \<Rightarrow> NullPtr | Some c \<Rightarrow> c)"

definition map_assign :: "(Name \<rightharpoonup> 'c) \<Rightarrow> Name \<Rightarrow> 'c \<Rightarrow> (Name \<rightharpoonup> 'c)" where
  "map_assign m n c = m(n \<mapsto> c)"

interpretation map_store: hetero_map map_contains map_entry map_assign
  by unfold_locales (auto simp: map_contains_def map_entry_def map_assign_def)

abbreviation map_ops :: "(Name \<rightharpoonup> 'v object cell) store_ops" where
  "map_ops \<equiv> testing_ops map_contains map_entry map_assign"

text \<open>Objects made by \<open>create_new\<close> are not new: all of them have the name 124, so the
  first of two such handles reads the value of the second.\<close>

theorem create_new_aliases:
  assumes "hetero_map contains entry assign"
    and "create_new entry assign m a = Inr (m1, h1)" and "create_new entry assign m1 b = Inr (m2, h2)"
  shows "h1 = h2 \<and> object_get entry m2 h1 = Inr b"
proof -
  note facts = hetero_map.new_assign [OF assms(1)] hetero_map.get_assign [OF assms(1)]
  from assms(2,3) show ?thesis by (auto simp: create_new_def facts)
qed

theorem create_new_aliases_witness:
  "\<exists>m1 h1 m2 h2. create_new map_entry map_assign Map.empty (IntObj 1 :: bool object) = Inr (m1, h1) \<and>
     create_new map_entry map_assign m1 (IntObj 2) = Inr (m2, h2) \<and> h1 = h2 \<and>
     object_get map_entry m2 h1 = Inr (IntObj 2)"
proof -
  let ?put = "\<lambda>m v. map_assign m 124 (Stored (IntObj v :: bool object))"
  have a: "create_new map_entry map_assign m (IntObj v :: bool object) = Inr (?put m v, 124)" for m v
    by (simp add: create_new_def map_store.new_assign)
  from create_new_aliases [OF map_store.hetero_map_axioms a a] a show ?thesis by blast
qed

end
