(* ===== verification/Tracker.thy ===== *)
theory Tracker
  imports Clock TestingStore "HOL-Library.Signed_Division"
begin

text \<open>
  The server side of the causality tracker (\<open>tracker/Tracker.cpp\<close>, \<open>Tracker.hpp\<close>,
  \<open>Tracker_private_declarations.hpp\<close>, \<open>find_tombstones.hpp\<close>) and the part of the transaction
  listener that drives it (\<open>server/transaction_listener.hpp\<close>).

  The tombstone that belongs to an object is stored under a metaname, the object's name times
  a prime above \<open>INT_MAX\<close>; the first section shows that metanames and names never meet and that
  the product stays within 64 bits.  A phase keeps the tombstones and timestamps it met in a
  tracking context.  Results are sums: the left values are the failed assertions and exceptions.

  The address \<open>get_ip()\<close> and the clocks that \<open>updateClock\<close> reads are arguments.  The interleavings of
  that read are in theory \<open>Clock\<close>.
\<close>

section \<open>Metanames\<close>

definition bigprime_lin :: "64 word" where
  "bigprime_lin = 2147483659"

definition is_metaname :: "64 word \<Rightarrow> Name \<Rightarrow> bool" where
  "is_metaname base name \<longleftrightarrow> 0 < sint name \<and> sint name smod sint base = 0"

text \<open>\<open>make_metaname\<close>, with its five assertions in order.\<close>

definition make_metaname :: "64 word \<Rightarrow> Name \<Rightarrow> Name option" where
  "make_metaname base name =
     (if \<not> sint (2147483647 * base) > 0 then None
      else if \<not> sint name \<le> 2147483647 then None
      else if \<not> sint name > 0 then None
      else if is_metaname base name then None
      else let cand = name * base
           in if \<not> sint cand > 0 then None
              else if \<not> is_metaname base cand then None
              else Some cand)"

definition is_lin_metadata :: "Name \<Rightarrow> bool" where
  "is_lin_metadata name = is_metaname bigprime_lin name"

definition make_lin_metaname :: "Name \<Rightarrow> Name option" where
  "make_lin_metaname name = make_metaname bigprime_lin name"

definition object_name :: "Name \<Rightarrow> bool" where
  "object_name n \<longleftrightarrow> 0 < sint n \<and> sint n \<le> 2147483647"

lemma sint_mult_no_overflow:
  fixes a b :: "64 word"
  assumes "-(2 ^ 63) \<le> sint a * sint b" and "sint a * sint b < 2 ^ 63"
  shows "sint (a * b) = sint a * sint b"
proof -
  have "sint (a * b) = signed_take_bit 63 (sint a * sint b)"
    by (simp add: signed_take_bit_int_eq_self_iff sint_word_ariths)
  also have "\<dots> = sint a * sint b"
    using assms by (simp add: signed_take_bit_int_eq_self_iff)
  finally show ?thesis .
qed

lemma sint_bigprime [simp]: "sint bigprime_lin = 2147483659"
  by (simp add: bigprime_lin_def)

lemma sint_metaname:
  assumes "object_name n"
  shows "sint (n * bigprime_lin) = sint n * 2147483659"
proof -
  have "sint n * sint bigprime_lin \<le> 2147483647 * 2147483659" and "0 \<le> sint n * sint bigprime_lin"
    using assms by (auto simp: object_name_def)
  then show ?thesis using sint_mult_no_overflow [of n bigprime_lin] by simp
qed

lemma metaname_above: "object_name n \<Longrightarrow> 2147483659 \<le> sint (n * bigprime_lin)"
  by (simp add: sint_metaname) (simp add: object_name_def)

lemma object_name_not_metadata: "object_name n \<Longrightarrow> \<not> is_lin_metadata n"
  by (simp add: object_name_def is_lin_metadata_def is_metaname_def signed_modulo_int_def)

lemma metaname_is_metadata: "object_name n \<Longrightarrow> is_lin_metadata (n * bigprime_lin)"
  using metaname_above [of n]
  by (simp add: is_lin_metadata_def is_metaname_def sint_metaname signed_modulo_int_def object_name_def)

lemma make_lin_metaname_eq: "object_name n \<Longrightarrow> make_lin_metaname n = Some (n * bigprime_lin)"
  using object_name_not_metadata [of n] metaname_is_metadata [of n] metaname_above [of n]
  by (simp add: make_lin_metaname_def make_metaname_def is_lin_metadata_def object_name_def
      bigprime_lin_def)

lemma make_lin_metaname_Some_iff: "make_lin_metaname n = Some m \<longleftrightarrow> object_name n \<and> m = n * bigprime_lin"
proof
  assume m: "make_lin_metaname n = Some m"
  then have "object_name n"
    by (auto simp: make_lin_metaname_def make_metaname_def object_name_def Let_def split: if_splits)
  with m show "object_name n \<and> m = n * bigprime_lin" by (simp add: make_lin_metaname_eq)
qed (simp add: make_lin_metaname_eq)

lemma metaname_inject:
  "object_name n \<Longrightarrow> object_name k \<Longrightarrow> n * bigprime_lin = k * bigprime_lin \<longleftrightarrow> n = k"
  by (metis mult_cancel_right sint_metaname signed_word_eqI zero_neq_numeral)

text \<open>C33: \<open>make_lin_metaname\<close> accepts exactly the names from 1 to \<open>INT_MAX\<close>; for those its
  assertions hold, the product does not wrap around, is recognised as metadata and is the name
  of no object, and different objects have different metanames.\<close>

theorem metanames_sound:
  "make_lin_metaname n = Some m \<longleftrightarrow>
     0 < sint n \<and> sint n \<le> 2147483647 \<and> sint m = sint n * 2147483659 \<and>
     is_lin_metadata m \<and> \<not> is_lin_metadata n \<and> \<not> object_name m"
proof
  assume "make_lin_metaname n = Some m"
  then have n: "object_name n" and m: "m = n * bigprime_lin"
    by (simp_all add: make_lin_metaname_Some_iff)
  then show "0 < sint n \<and> sint n \<le> 2147483647 \<and> sint m = sint n * 2147483659 \<and>
     is_lin_metadata m \<and> \<not> is_lin_metadata n \<and> \<not> object_name m"
    using metaname_above [OF n] metaname_is_metadata [OF n] object_name_not_metadata [OF n]
    by (auto simp: object_name_def sint_metaname)
next
  assume r: "0 < sint n \<and> sint n \<le> 2147483647 \<and> sint m = sint n * 2147483659 \<and>
     is_lin_metadata m \<and> \<not> is_lin_metadata n \<and> \<not> object_name m"
  then have n: "object_name n" by (simp add: object_name_def)
  with r have "m = n * bigprime_lin" by (metis sint_metaname signed_word_eqI)
  with n show "make_lin_metaname n = Some m" by (simp add: make_lin_metaname_Some_iff)
qed

section \<open>The state of the tracker\<close>

record tracker_state =
  encountered_tombstones :: "tombstone list option"
  min_clock :: clock
  recent_clock :: clock
  persistent_datastore :: bool

record tracking_context =
  pending_nonces :: "tombstone list option"
  newer_objects :: "clock list"
  store_context :: bool

definition new_tracker :: tracker_state where
  "new_tracker = \<lparr>encountered_tombstones = Some [], min_clock = Clock 0 0 0 0,
                  recent_clock = Clock 0 0 0 0, persistent_datastore = False\<rparr>"

definition update_clock :: "clock \<Rightarrow> tracker_state \<Rightarrow> store_error + tracker_state" where
  "update_clock newc trk =
     (if prec (min_clock trk) newc = Some True then Inr (trk\<lparr>min_clock := newc\<rparr>)
      else Inl AssertionFailed)"

definition set_persistent_store :: "tracker_state \<Rightarrow> tracker_state" where
  "set_persistent_store trk = trk\<lparr>persistent_datastore := True\<rparr>"

text \<open>The constructor of a phase context updates the clock and starts with no store context.\<close>

definition generate_context :: "clock \<Rightarrow> tracker_state \<Rightarrow> store_error + tracker_state \<times> tracking_context" where
  "generate_context newc trk =
     (case update_clock newc trk of
        Inl e \<Rightarrow> Inl e
      | Inr trk' \<Rightarrow> Inr (trk', \<lparr>pending_nonces = Some [], newer_objects = [], store_context = False\<rparr>))"

definition commit_context :: "tracking_context \<Rightarrow> tracker_state \<Rightarrow> store_error + tracker_state \<times> tracking_context" where
  "commit_context ctx trk =
     (if encountered_tombstones trk = None \<or> encountered_tombstones trk = Some []
      then Inr (trk\<lparr>encountered_tombstones := pending_nonces ctx,
                    recent_clock := ends_max (recent_clock trk) (ends_max_range (newer_objects ctx))\<rparr>,
                ctx\<lparr>pending_nonces := None\<rparr>)
      else Inl AssertionFailed)"

definition all_encountered_tombstones :: "tracker_state \<Rightarrow> store_error + tombstone list" where
  "all_encountered_tombstones trk =
     (case encountered_tombstones trk of None \<Rightarrow> Inl AssertionFailed | Some ts \<Rightarrow> Inr ts)"

definition clear_encountered_tombstones :: "tracker_state \<Rightarrow> tracker_state" where
  "clear_encountered_tombstones trk = trk\<lparr>encountered_tombstones := Some []\<rparr>"

definition record_timestamp :: "clock \<Rightarrow> tracking_context \<Rightarrow> tracking_context" where
  "record_timestamp s ctx = ctx\<lparr>newer_objects := newer_objects ctx @ [s]\<rparr>"

section \<open>Tombstones of objects\<close>

definition check_for_tombstones :: "'s store_ops \<Rightarrow> 's \<Rightarrow> Name \<Rightarrow> tracking_context \<Rightarrow> store_error + tracking_context" where
  "check_for_tombstones ops ds name ctx =
     (if name = 1 then Inl AssertionFailed
      else if \<not> store_context ctx then Inl AssertionFailed
      else if is_lin_metadata name then Inr ctx
      else case make_lin_metaname name of
             None \<Rightarrow> Inl AssertionFailed
           | Some ts \<Rightarrow>
               if \<not> exists_trk ops ds ts then Inr ctx
               else case tombstone_get ops ds ts of
                      Inl e \<Rightarrow> Inl e
                    | Inr tomb \<Rightarrow>
                        (case pending_nonces ctx of
                           None \<Rightarrow> Inl AssertionFailed
                         | Some ps \<Rightarrow> Inr (ctx\<lparr>pending_nonces := Some (ps @ [tomb])\<rparr>)))"

definition write_tombstone :: "'s store_ops \<Rightarrow> 32 word \<Rightarrow> bool \<Rightarrow> bool \<Rightarrow> 's \<Rightarrow> 64 word \<Rightarrow> store_error + 's" where
  "write_tombstone ops ip has_ctx persistent ds n =
     (let t = \<lparr>nonce = n, ip_addr = ip, portno = 0\<rparr>
      in if \<not> (has_ctx \<or> persistent) then Inl AssertionFailed
         else if exists_trk ops ds (tombstone_name t) then Inl TombNameCollision
         else new_tomb_trk ops ds (tombstone_name t) t)"

definition write_lin_metadata :: "'s store_ops \<Rightarrow> 32 word \<Rightarrow> bool \<Rightarrow> Name \<Rightarrow> 64 word \<Rightarrow> 's \<Rightarrow> store_error + 's" where
  "write_lin_metadata ops ip has_ctx name n ds =
     (if \<not> has_ctx then Inl AssertionFailed
      else case make_lin_metaname name of
             None \<Rightarrow> Inl AssertionFailed
           | Some meta_name \<Rightarrow>
               if exists_trk ops ds meta_name
               then tombstone_put ops ds meta_name \<lparr>nonce = n, ip_addr = ip, portno = 0\<rparr>
               else new_tomb_trk ops ds meta_name \<lparr>nonce = n, ip_addr = ip, portno = 0\<rparr>)"

text \<open>Up to ten attempts while the write collides; \<open>Inr None\<close> is \<open>always_failed\<close>.\<close>

fun retry_write :: "nat \<Rightarrow> ('s \<Rightarrow> store_error + 's) \<Rightarrow> 's \<Rightarrow> store_error + 's option" where
  "retry_write 0 f ds = Inr None"
| "retry_write (Suc k) f ds =
     (case f ds of
        Inr ds' \<Rightarrow> Inr (Some ds')
      | Inl TombNameCollision \<Rightarrow> retry_write k f ds
      | Inl e \<Rightarrow> Inl e)"

definition accompany_write :: "'s store_ops \<Rightarrow> 32 word \<Rightarrow> bool \<Rightarrow> Name \<Rightarrow> 64 word \<Rightarrow> 's \<Rightarrow> store_error + 's" where
  "accompany_write ops ip has_ctx name n ds =
     (if \<not> has_ctx then Inl AssertionFailed
      else if is_lin_metadata name then Inr ds
      else let sub = write_lin_metadata ops ip has_ctx name n
           in case retry_write 10 sub ds of
                Inl e \<Rightarrow> Inl e
              | Inr None \<Rightarrow> (case sub ds of Inl e \<Rightarrow> Inl e | Inr _ \<Rightarrow> Inl AssertionFailed)
              | Inr (Some ds') \<Rightarrow>
                  (case make_lin_metaname name of
                     None \<Rightarrow> Inl AssertionFailed
                   | Some meta_name \<Rightarrow>
                       if exists_trk ops ds' meta_name then Inr ds' else Inl AssertionFailed))"

subsection \<open>A write and the reads that follow it\<close>

context tombstone_store
begin

lemma write_then_check:
  assumes n: "object_name n" "n \<noteq> 1"
    and w: "accompany_write ops ip has_ctx n nc ds = Inr ds'"
    and c: "store_context ctx" "pending_nonces ctx = Some ps"
  shows "check_for_tombstones ops ds' n ctx =
           Inr (ctx\<lparr>pending_nonces := Some (ps @ [\<lparr>nonce = nc, ip_addr = ip, portno = 0\<rparr>])\<rparr>)"
proof -
  let ?m = "n * bigprime_lin"
  let ?t = "\<lparr>nonce = nc, ip_addr = ip, portno = 0\<rparr>"
  have stored: "write_lin_metadata ops ip True n nc d = Inr d' \<Longrightarrow>
      exists_trk ops d' ?m \<and> tombstone_get ops d' ?m = Inr ?t" for d d'
    using new_exists put_exists new_get put_get
    by (auto simp: write_lin_metadata_def make_lin_metaname_eq n split: if_splits)
  have retry: "retry_write k (write_lin_metadata ops ip True n nc) d = Inr (Some d') \<Longrightarrow>
      exists_trk ops d' ?m \<and> tombstone_get ops d' ?m = Inr ?t" for k d d'
    by (induction k) (auto dest: stored split: sum.splits store_error.splits)
  from w have "exists_trk ops ds' ?m" "tombstone_get ops ds' ?m = Inr ?t"
    by (auto simp: accompany_write_def Let_def object_name_not_metadata n make_lin_metaname_eq
        split: if_splits sum.splits option.splits dest: retry)
  with n c show ?thesis
    by (simp add: check_for_tombstones_def object_name_not_metadata make_lin_metaname_eq)
qed

lemma write_elsewhere:
  assumes n: "object_name n" and k: "object_name k" "k \<noteq> n"
    and w: "accompany_write ops ip has_ctx n nc ds = Inr ds'"
  shows "check_for_tombstones ops ds' k ctx = check_for_tombstones ops ds k ctx"
proof -
  let ?m = "n * bigprime_lin" and ?k = "k * bigprime_lin"
  have neq: "?k \<noteq> ?m" using metaname_inject [OF k(1) n] k(2) by simp
  have stored: "write_lin_metadata ops ip True n nc d = Inr d' \<Longrightarrow>
      (exists_trk ops d' ?k \<longleftrightarrow> exists_trk ops d ?k) \<and> tombstone_get ops d' ?k = tombstone_get ops d ?k" for d d'
    using new_exists put_exists new_get put_get neq
    by (auto simp: write_lin_metadata_def make_lin_metaname_eq n split: if_splits)
  have retry: "retry_write j (write_lin_metadata ops ip True n nc) ds = Inr (Some d') \<Longrightarrow>
      (exists_trk ops d' ?k \<longleftrightarrow> exists_trk ops ds ?k) \<and> tombstone_get ops d' ?k = tombstone_get ops ds ?k" for j d'
    by (induction j) (auto dest: stored split: sum.splits store_error.splits)
  from w have "exists_trk ops ds' ?k \<longleftrightarrow> exists_trk ops ds ?k" "tombstone_get ops ds' ?k = tombstone_get ops ds ?k"
    by (auto simp: accompany_write_def Let_def object_name_not_metadata n make_lin_metaname_eq
        split: if_splits sum.splits option.splits dest: retry)
  with k show ?thesis
    by (simp add: check_for_tombstones_def object_name_not_metadata make_lin_metaname_eq)
qed

end

context total_tombstone_store
begin

lemma accompany_write_total:
  assumes "object_name n"
  shows "\<exists>ds'. accompany_write ops ip True n nc ds = Inr ds'"
proof -
  let ?m = "n * bigprime_lin"
  have "\<exists>d. write_lin_metadata ops ip True n nc ds = Inr d \<and> exists_trk ops d ?m"
    using new_total [of ds ?m] put_total [of ds ?m] new_exists put_exists
    by (auto simp: write_lin_metadata_def make_lin_metaname_eq assms) blast+
  then obtain d where "write_lin_metadata ops ip True n nc ds = Inr d" and "exists_trk ops d ?m"
    by blast
  then show ?thesis
    by (simp add: accompany_write_def object_name_not_metadata make_lin_metaname_eq assms
        numeral_eq_Suc)
qed

end

context hetero_map
begin

lemma testing_write_seen:
  assumes n: "object_name n" "n \<noteq> 1" and k: "object_name k" "k \<noteq> n"
    and c: "store_context ctx" "pending_nonces ctx = Some ps"
  shows "\<exists>ds'. accompany_write (testing_ops contains entry assign) ip True n nc ds = Inr ds' \<and>
           check_for_tombstones (testing_ops contains entry assign) ds' n ctx =
             Inr (ctx\<lparr>pending_nonces := Some (ps @ [\<lparr>nonce = nc, ip_addr = ip, portno = 0\<rparr>])\<rparr>) \<and>
           check_for_tombstones (testing_ops contains entry assign) ds' k ctx =
             check_for_tombstones (testing_ops contains entry assign) ds k ctx"
  using accompany_write_total [OF n(1), of ip nc ds] write_then_check [OF n _ c] write_elsewhere [OF n(1) k]
  by blast

end

text \<open>C32: on the testing store, over any container that behaves as a map, the
  tombstone that accompanies a write is stored, a later read of the same object adds exactly
  that tombstone to its context, and reads of other objects are not affected.\<close>

theorem tracked_write_is_seen:
  assumes "hetero_map contains entry assign"
    and "object_name n" and "n \<noteq> 1" and "object_name k" and "k \<noteq> n"
    and "store_context ctx" and "pending_nonces ctx = Some ps"
  shows "\<exists>ds'. accompany_write (testing_ops contains entry assign) ip True n nc ds = Inr ds' \<and>
           check_for_tombstones (testing_ops contains entry assign) ds' n ctx =
             Inr (ctx\<lparr>pending_nonces := Some (ps @ [\<lparr>nonce = nc, ip_addr = ip, portno = 0\<rparr>])\<rparr>) \<and>
           check_for_tombstones (testing_ops contains entry assign) ds' k ctx =
             check_for_tombstones (testing_ops contains entry assign) ds k ctx"
  using hetero_map.testing_write_seen [OF assms] .

theorem tracked_write_is_seen_witness:
  "\<exists>ds'. accompany_write (map_ops :: (Name \<rightharpoonup> bool object cell) store_ops) 127 True 5 42 Map.empty = Inr ds' \<and>
     check_for_tombstones map_ops ds' 5 \<lparr>pending_nonces = Some [], newer_objects = [], store_context = True\<rparr> =
       Inr \<lparr>pending_nonces = Some [\<lparr>nonce = 42, ip_addr = 127, portno = 0\<rparr>], newer_objects = [], store_context = True\<rparr>"
  using tracked_write_is_seen [OF map_store.hetero_map_axioms, of 5 6
      "\<lparr>pending_nonces = Some [], newer_objects = [], store_context = True\<rparr>" "[]" 127 42 Map.empty]
  by (auto simp: object_name_def)

section \<open>Waiting for tombstones\<close>

text \<open>\<open>find_tombstones\<close> polls the store until the tombstone is there; the store at the \<open>i\<close>-th poll is
  \<open>env i\<close>, as other clients change it meanwhile.  The loop may run forever.  It returns the number of
  the successful poll and the back-off that the next sleep would have used, in 64-bit
  milliseconds; the overflow of the signed count, undefined in C++, is taken to wrap.\<close>

partial_function (option) find_tombstone ::
    "'s store_ops \<Rightarrow> (nat \<Rightarrow> 's) \<Rightarrow> tombstone \<Rightarrow> nat \<Rightarrow> 64 word \<Rightarrow> (nat \<times> 64 word) option" where
  "find_tombstone ops env t i sleep_for =
     (if exists_trk ops (env i) (tombstone_name t) then Some (i, sleep_for)
      else find_tombstone ops env t (Suc i) (sleep_for * 2))"

fun find_tombstones :: "'s store_ops \<Rightarrow> (nat \<Rightarrow> 's) \<Rightarrow> tombstone list \<Rightarrow> nat \<Rightarrow> nat option" where
  "find_tombstones ops env [] i = Some i"
| "find_tombstones ops env (t # ts) i =
     (case find_tombstone ops env t i 1 of
        None \<Rightarrow> None
      | Some (j, _) \<Rightarrow> find_tombstones ops env ts j)"

lemma find_tombstone_finds:
  "exists_trk ops (env (i + d)) (tombstone_name t) \<Longrightarrow>
   \<exists>e \<le> d. find_tombstone ops env t i w = Some (i + e, w * 2 ^ e) \<and>
           exists_trk ops (env (i + e)) (tombstone_name t)"
proof (induction d arbitrary: i w)
  case 0
  then show ?case by (simp add: find_tombstone.simps)
next
  case (Suc d)
  show ?case
  proof (cases "exists_trk ops (env i) (tombstone_name t)")
    case True
    then show ?thesis by (intro exI [of _ 0]) (simp add: find_tombstone.simps)
  next
    case False
    from Suc.prems have "exists_trk ops (env (Suc i + d)) (tombstone_name t)" by simp
    from Suc.IH [OF this, of "w * 2"] obtain e where "e \<le> d"
      "find_tombstone ops env t (Suc i) (w * 2) = Some (Suc i + e, w * 2 * 2 ^ e)"
      "exists_trk ops (env (Suc i + e)) (tombstone_name t)" by blast
    with False show ?thesis
      by (intro exI [of _ "Suc e"]) (simp add: find_tombstone.simps [of ops env t i] mult.assoc)
  qed
qed

text \<open>C37: if every tombstone of the list is written at some time and tombstones are never
  deleted, the wait ends, at a time when all of them are in the store.\<close>

theorem find_tombstones_returns:
  assumes "\<forall>t \<in> set ts. \<exists>j. exists_trk ops (env j) (tombstone_name t)"
    and "\<forall>j k n. j \<le> k \<longrightarrow> exists_trk ops (env j) n \<longrightarrow> exists_trk ops (env k) n"
  shows "\<exists>j \<ge> i. find_tombstones ops env ts i = Some j \<and>
           (\<forall>t \<in> set ts. exists_trk ops (env j) (tombstone_name t))"
  using assms(1)
proof (induction ts arbitrary: i)
  case (Cons t ts)
  then obtain j where "exists_trk ops (env j) (tombstone_name t)" by auto
  then have "exists_trk ops (env (i + j)) (tombstone_name t)" using assms(2) le_add2 by blast
  from find_tombstone_finds [of ops env i j t 1, OF this] obtain e where e: "exists_trk ops (env (i + e)) (tombstone_name t)"
    "find_tombstone ops env t i 1 = Some (i + e, 2 ^ e)" by auto
  from Cons obtain k where k: "i + e \<le> k" "find_tombstones ops env ts (i + e) = Some k"
    "\<forall>t \<in> set ts. exists_trk ops (env k) (tombstone_name t)" by (metis list.set_intros(2))
  then show ?case using e assms(2) by (intro exI [of _ k]) auto
qed auto

theorem find_tombstones_returns_witness:
  "\<exists>j \<ge> 0. find_tombstones map_ops (\<lambda>i. if i < 3 then Map.empty else [7 \<mapsto> NullShared :: bool object cell])
       [\<lparr>nonce = 7, ip_addr = 0, portno = 0\<rparr>] 0 = Some j \<and>
     (\<forall>t \<in> {\<lparr>nonce = 7, ip_addr = 0, portno = 0\<rparr>}.
        exists_trk map_ops (if j < 3 then Map.empty else [7 \<mapsto> NullShared :: bool object cell]) (tombstone_name t))"
  using find_tombstones_returns [of "[\<lparr>nonce = 7, ip_addr = 0, portno = 0\<rparr>]" map_ops
      "\<lambda>i. if i < 3 then Map.empty else [7 \<mapsto> NullShared :: bool object cell]" 0]
  by (fastforce simp: testing_ops_def store_exists_def map_contains_def tombstone_name_def split: if_splits)

lemma find_tombstone_backoff:
  "find_tombstone ops env t i w = Some r \<Longrightarrow> i \<le> fst r \<and> snd r = w * 2 ^ (fst r - i)"
proof (rule find_tombstone.raw_induct [of "\<lambda>ops env t i w r. i \<le> fst r \<and> snd r = w * 2 ^ (fst r - i)"])
  fix find :: "'s store_ops \<Rightarrow> (nat \<Rightarrow> 's) \<Rightarrow> tombstone \<Rightarrow> nat \<Rightarrow> 64 word \<Rightarrow> (nat \<times> 64 word) option"
    and ops env t i w r
  assume IH: "\<And>ops env t i w r. find ops env t i w = Some r \<Longrightarrow> i \<le> fst r \<and> snd r = w * 2 ^ (fst r - i)"
    and step: "(if exists_trk ops (env i) (tombstone_name t) then Some (i, w)
                else find ops env t (Suc i) (w * 2)) = Some r"
  show "i \<le> fst r \<and> snd r = w * 2 ^ (fst r - i)"
  proof (cases "exists_trk ops (env i) (tombstone_name t)")
    case False
    with IH step have "Suc i \<le> fst r \<and> snd r = w * 2 * 2 ^ (fst r - Suc i)" by simp
    moreover from this have "(2 :: 64 word) ^ (fst r - i) = 2 * 2 ^ (fst r - Suc i)"
      by (simp add: Suc_diff_Suc Suc_le_eq flip: power_Suc)
    ultimately show ?thesis by (simp add: mult.assoc)
  qed (use step in auto)
qed

text \<open>The back-off of \<open>find_tombstones\<close> doubles without bound before it is compared with the
  maximal sleep of one minute, so from the 64th poll on it is 0 and the wait is a busy loop.\<close>

theorem backoff_overflows:
  assumes "find_tombstone ops env t i 1 = Some (j, sleep_for)" and "64 \<le> j - i"
  shows "sleep_for = 0"
  using find_tombstone_backoff [OF assms(1)] assms(2) by simp

definition late_store :: "nat \<Rightarrow> (Name \<rightharpoonup> bool object cell)" where
  "late_store i = (if i < 64 then Map.empty else [7 \<mapsto> NullShared])"

theorem backoff_overflows_witness:
  "\<exists>w. find_tombstone map_ops late_store \<lparr>nonce = 7, ip_addr = 0, portno = 0\<rparr> 0 1 = Some (64, w) \<and> w = 0"
proof -
  let ?env = late_store
  let ?t = "\<lparr>nonce = 7, ip_addr = 0, portno = 0\<rparr>"
  have ex: "exists_trk map_ops (?env i) (tombstone_name ?t) \<longleftrightarrow> 64 \<le> i" for i
    by (auto simp: late_store_def testing_ops_def store_exists_def map_contains_def tombstone_name_def)
  have "exists_trk map_ops (?env (0 + 64)) (tombstone_name ?t)" by (simp add: ex)
  from find_tombstone_finds [of map_ops ?env 0 64 ?t 1, OF this] obtain e where
    e: "e \<le> 64" "find_tombstone map_ops ?env ?t 0 1 = Some (0 + e, 1 * 2 ^ e)"
    and "exists_trk map_ops (?env (0 + e)) (tombstone_name ?t)" by (elim exE conjE) simp
  then have "e = 64" by (simp add: ex)
  with e(2) have "find_tombstone map_ops ?env ?t 0 1 = Some (64, 2 ^ 64)" by (simp only: add_0 mult_1)
  moreover from this have "(2 :: 64 word) ^ 64 = 0" by (rule backoff_overflows) simp
  ultimately show ?thesis by metis
qed

section \<open>Committing a context\<close>

text \<open>C36: committing a context moves its tombstones to the tracker, and the tracker's recent clock
  becomes the least clock that is above the old one and above every timestamp the context recorded.\<close>

theorem commit_context_least:
  assumes "commit_context ctx trk = Inr (trk', ctx')" and "zero_clock \<le> recent_clock trk"
  shows "encountered_tombstones trk' = pending_nonces ctx \<and> min_clock trk' = min_clock trk \<and>
         recent_clock trk \<le> recent_clock trk' \<and> (\<forall>c \<in> set (newer_objects ctx). c \<le> recent_clock trk') \<and>
         (\<forall>u. recent_clock trk \<le> u \<and> (\<forall>c \<in> set (newer_objects ctx). c \<le> u) \<longrightarrow> recent_clock trk' \<le> u)"
proof -
  have "recent_clock trk' = sup (recent_clock trk) (ends_max_range (newer_objects ctx))"
    and rest: "encountered_tombstones trk' = pending_nonces ctx" "min_clock trk' = min_clock trk"
    using assms(1) by (auto simp: commit_context_def clock_simps split: if_splits)
  then have "recent_clock trk' \<le> u \<longleftrightarrow> recent_clock trk \<le> u \<and> (\<forall>c \<in> set (newer_objects ctx). c \<le> u)" for u
    using sup_ends_max_range_le [OF assms(2)] by simp
  from this [of "recent_clock trk'"] this rest show ?thesis by blast
qed

theorem commit_context_least_witness:
  "\<exists>trk' ctx'. commit_context \<lparr>pending_nonces = Some [], newer_objects = [Clock 1 5 0 2, Clock 3 4 1 2], store_context = True\<rparr>
     new_tracker = Inr (trk', ctx') \<and> Clock 1 5 0 2 \<le> recent_clock trk'"
proof -
  let ?ctx = "\<lparr>pending_nonces = Some [], newer_objects = [Clock 1 5 0 2, Clock 3 4 1 2], store_context = True\<rparr>"
  obtain trk' ctx' where c: "commit_context ?ctx new_tracker = Inr (trk', ctx')"
    by (simp add: commit_context_def new_tracker_def)
  have "zero_clock \<le> recent_clock new_tracker" by (simp add: new_tracker_def zero_clock_def)
  from commit_context_least [OF c this] c show ?thesis by fastforce
qed

section \<open>A session of the transaction listener\<close>

text \<open>What a phase does that concerns the tracker: reads of remote objects (\<open>read_tracking_actions\<close>, after the
  handle has opened the store context), writes with their accompanying tombstone, and
  tombstones of its own.\<close>

datatype access = ReadRemote Name clock | WriteRemote Name "64 word" | WriteTombstone "64 word"

fun run_access :: "'s store_ops \<Rightarrow> 32 word \<Rightarrow> tracker_state \<Rightarrow> access \<Rightarrow> tracking_context \<times> 's \<Rightarrow>
    store_error + tracking_context \<times> 's" where
  "run_access ops ip trk (ReadRemote n ts) (ctx, ds) =
     (case check_for_tombstones ops ds n (ctx\<lparr>store_context := True\<rparr>) of
        Inl e \<Rightarrow> Inl e
      | Inr ctx' \<Rightarrow> Inr (record_timestamp ts ctx', ds))"
| "run_access ops ip trk (WriteRemote n nc) (ctx, ds) =
     (case accompany_write ops ip True n nc ds of
        Inl e \<Rightarrow> Inl e
      | Inr ds' \<Rightarrow> Inr (ctx\<lparr>store_context := True\<rparr>, ds'))"
| "run_access ops ip trk (WriteTombstone nc) (ctx, ds) =
     (case write_tombstone ops ip (store_context ctx) (persistent_datastore trk) ds nc of
        Inl e \<Rightarrow> Inl e
      | Inr ds' \<Rightarrow> Inr (ctx\<lparr>store_context := True\<rparr>, ds'))"

fun run_accesses :: "'s store_ops \<Rightarrow> 32 word \<Rightarrow> tracker_state \<Rightarrow> access list \<Rightarrow> tracking_context \<times> 's \<Rightarrow>
    store_error + tracking_context \<times> 's" where
  "run_accesses ops ip trk [] st = Inr st"
| "run_accesses ops ip trk (a # as) st =
     (case run_access ops ip trk a st of Inl e \<Rightarrow> Inl e | Inr st' \<Rightarrow> run_accesses ops ip trk as st')"

text \<open>\<open>common_interp\<close>: each attempt runs the phase in a new context on the store as it is then.  An
  exception ends the phase if its label can abort and leads to another attempt otherwise; no
  result is a phase that is still being retried.  The first component is the tracker afterwards.\<close>

fun interp_attempts :: "'s store_ops \<Rightarrow> 32 word \<Rightarrow> bool \<Rightarrow> tracker_state \<Rightarrow> (clock \<times> 's \<times> access list) list \<Rightarrow>
    (tracker_state \<times> (store_error + 's)) option" where
  "interp_attempts ops ip can_abort trk [] = None"
| "interp_attempts ops ip can_abort trk ((c, ds, as) # attempts) =
     (case generate_context c trk of
        Inl e \<Rightarrow> Some (trk, Inl e)
      | Inr (trk', ctx) \<Rightarrow>
          (case run_accesses ops ip trk' as (ctx, ds) of
             Inr (ctx', ds') \<Rightarrow> Some (trk', Inr ds')
           | Inl e \<Rightarrow>
               if e = AssertionFailed \<or> can_abort then Some (trk', Inl e)
               else interp_attempts ops ip can_abort trk' attempts))"

datatype reply = Failure | Success clock clock "tombstone list"

record 's request =
  tombstones_to_find :: "tombstone list"
  find_clock :: clock
  find_env :: "nat \<Rightarrow> 's"
  attempts :: "(clock \<times> 's \<times> access list) list"
  final_clock :: clock

text \<open>\<open>run_phase\<close> of the listener.  \<^term>\<open>None\<close>: it does not return.  \<open>Inl\<close>: an assertion fails.\<close>

definition serve :: "'s store_ops \<Rightarrow> 32 word \<Rightarrow> bool \<Rightarrow> tracker_state \<Rightarrow> 's request \<Rightarrow>
    (store_error + tracker_state \<times> reply) option" where
  "serve ops ip can_abort trk r =
     (case generate_context (find_clock r) trk of
        Inl e \<Rightarrow> Some (Inl e)
      | Inr (trk1, _) \<Rightarrow>
          (case find_tombstones ops (find_env r) (tombstones_to_find r) 0 of
             None \<Rightarrow> None
           | Some _ \<Rightarrow>
               (case interp_attempts ops ip can_abort (set_persistent_store trk1) (attempts r) of
                  None \<Rightarrow> None
                | Some (trk2, Inl e) \<Rightarrow>
                    Some (if e = AssertionFailed then Inl e else Inr (trk2, Failure))
                | Some (trk2, Inr _) \<Rightarrow>
                    Some (case update_clock (final_clock r) trk2 of
                            Inl e \<Rightarrow> Inl e
                          | Inr trk3 \<Rightarrow>
                              (case all_encountered_tombstones trk3 of
                                 Inl e \<Rightarrow> Inl e
                               | Inr ts \<Rightarrow> Inr (trk3, Success (min_clock trk3) (recent_clock trk3) ts))))))"

fun store_session :: "'s store_ops \<Rightarrow> 32 word \<Rightarrow> bool \<Rightarrow> tracker_state \<Rightarrow> 's request list \<Rightarrow>
    (store_error + tracker_state \<times> reply list) option" where
  "store_session ops ip can_abort trk [] = Some (Inr (trk, []))"
| "store_session ops ip can_abort trk (r # rs) =
     (case serve ops ip can_abort trk r of
        None \<Rightarrow> None
      | Some (Inl e) \<Rightarrow> Some (Inl e)
      | Some (Inr (trk', reply)) \<Rightarrow>
          (case store_session ops ip can_abort trk' rs of
             None \<Rightarrow> None
           | Some (Inl e) \<Rightarrow> Some (Inl e)
           | Some (Inr (trk'', replies)) \<Rightarrow> Some (Inr (trk'', reply # replies))))"

definition same_report :: "tracker_state \<Rightarrow> tracker_state \<Rightarrow> bool" where
  "same_report trk trk' \<longleftrightarrow>
     encountered_tombstones trk' = encountered_tombstones trk \<and> recent_clock trk' = recent_clock trk"

lemma same_report_generate: "generate_context c trk = Inr (trk', ctx) \<Longrightarrow> same_report trk trk'"
  by (auto simp: generate_context_def update_clock_def same_report_def split: if_splits)

lemma same_report_trans: "same_report a b \<Longrightarrow> same_report b c \<Longrightarrow> same_report a c"
  by (simp add: same_report_def)

lemma same_report_attempts:
  "interp_attempts ops ip ca trk as = Some (trk', res) \<Longrightarrow> same_report trk trk'"
proof (induction ops ip ca trk as rule: interp_attempts.induct)
  case (2 ops ip ca trk c ds as rest)
  show ?case
  proof (cases "generate_context c trk")
    case (Inl e)
    with 2(2) show ?thesis by (simp add: same_report_def)
  next
    case (Inr p)
    then obtain trk1 ctx where g: "generate_context c trk = Inr (trk1, ctx)" by (cases p) auto
    show ?thesis
    proof (cases "run_accesses ops ip trk1 as (ctx, ds)")
      case (Inl e)
      with 2 g same_report_generate [OF g] show ?thesis
        by (auto split: if_splits intro: same_report_trans)
    next
      case (Inr q)
      with 2(2) g same_report_generate [OF g] show ?thesis by (cases q) auto
    qed
  qed
qed simp

lemma serve_reports:
  assumes "serve ops ip ca trk r = Some (Inr (trk', reply))"
  shows "same_report trk trk' \<and>
    (\<forall>m c ts. reply = Success m c ts \<longrightarrow> c = recent_clock trk \<and> Some ts = encountered_tombstones trk)"
proof -
  from assms obtain trk1 ctx j trk2 res where
    g: "generate_context (find_clock r) trk = Inr (trk1, ctx)" and
    f: "find_tombstones ops (find_env r) (tombstones_to_find r) 0 = Some j" and
    i: "interp_attempts ops ip ca (set_persistent_store trk1) (attempts r) = Some (trk2, res)"
    by (auto simp: serve_def split: sum.splits option.splits)
  have "same_report trk1 (set_persistent_store trk1)" by (simp add: same_report_def set_persistent_store_def)
  then have "same_report trk trk2"
    using same_report_generate [OF g] same_report_attempts [OF i] same_report_trans by blast
  with assms g f i show ?thesis
    by (cases res)
      (auto simp: serve_def update_clock_def all_encountered_tombstones_def same_report_def
        split: if_splits sum.splits option.splits)
qed

text \<open>C38: whatever the phases of a session read, no reply of the listener reports a
  tombstone or a recent clock: \<open>commitContext\<close>, which would take them from the phase's context
  to the tracker, is never called.\<close>

theorem listener_reports_nothing:
  assumes "store_session ops ip can_abort new_tracker rs = Some (Inr (trk, replies))"
    and "Success m c ts \<in> set replies"
  shows "c = Clock 0 0 0 0 \<and> ts = []"
proof -
  have "store_session ops ip can_abort trk0 rs = Some (Inr (trk, replies)) \<Longrightarrow> same_report new_tracker trk0 \<Longrightarrow>
      Success m c ts \<in> set replies \<Longrightarrow> c = Clock 0 0 0 0 \<and> ts = []" for trk0
  proof (induction rs arbitrary: trk0 replies)
    case (Cons r rs)
    from Cons.prems(1) obtain trk1 reply replies' where
      s: "serve ops ip can_abort trk0 r = Some (Inr (trk1, reply))" and
      rest: "store_session ops ip can_abort trk1 rs = Some (Inr (trk, replies'))" "replies = reply # replies'"
      by (auto split: option.splits sum.splits)
    have "same_report new_tracker trk1" using serve_reports [OF s] Cons.prems(2) same_report_trans by blast
    with Cons.IH [OF rest(1)] Cons.prems(2,3) rest(2) serve_reports [OF s] show ?case
      by (auto simp: same_report_def new_tracker_def)
  qed simp
  from this [OF assms(1) _ assms(2)] show ?thesis by (simp add: same_report_def)
qed

definition tombed_store :: "Name \<rightharpoonup> bool object cell" where
  "tombed_store = [5 * bigprime_lin \<mapsto> Stored (TombObj \<lparr>nonce = 42, ip_addr = 127, portno = 0\<rparr>)]"

definition tombed_request :: "(Name \<rightharpoonup> bool object cell) request" where
  "tombed_request =
     \<lparr>tombstones_to_find = [], find_clock = Clock 0 0 0 0, find_env = (\<lambda>_. tombed_store),
      attempts = [(Clock 0 0 0 0, tombed_store, [ReadRemote 5 (Clock 1 1 1 1)])], final_clock = Clock 0 0 0 0\<rparr>"

text \<open>The witness: a phase that reads an object with a tombstone.\<close>

theorem listener_reports_nothing_witness:
  "\<exists>trk m c ts. store_session map_ops 127 False new_tracker [tombed_request] = Some (Inr (trk, [Success m c ts])) \<and>
     run_accesses map_ops 127 new_tracker [ReadRemote 5 (Clock 1 1 1 1)]
       (\<lparr>pending_nonces = Some [], newer_objects = [], store_context = False\<rparr>, tombed_store) =
       Inr (\<lparr>pending_nonces = Some [\<lparr>nonce = 42, ip_addr = 127, portno = 0\<rparr>], newer_objects = [Clock 1 1 1 1],
             store_context = True\<rparr>, tombed_store) \<and>
     c = Clock 0 0 0 0 \<and> ts = []"
proof -
  have "object_name 5" by (simp add: object_name_def)
  then have run: "run_accesses map_ops 127 trk [ReadRemote 5 (Clock 1 1 1 1)]
       (\<lparr>pending_nonces = Some [], newer_objects = [], store_context = False\<rparr>, tombed_store) =
       Inr (\<lparr>pending_nonces = Some [\<lparr>nonce = 42, ip_addr = 127, portno = 0\<rparr>], newer_objects = [Clock 1 1 1 1],
             store_context = True\<rparr>, tombed_store)" for trk
    by (simp add: check_for_tombstones_def make_lin_metaname_eq object_name_not_metadata tombed_store_def
        testing_ops_def store_exists_def map_contains_def object_get_def map_entry_def existingObject_def
        record_timestamp_def)
  have "\<exists>trk m c ts. store_session map_ops 127 False new_tracker [tombed_request] = Some (Inr (trk, [Success m c ts]))"
    by (simp add: serve_def generate_context_def update_clock_def new_tracker_def prec_def tombed_request_def run
        set_persistent_store_def all_encountered_tombstones_def del: run_accesses.simps run_access.simps)
  then obtain trk m c ts where s: "store_session map_ops 127 False new_tracker [tombed_request] = Some (Inr (trk, [Success m c ts]))"
    by blast
  from listener_reports_nothing [OF s] s run show ?thesis by fastforce
qed

end
