(* ===== verification/ClientTracker.thy ===== *)
theory ClientTracker
  imports Tracker Labels
begin

text \<open>
  The client side of the causality tracker (\<open>tracker/ClientTracker.hpp\<close>), the part of
  \<open>mtl/remote_interp.hpp\<close> that updates it, and \<open>follows_in_sequence\<close> (\<open>mtl/mtlutils.hpp\<close>).

  A client has one holder for each tracked label, in the order of the labels.  Each remote phase
  sends the obligations of its label, the tombstones that the server must wait for, and hands
  the tombstones it met to the holder of the next label.
\<close>

section \<open>Holders\<close>

record tomb_holder =
  obligations :: "tombstone list"
  observed_tombstones :: "tombstone list"
  global_min_clock :: clock
  max_recent_clock :: clock

definition new_holder :: tomb_holder where
  "new_holder = \<lparr>obligations = [], observed_tombstones = [], global_min_clock = Clock 0 0 0 0,
                 max_recent_clock = Clock 0 0 0 0\<rparr>"

definition reset_obligations :: "tomb_holder \<Rightarrow> tomb_holder" where
  "reset_obligations h = h\<lparr>obligations := []\<rparr>"

text \<open>The comparison is the one of \<open>std::array\<close>: \<open>ends::operator<\<close> is in another namespace.\<close>

definition must_track :: "tomb_holder \<Rightarrow> bool" where
  "must_track h \<longleftrightarrow>
     \<not> (array_less (max_recent_clock h) (global_min_clock h) \<or> max_recent_clock h = global_min_clock h)"

text \<open>\<open>count\<close> and \<open>insert\<close> of the \<open>std::set\<close> of tombstones, kept here in the order of insertion.\<close>

definition set_count :: "tombstone list \<Rightarrow> tombstone \<Rightarrow> bool" where
  "set_count ts t \<longleftrightarrow> (\<exists>u \<in> set ts. same_element u t)"

definition set_insert :: "tombstone list \<Rightarrow> tombstone \<Rightarrow> tombstone list" where
  "set_insert ts t = (if set_count ts t then ts else ts @ [t])"

fun add_obligations :: "tombstone list \<Rightarrow> tomb_holder \<Rightarrow> tomb_holder" where
  "add_obligations [] h = h"
| "add_obligations (tomb # ts) h =
     add_obligations ts
       (if \<not> set_count (observed_tombstones h) tomb
        then h\<lparr>obligations := obligations h @ [tomb],
               observed_tombstones := set_insert (observed_tombstones h) tomb\<rparr>
        else h)"

section \<open>The client\<close>

fun follows_in_sequence :: "'a \<Rightarrow> 'a list \<Rightarrow> 'a option" where
  "follows_in_sequence match (arg1 # arg2 # args) =
     (if match = arg1 then Some arg2 else follows_in_sequence match (arg2 # args))"
| "follows_in_sequence match _ = None"

definition is_sequence_end :: "'a \<Rightarrow> 'a list \<Rightarrow> bool" where
  "is_sequence_end match args \<longleftrightarrow> follows_in_sequence match args = None"

record client =
  tracked :: "label list"
  holder :: "label \<Rightarrow> tomb_holder"

definition new_client :: "label list \<Rightarrow> client" where
  "new_client ls = \<lparr>tracked = ls, holder = (\<lambda>_. new_holder)\<rparr>"

definition set_tomb_holder :: "label \<Rightarrow> tomb_holder \<Rightarrow> client \<Rightarrow> client" where
  "set_tomb_holder l h c = c\<lparr>holder := (holder c)(l := h)\<rparr>"

definition client_must_track :: "client \<Rightarrow> bool" where
  "client_must_track c \<longleftrightarrow> (\<exists>l \<in> set (tracked c). must_track (holder c l))"

text \<open>A phase whose label is not tracked has no holder: these do not compile for it.\<close>

definition tombstones_for_phase :: "label \<Rightarrow> client \<Rightarrow> tombstone list option" where
  "tombstones_for_phase l c = (if l \<in> set (tracked c) then Some (obligations (holder c l)) else None)"

definition clear_tombstones :: "label \<Rightarrow> client \<Rightarrow> client option" where
  "clear_tombstones l c =
     (if l \<in> set (tracked c) then Some (set_tomb_holder l (reset_obligations (holder c l)) c) else None)"

definition update_clocks :: "label \<Rightarrow> clock \<Rightarrow> clock \<Rightarrow> client \<Rightarrow> client option" where
  "update_clocks l min_c recent c =
     (if l \<in> set (tracked c)
      then Some (set_tomb_holder l
             ((holder c l)\<lparr>global_min_clock := ends_max min_c (global_min_clock (holder c l)),
                            max_recent_clock := ends_max (max_recent_clock (holder c l)) recent\<rparr>) c)
      else None)"

definition set_phase_after :: "label \<Rightarrow> tombstone list \<Rightarrow> client \<Rightarrow> client" where
  "set_phase_after l ts c =
     (case follows_in_sequence l (tracked c) of
        None \<Rightarrow> c
      | Some next \<Rightarrow> set_tomb_holder next (add_obligations ts (reset_obligations (holder c next))) c)"

text \<open>\<open>remote_interp\<close>: what is sent to the server, and the client after the reply.  After a failure an
  exception leaves the client as it is.\<close>

definition remote_interp :: "label \<Rightarrow> reply \<Rightarrow> client \<Rightarrow> (tombstone list \<times> client) option" where
  "remote_interp l r c = do {
     sent \<leftarrow> tombstones_for_phase l c;
     (case r of
        Failure \<Rightarrow> Some (sent, c)
      | Success min_c recent ts \<Rightarrow> do {
          c \<leftarrow> update_clocks l min_c recent c;
          c \<leftarrow> clear_tombstones l (set_phase_after l ts c);
          Some (sent, c) }) }"

fun client_session :: "(label \<times> reply) list \<Rightarrow> client \<Rightarrow> ((label \<times> tombstone list) list \<times> client) option" where
  "client_session [] c = Some ([], c)"
| "client_session ((l, r) # rs) c = do {
     (sent, c) \<leftarrow> remote_interp l r c;
     (log, c) \<leftarrow> client_session rs c;
     Some ((l, sent) # log, c) }"

section \<open>Whether to track\<close>

definition covered :: "tomb_holder \<Rightarrow> bool" where
  "covered h \<longleftrightarrow> max_recent_clock h \<le> global_min_clock h"

text \<open>A holder whose recent clock is behind the global minimum in every entry never asks for tracking.\<close>

theorem must_track_not_covered:
  assumes "must_track h"
  shows "\<not> covered h"
  using assms less_eq_array_less by (auto simp: must_track_def covered_def)

theorem must_track_not_covered_witness:
  "\<not> covered (new_holder\<lparr>max_recent_clock := Clock 0 1 0 0\<rparr>)"
  by (rule must_track_not_covered) (simp add: must_track_def new_holder_def array_less_def)

lemma pair_below_4:
  "(\<exists>i j. i < j \<and> j < (4::nat) \<and> P i j) \<longleftrightarrow> P 0 1 \<or> P 0 2 \<or> P 0 3 \<or> P 1 2 \<or> P 1 3 \<or> P 2 3"
proof
  assume "\<exists>i j. i < j \<and> j < (4::nat) \<and> P i j"
  then obtain i j where "i < j" "j < (4::nat)" "P i j" by blast
  moreover have "j < 4 \<Longrightarrow> i < j \<Longrightarrow> (i, j) \<in> {(0, 1), (0, 2), (0, 3), (1, 2), (1, 3), (2, 3)}" by auto
  ultimately show "P 0 1 \<or> P 0 2 \<or> P 0 3 \<or> P 1 2 \<or> P 1 3 \<or> P 2 3" by auto
next
  have "\<exists>i j. i < j \<and> j < (4::nat) \<and> P i j" if "P i j" "i < j" "j < 4" for i j using that by blast
  moreover assume "P 0 1 \<or> P 0 2 \<or> P 0 3 \<or> P 1 2 \<or> P 1 3 \<or> P 2 3"
  ultimately show "\<exists>i j. i < j \<and> j < (4::nat) \<and> P i j" by (elim disjE) simp_all
qed

text \<open>C24: the converse fails, and exactly for these holders: the clocks differ first in an entry
  \<open>i\<close> where the recent clock is behind the global minimum, and the recent clock is ahead, by any
  amount, in a later entry \<open>j\<close>.  Then tracking is skipped although it is needed.\<close>

theorem must_track_misses:
  "\<not> must_track h \<and> \<not> covered h \<longleftrightarrow>
     (\<exists>i j. i < j \<and> j < 4 \<and>
        take i (entries (max_recent_clock h)) = take i (entries (global_min_clock h)) \<and>
        entries (max_recent_clock h) ! i < entries (global_min_clock h) ! i \<and>
        entries (global_min_clock h) ! j < entries (max_recent_clock h) ! j)"
  unfolding pair_below_4
  by (cases "max_recent_clock h"; cases "global_min_clock h")
    (auto simp: must_track_def covered_def array_less_def numeral_eq_Suc)

section \<open>Obligations\<close>

lemma set_count_iff: "set_count ts t \<longleftrightarrow> nonce t \<in> nonce ` set ts"
  by (auto simp: set_count_def same_element_iff intro: rev_image_eqI)

lemma add_obligations_clocks [simp]:
  "global_min_clock (add_obligations ts h) = global_min_clock h"
  "max_recent_clock (add_obligations ts h) = max_recent_clock h"
  by (induction ts arbitrary: h) auto

lemma observed_add_obligations:
  "nonce ` set (observed_tombstones (add_obligations ts h)) =
     nonce ` set (observed_tombstones h) \<union> nonce ` set ts"
  by (induction ts arbitrary: h) (auto simp: set_insert_def set_count_iff)

lemma obligations_add_obligations:
  "nonce ` set (obligations (add_obligations ts h)) =
     nonce ` set (obligations h) \<union> (nonce ` set ts - nonce ` set (observed_tombstones h))"
  by (induction ts arbitrary: h) (auto simp: set_insert_def set_count_iff)

lemma obligations_from: "set (obligations (add_obligations ts h)) \<subseteq> set (obligations h) \<union> set ts"
proof (induction ts arbitrary: h)
  case (Cons t ts)
  show ?case
    using Cons.IH [of h]
      Cons.IH [of "h\<lparr>obligations := obligations h @ [t], observed_tombstones := set_insert (observed_tombstones h) t\<rparr>"]
    by auto
qed simp

definition holder_inv :: "tomb_holder \<Rightarrow> bool" where
  "holder_inv h \<longleftrightarrow>
     distinct (map nonce (observed_tombstones h)) \<and> distinct (map nonce (obligations h)) \<and>
     nonce ` set (obligations h) \<subseteq> nonce ` set (observed_tombstones h) \<and>
     zero_clock \<le> global_min_clock h \<and> zero_clock \<le> max_recent_clock h"

definition client_inv :: "client \<Rightarrow> bool" where
  "client_inv c \<longleftrightarrow> distinct (tracked c) \<and> (\<forall>l. holder_inv (holder c l))"

lemma holder_inv_add_obligations: "holder_inv h \<Longrightarrow> holder_inv (add_obligations ts h)"
proof (induction ts arbitrary: h)
  case (Cons t ts)
  show ?case
    by (simp only: add_obligations.simps, rule Cons.IH)
      (use Cons.prems in \<open>auto simp: holder_inv_def set_insert_def set_count_iff\<close>)
qed simp

lemma holder_inv_reset: "holder_inv h \<Longrightarrow> holder_inv (reset_obligations h)"
  by (simp add: holder_inv_def reset_obligations_def)

lemma client_inv_set_holder: "client_inv c \<Longrightarrow> holder_inv h \<Longrightarrow> client_inv (set_tomb_holder l h c)"
  by (simp add: client_inv_def set_tomb_holder_def)

lemma client_inv_new: "distinct ls \<Longrightarrow> client_inv (new_client ls)"
  by (simp add: client_inv_def new_client_def new_holder_def holder_inv_def zero_clock_def)

lemma client_inv_holder: "client_inv c \<Longrightarrow> holder_inv (holder c l)"
  by (simp add: client_inv_def)

lemma holder_inv_clocks:
  "holder_inv h \<Longrightarrow> holder_inv (h\<lparr>global_min_clock := ends_max m (global_min_clock h),
     max_recent_clock := ends_max (max_recent_clock h) r\<rparr>)"
  by (auto simp: holder_inv_def clock_simps intro: le_supI1 le_supI2)

lemma client_inv_update_clocks: "client_inv c \<Longrightarrow> update_clocks l m r c = Some c' \<Longrightarrow> client_inv c'"
  by (auto simp: update_clocks_def split: if_splits
      intro!: client_inv_set_holder holder_inv_clocks client_inv_holder)

lemma client_inv_set_phase_after: "client_inv c \<Longrightarrow> client_inv (set_phase_after l ts c)"
  by (auto simp: set_phase_after_def split: option.split
      intro!: client_inv_set_holder holder_inv_add_obligations holder_inv_reset client_inv_holder)

lemma client_inv_clear: "client_inv c \<Longrightarrow> clear_tombstones l c = Some c' \<Longrightarrow> client_inv c'"
  by (auto simp: clear_tombstones_def split: if_splits
      intro!: client_inv_set_holder holder_inv_reset client_inv_holder)

lemma remote_interp_Success:
  "remote_interp l (Success m r ts) c = Some (sent, c') \<longleftrightarrow>
     (\<exists>c1. l \<in> set (tracked c) \<and> sent = obligations (holder c l) \<and> update_clocks l m r c = Some c1 \<and>
           clear_tombstones l (set_phase_after l ts c1) = Some c')"
  by (auto simp: remote_interp_def tombstones_for_phase_def bind_Some_iff split: if_splits)

lemma client_inv_remote_interp:
  assumes "client_inv c" and "remote_interp l r c = Some (sent, c')"
  shows "client_inv c'"
proof (cases r)
  case Failure
  with assms show ?thesis by (auto simp: remote_interp_def bind_Some_iff)
next
  case (Success m rc ts)
  with assms show ?thesis
    unfolding Success remote_interp_Success
    by (meson client_inv_update_clocks client_inv_set_phase_after client_inv_clear remote_interp_Success)
qed

lemma client_inv_session: "client_session rs c = Some (log, c') \<Longrightarrow> client_inv c \<Longrightarrow> client_inv c'"
proof (induction rs arbitrary: c log)
  case (Cons r rs)
  then show ?case by (cases r) (auto simp: bind_Some_iff dest: client_inv_remote_interp)
qed simp

text \<open>C35: in every session the client never waits twice for a tombstone at once: the nonces of its
  observed tombstones and of its obligations are distinct, every obligation has been observed,
  and its clocks have no unknown entry.\<close>

theorem client_session_inv:
  assumes "distinct ls" and "client_session rs (new_client ls) = Some (log, c)" and "l \<in> set ls"
  shows "holder_inv (holder c l)"
  using client_inv_session [OF assms(2) client_inv_new [OF assms(1)]] by (simp add: client_inv_holder)

theorem client_session_inv_witness:
  "\<exists>log c. client_session [(Strong, Success (Clock 0 0 0 0) (Clock 1 0 0 0) [\<lparr>nonce = 42, ip_addr = 0, portno = 0\<rparr>]),
                            (Causal, Failure)] (new_client [Strong, Causal]) = Some (log, c) \<and>
     holder_inv (holder c Causal)"
proof -
  let ?rs = "[(Strong, Success (Clock 0 0 0 0) (Clock 1 0 0 0) [\<lparr>nonce = 42, ip_addr = 0, portno = 0\<rparr>]), (Causal, Failure)]"
  obtain log c where s: "client_session ?rs (new_client [Strong, Causal]) = Some (log, c)"
    by (simp add: remote_interp_def tombstones_for_phase_def update_clocks_def clear_tombstones_def
        set_phase_after_def new_client_def set_tomb_holder_def)
  have "holder_inv (holder c Causal)" by (rule client_session_inv [OF _ s]) simp_all
  with s show ?thesis by blast
qed

subsection \<open>Handing on and forgetting\<close>

lemma follows_mem: "follows_in_sequence x xs = Some y \<Longrightarrow> x \<in> set xs \<and> y \<in> set xs"
  by (induction x xs rule: follows_in_sequence.induct) (auto split: if_splits)

lemma follows_neq: "follows_in_sequence x xs = Some y \<Longrightarrow> distinct xs \<Longrightarrow> x \<noteq> y"
  by (induction x xs rule: follows_in_sequence.induct) (auto split: if_splits)

text \<open>What a successful phase does to each holder.\<close>

lemma remote_interp_holder:
  assumes r: "remote_interp p (Success m rc ts) c = Some (sent, c')" and d: "distinct (tracked c)"
  shows "tracked c' = tracked c \<and> sent = obligations (holder c p) \<and> obligations (holder c' p) = [] \<and>
    observed_tombstones (holder c' p) = observed_tombstones (holder c p) \<and>
    (\<forall>q. follows_in_sequence p (tracked c) = Some q \<longrightarrow>
       holder c' q = add_obligations ts (reset_obligations (holder c q))) \<and>
    (\<forall>q. q \<noteq> p \<and> follows_in_sequence p (tracked c) \<noteq> Some q \<longrightarrow> holder c' q = holder c q)"
proof -
  from r obtain c1 where c1: "update_clocks p m rc c = Some c1" and p: "p \<in> set (tracked c)"
    and c': "clear_tombstones p (set_phase_after p ts c1) = Some c'" and s: "sent = obligations (holder c p)"
    by (auto simp: remote_interp_Success)
  have h1: "tracked c1 = tracked c" "\<And>q. q \<noteq> p \<Longrightarrow> holder c1 q = holder c q"
    "observed_tombstones (holder c1 p) = observed_tombstones (holder c p)"
    using c1 by (auto simp: update_clocks_def set_tomb_holder_def split: if_splits)
  show ?thesis
  proof (cases "follows_in_sequence p (tracked c)")
    case None
    with c' h1 s show ?thesis
      by (auto simp: clear_tombstones_def set_phase_after_def set_tomb_holder_def reset_obligations_def split: if_splits)
  next
    case (Some q)
    from follows_neq [OF this d] have "p \<noteq> q" .
    with Some c' h1 s show ?thesis
      by (auto simp: clear_tombstones_def set_phase_after_def set_tomb_holder_def reset_obligations_def split: if_splits)
  qed
qed

text \<open>C34: a successful phase settles its own obligations, and those of the label that follows become the
  tombstones the server reported, up to nonces, less those that this label has observed before.\<close>

theorem obligations_handed_on:
  assumes "remote_interp p (Success m rc ts) c = Some (sent, c')" and "distinct (tracked c)"
    and "follows_in_sequence p (tracked c) = Some q"
  shows "sent = obligations (holder c p) \<and> obligations (holder c' p) = [] \<and>
    set (obligations (holder c' q)) \<subseteq> set ts \<and>
    nonce ` set (obligations (holder c' q)) = nonce ` set ts - nonce ` set (observed_tombstones (holder c q))"
proof -
  note h = remote_interp_holder [OF assms(1,2)]
  then have "holder c' q = add_obligations ts (reset_obligations (holder c q))" using assms(3) by blast
  with h show ?thesis
    using obligations_from [of ts "reset_obligations (holder c q)"]
    by (simp add: obligations_add_obligations reset_obligations_def)
qed

definition tomb :: "64 word \<Rightarrow> tombstone" where
  "tomb n = \<lparr>nonce = n, ip_addr = 0, portno = 0\<rparr>"

definition report :: "tombstone list \<Rightarrow> reply" where
  "report ts = Success (Clock 0 0 0 0) (Clock 0 0 0 0) ts"

theorem obligations_handed_on_witness:
  "\<exists>c'. remote_interp Strong (report [tomb 1, tomb 2, tomb 1]) (new_client [Strong, Causal]) = Some ([], c') \<and>
     nonce ` set (obligations (holder c' Causal)) = {1, 2}"
proof -
  obtain sent c' where r: "remote_interp Strong (report [tomb 1, tomb 2, tomb 1]) (new_client [Strong, Causal]) = Some (sent, c')"
    by (simp add: report_def remote_interp_def tombstones_for_phase_def update_clocks_def clear_tombstones_def
        set_phase_after_def new_client_def set_tomb_holder_def)
  from obligations_handed_on [OF r [unfolded report_def], of Causal] r show ?thesis
    by (auto simp: new_client_def new_holder_def tomb_def)
qed

text \<open>A nonce is forgotten by a holder that has observed it and has no obligation for it.\<close>

definition forgotten :: "64 word \<Rightarrow> tomb_holder \<Rightarrow> bool" where
  "forgotten n h \<longleftrightarrow> n \<in> nonce ` set (observed_tombstones h) \<and> n \<notin> nonce ` set (obligations h)"

lemma forgotten_add: "n \<in> nonce ` set (observed_tombstones h) \<Longrightarrow> forgotten n (add_obligations ts (reset_obligations h))"
  by (simp add: forgotten_def observed_add_obligations obligations_add_obligations) (simp add: reset_obligations_def)

lemma forgotten_remote_interp:
  assumes "remote_interp p r c = Some (sent, c')" and "distinct (tracked c)" and "forgotten n (holder c q)"
  shows "forgotten n (holder c' q) \<and> tracked c' = tracked c \<and> (p = q \<longrightarrow> n \<notin> nonce ` set sent)"
proof (cases r)
  case Failure
  with assms show ?thesis by (auto simp: remote_interp_def tombstones_for_phase_def bind_Some_iff forgotten_def split: if_splits)
next
  case (Success m rc ts)
  note h = remote_interp_holder [OF assms(1) [unfolded Success] assms(2)]
  have f: "forgotten n (holder c' q)"
  proof (cases "q = p")
    case True
    with h assms(3) show ?thesis by (simp add: forgotten_def)
  next
    case False
    show ?thesis
    proof (cases "follows_in_sequence p (tracked c) = Some q")
      case True
      with h have "holder c' q = add_obligations ts (reset_obligations (holder c q))" by blast
      then show ?thesis using assms(3) forgotten_add by (simp add: forgotten_def)
    next
      case False
      with \<open>q \<noteq> p\<close> h assms(3) show ?thesis by metis
    qed
  qed
  with h assms(3) show ?thesis by (auto simp: forgotten_def)
qed

lemma forgotten_session:
  "client_session rs c = Some (log, c') \<Longrightarrow> distinct (tracked c) \<Longrightarrow> forgotten n (holder c q) \<Longrightarrow>
   (q, sent) \<in> set log \<Longrightarrow> n \<notin> nonce ` set sent"
proof (induction rs arbitrary: c log)
  case (Cons x rs)
  then obtain p r s1 c1 log1 where x: "x = (p, r)" "remote_interp p r c = Some (s1, c1)"
    "client_session rs c1 = Some (log1, c')" "log = (p, s1) # log1"
    by (cases x) (auto simp: bind_Some_iff)
  note f = forgotten_remote_interp [OF x(2) Cons.prems(2,3)]
  with x Cons.IH [OF x(3)] Cons.prems(2,4) show ?case by auto
qed simp

text \<open>C39: two successful phases of one label with none of the next label in between
  (as in two transactions that use only the first) discard the tombstones that the first of them
  met: no later phase of the next label ever waits for them.\<close>

theorem obligations_forgotten:
  assumes "client_session ((p, Success m1 r1 ts1) # (p, Success m2 r2 ts2) # rs) c = Some (log, c')"
    and "distinct (tracked c)" and "follows_in_sequence p (tracked c) = Some q"
    and "t \<in> set ts1" and "(q, sent) \<in> set log"
  shows "nonce t \<notin> nonce ` set sent"
proof -
  from assms(1) obtain s1 s2 c1 c2 log' where
    1: "remote_interp p (Success m1 r1 ts1) c = Some (s1, c1)" and
    2: "remote_interp p (Success m2 r2 ts2) c1 = Some (s2, c2)" and
    rest: "client_session rs c2 = Some (log', c')" "log = (p, s1) # (p, s2) # log'"
    by (auto simp: bind_Some_iff)
  note h1 = remote_interp_holder [OF 1 assms(2)]
  then have d1: "distinct (tracked c1)" "follows_in_sequence p (tracked c1) = Some q" using assms(2,3) by auto
  note h2 = remote_interp_holder [OF 2 d1(1)]
  have "nonce t \<in> nonce ` set (observed_tombstones (holder c1 q))"
    using h1 assms(3,4) by (auto simp: observed_add_obligations)
  with h2 d1 have "forgotten (nonce t) (holder c2 q)" by (metis forgotten_add)
  moreover have "distinct (tracked c2)" using h2 d1 by simp
  moreover have "(q, sent) \<in> set log'" using assms(5) rest(2) follows_neq [OF assms(3,2)] by auto
  ultimately show ?thesis using forgotten_session [OF rest(1)] by blast
qed

theorem obligations_forgotten_witness:
  "\<exists>log c'. client_session [(Strong, report [tomb 1]), (Strong, report []), (Causal, report [])]
      (new_client [Strong, Causal]) = Some (log, c') \<and>
    log = [(Strong, []), (Strong, []), (Causal, [])] \<and> nonce (tomb 1) \<notin> nonce ` set ([] :: tombstone list)"
proof -
  obtain log c' where s: "client_session [(Strong, report [tomb 1]), (Strong, report []), (Causal, report [])]
      (new_client [Strong, Causal]) = Some (log, c')" and l: "log = [(Strong, []), (Strong, []), (Causal, [])]"
    by (simp add: report_def remote_interp_def tombstones_for_phase_def update_clocks_def clear_tombstones_def
        set_phase_after_def new_client_def set_tomb_holder_def reset_obligations_def new_holder_def)
  have "nonce (tomb 1) \<notin> nonce ` set ([] :: tombstone list)"
    by (rule obligations_forgotten [OF s [unfolded report_def], of Causal]) (simp_all add: new_client_def l)
  with s l show ?thesis by blast
qed

end
