(* ===== verification/SplitAst.thy ===== *)
theory SplitAst
  imports TypedAst
begin

text \<open>
  The program of one phase (\<open>split_phase::AST\<close>, \<open>mtl/AST_split.hpp\<close>), the bindings that phases hand
  on (\<open>mtl/split_phase_utils.hpp\<close>, \<open>split_phase_impl_utils.hpp\<close>), and the passes that clean a phase:
  \<open>collapse\<close> of nested sequences, \<open>remove_unused\<close> (\<open>mtl/remove_unused.hpp\<close>) and
  \<open>clear_empty_statements\<close> (\<open>mtl/remove_empties.hpp\<close>).

  Labels are no longer on the nodes: the whole tree belongs to the label of its phase.  The new
  statements move a variable to the next value that an earlier phase gave it.
\<close>

section \<open>The tree of a phase\<close>

datatype sexpr =
    SE_FieldReference ytype sexpr name
  | SE_VarReference ytype name
  | SE_Constant int
  | SE_BinOp ytype char sexpr sexpr
  | SE_GenerateTombstone
  | SE_IsValid sexpr
  | SE_Operation ytype name sexpr "sexpr list"

datatype sbinding = SBinding label ytype name sexpr

datatype sstmt =
    SS_Let sbinding sstmt
  | SS_LetRemote sbinding sstmt
  | SS_Operation name sexpr "sexpr list"
  | SS_Assignment sexpr sexpr
  | SS_Return sexpr
  | SS_WriteTombstone sexpr
  | SS_AccompanyWrite sexpr
  | SS_IncrementOccurance name
  | SS_IncrementRemoteOccurance name
  | SS_IncrementHandle ytype name
  | SS_RefreshRemoteOccurance ytype name
  | SS_If sexpr sstmt sstmt
  | SS_While sexpr sstmt name
  | SS_ForEach sstmt name
  | SS_Sequence "sstmt list"

section \<open>Collapsing sequences\<close>

fun count_sequence :: "sstmt \<Rightarrow> nat" where
  "count_sequence (SS_Sequence ss) = sum_list (map count_sequence ss)"
| "count_sequence _ = 1"

definition is_empty_sequence :: "sstmt \<Rightarrow> bool" where
  "is_empty_sequence s \<longleftrightarrow> count_sequence s = 0"

text \<open>\<open>collapse1\<close>: the statements of a statement or a sequence, with nested sequences opened.  \<open>append\<close>
  joins them, whether a part is a single statement or a sequence.\<close>

fun collapse_stmt :: "sstmt \<Rightarrow> sstmt list"
  and collapse_seq :: "sstmt list \<Rightarrow> sstmt list" where
  "collapse_stmt (SS_Sequence ss) = collapse_seq ss"
| "collapse_stmt s = [s]"
| "collapse_seq [] = []"
| "collapse_seq (s # ss) =
     (if is_empty_sequence s then collapse_seq ss else collapse_stmt s @ collapse_seq ss)"

definition collapse :: "sstmt list \<Rightarrow> sstmt" where
  "collapse ss = SS_Sequence (collapse_seq ss)"

section \<open>What phases require and provide\<close>

text \<open>A variable with its type and label, bound locally or to the target of a handle, or the counter of
  a loop.  For a remote binding the type is that of the handle.\<close>

datatype vbinding =
    TypeBinding name ytype label bool
  | WhileBinding name

fun vbinding_name :: "vbinding \<Rightarrow> name" where
  "vbinding_name (TypeBinding n y l remote) = n"
| "vbinding_name (WhileBinding n) = n"

text \<open>\<open>type_binding_super\<close>: the name and the type of the variable itself.\<close>

fun binding_super :: "vbinding \<Rightarrow> (name \<times> ytype) option" where
  "binding_super (TypeBinding n y l False) = Some (n, y)"
| "binding_super (TypeBinding n y l True) = (case y of Y_Handle hl t ops \<Rightarrow> Some (n, t) | _ \<Rightarrow> None)"
| "binding_super (WhileBinding n) = None"

record phase_api =
  requires :: "vbinding list"
  provides :: "vbinding list"
  inherits :: "vbinding list"

definition contains_subtype :: "name \<Rightarrow> ytype \<Rightarrow> vbinding list \<Rightarrow> bool" where
  "contains_subtype n y bs \<longleftrightarrow> (\<exists>b \<in> set bs. binding_super b = Some (n, y))"

definition find_subtype :: "name \<Rightarrow> ytype \<Rightarrow> vbinding list \<Rightarrow> vbinding option" where
  "find_subtype n y bs = find (\<lambda>b. binding_super b = Some (n, y)) bs"

definition add_provides :: "vbinding \<Rightarrow> phase_api \<Rightarrow> phase_api" where
  "add_provides b a = a\<lparr>provides := provides a @ [b]\<rparr>"

definition add_requires :: "vbinding \<Rightarrow> phase_api \<Rightarrow> phase_api" where
  "add_requires b a = a\<lparr>requires := requires a @ [b]\<rparr>"

text \<open>\<open>combined_api\<close> exists only for two interfaces with the same inherited bindings.\<close>

definition combined_api :: "phase_api \<Rightarrow> phase_api \<Rightarrow> phase_api option" where
  "combined_api a b =
     (if inherits a = inherits b
      then Some \<lparr>requires = requires a @ requires b, provides = provides a @ provides b, inherits = inherits a\<rparr>
      else None)"

fun combined_apis :: "phase_api \<Rightarrow> phase_api list \<Rightarrow> phase_api option" where
  "combined_apis a [] = Some a"
| "combined_apis a (b # bs) = do { c \<leftarrow> combined_api a b; combined_apis c bs }"

section \<open>Removing what is not needed\<close>

definition contains_var_of_name :: "name \<Rightarrow> vbinding list \<Rightarrow> bool" where
  "contains_var_of_name n bs \<longleftrightarrow> n \<in> set (map vbinding_name bs)"

fun remove_unused :: "vbinding list \<Rightarrow> sstmt \<Rightarrow> sstmt" where
  "remove_unused ts (SS_Let b body) = SS_Let b (remove_unused ts body)"
| "remove_unused ts (SS_LetRemote b body) = SS_LetRemote b (remove_unused ts body)"
| "remove_unused ts (SS_IncrementOccurance v) =
     (if contains_var_of_name v ts then SS_IncrementOccurance v else SS_Sequence [])"
| "remove_unused ts (SS_IncrementRemoteOccurance v) =
     (if contains_var_of_name v ts then SS_IncrementRemoteOccurance v else SS_Sequence [])"
| "remove_unused ts (SS_IncrementHandle y v) =
     (if contains_var_of_name v ts then SS_IncrementHandle y v else SS_Sequence [])"
| "remove_unused ts (SS_RefreshRemoteOccurance y v) =
     (if contains_var_of_name v ts then SS_RefreshRemoteOccurance y v else SS_Sequence [])"
| "remove_unused ts (SS_If c t e) = SS_If c (remove_unused ts t) (remove_unused ts e)"
| "remove_unused ts (SS_While c t n) = SS_While c (remove_unused ts t) n"
| "remove_unused ts (SS_ForEach t n) = SS_ForEach (remove_unused ts t) n"
| "remove_unused ts (SS_Sequence ss) = SS_Sequence (map (remove_unused ts) ss)"
| "remove_unused ts s = s"

text \<open>\<open>clear_empty_statements\<close> of an expression leaves it and reports its variables.\<close>

fun expr_requires :: "sexpr \<Rightarrow> name list" where
  "expr_requires (SE_FieldReference y s f) = expr_requires s"
| "expr_requires (SE_VarReference y v) = [v]"
| "expr_requires (SE_Constant i) = []"
| "expr_requires (SE_BinOp y op l r) = List.union (expr_requires l) (expr_requires r)"
| "expr_requires SE_GenerateTombstone = []"
| "expr_requires (SE_IsValid h) = expr_requires h"
| "expr_requires (SE_Operation y n h as) = fold List.union (map expr_requires as) (expr_requires h)"

record cleared =
  cl_ast :: sstmt
  remove_from_require :: "name list"
  still_require :: "name list"

definition cleared_leaf :: "sstmt \<Rightarrow> name list \<Rightarrow> cleared" where
  "cleared_leaf s still = \<lparr>cl_ast = s, remove_from_require = [], still_require = still\<rparr>"

fun clear_empty_statements :: "sstmt \<Rightarrow> cleared" where
  "clear_empty_statements (SS_Let (SBinding l y v e) body) =
     (let b = clear_empty_statements body
      in \<lparr>cl_ast = SS_Let (SBinding l y v e) (cl_ast b),
          remove_from_require = remove_from_require b,
          still_require = List.union (expr_requires e) (still_require b)\<rparr>)"
| "clear_empty_statements (SS_LetRemote (SBinding l y v e) body) =
     (let b = clear_empty_statements body
      in \<lparr>cl_ast = SS_LetRemote (SBinding l y v e) (cl_ast b),
          remove_from_require = remove_from_require b,
          still_require = List.union (expr_requires e) (still_require b)\<rparr>)"
| "clear_empty_statements (SS_Operation n h as) =
     cleared_leaf (SS_Operation n h as) (fold List.union (map expr_requires as) (expr_requires h))"
| "clear_empty_statements (SS_Assignment l r) =
     cleared_leaf (SS_Assignment l r) (List.union (expr_requires l) (expr_requires r))"
| "clear_empty_statements (SS_Return e) = cleared_leaf (SS_Return e) (expr_requires e)"
| "clear_empty_statements (SS_WriteTombstone e) = cleared_leaf (SS_WriteTombstone e) (expr_requires e)"
| "clear_empty_statements (SS_AccompanyWrite e) = cleared_leaf (SS_AccompanyWrite e) (expr_requires e)"
| "clear_empty_statements (SS_IncrementOccurance v) = cleared_leaf (SS_IncrementOccurance v) []"
| "clear_empty_statements (SS_IncrementRemoteOccurance v) = cleared_leaf (SS_IncrementRemoteOccurance v) [v]"
| "clear_empty_statements (SS_IncrementHandle y v) = cleared_leaf (SS_IncrementHandle y v) [v]"
| "clear_empty_statements (SS_RefreshRemoteOccurance y v) = cleared_leaf (SS_RefreshRemoteOccurance y v) [v]"
| "clear_empty_statements (SS_If c t e) =
     (let t' = clear_empty_statements t;
          e' = clear_empty_statements e
      in if is_empty_sequence (cl_ast t') \<and> is_empty_sequence (cl_ast e')
         then \<lparr>cl_ast = SS_Sequence [], remove_from_require = expr_requires c, still_require = []\<rparr>
         else \<lparr>cl_ast = SS_If c (cl_ast t') (cl_ast e'),
               remove_from_require = List.union (remove_from_require t') (remove_from_require e'),
               still_require = List.union (expr_requires c) (List.union (still_require t') (still_require e'))\<rparr>)"
| "clear_empty_statements (SS_While c t n) =
     (let t' = clear_empty_statements t
      in \<lparr>cl_ast = SS_While c (cl_ast t') n, remove_from_require = remove_from_require t',
          still_require = List.union (expr_requires c) (still_require t')\<rparr>)"
| "clear_empty_statements (SS_ForEach t n) =
     (let t' = clear_empty_statements t
      in \<lparr>cl_ast = SS_ForEach (cl_ast t') n, remove_from_require = remove_from_require t',
          still_require = still_require t'\<rparr>)"
| "clear_empty_statements (SS_Sequence ss) =
     (let cs = map clear_empty_statements ss
      in \<lparr>cl_ast = collapse (map cl_ast cs),
          remove_from_require = fold List.union (map remove_from_require cs) [],
          still_require = fold List.union (map still_require cs) []\<rparr>)"

end
