(* ===== verification/SplitPhase.thy ===== *)
theory SplitPhase
  imports SplitAst
begin

text \<open>
  Splitting a labelled program into phases: the names of loops (\<open>mtl/name_while.hpp\<close>), the extraction
  of a phase (\<open>collect_phase\<close>) and the sequence of phases (\<open>split_computation\<close>, both in
  \<open>mtl/split_phase.hpp\<close>), and the interface of a phase at runtime (\<open>pretransaction\<close>,
  \<open>mtl/runnable_transaction.hpp\<close>).

  A phase keeps the statements of its own label.  Of the statements of other labels it keeps what
  it must follow: a conditional or a loop whose condition is known, and a step of a variable for
  each value that an earlier phase gave it.
\<close>

section \<open>Programs with named loops\<close>

datatype nstmt =
    NS_Let label lbinding nstmt
  | NS_LetRemote label lbinding nstmt
  | NS_Operation label name lexpr "lexpr list"
  | NS_Assignment label lexpr lexpr
  | NS_Return lexpr
  | NS_WriteTombstone label lexpr
  | NS_AccompanyWrite label lexpr
  | NS_If label lexpr nstmt nstmt
  | NS_While label lexpr nstmt name
  | NS_Sequence label "nstmt list"

text \<open>The name of a loop, \<open>1, seqnum, depth\<close>.  The numbers are \<open>char\<close>s: past 127 the program does not compile.\<close>

definition while_var :: "nat \<Rightarrow> nat \<Rightarrow> name" where
  "while_var seqnum depth = [char_of (1 :: nat), char_of seqnum, char_of depth]"

definition char_ok :: "nat \<Rightarrow> bool" where
  "char_ok n \<longleftrightarrow> n \<le> 127"

text \<open>\<open>easy_processing\<close>; the flag tells whether a \<open>Return\<close> is allowed.\<close>

fun easy_processing :: "nat \<Rightarrow> nat \<Rightarrow> bool \<Rightarrow> lstmt \<Rightarrow> nstmt option"
  and easy_processing_stmts :: "nat \<Rightarrow> nat \<Rightarrow> bool \<Rightarrow> lstmt list \<Rightarrow> nstmt list option" where
  "easy_processing sq d r (LS_Let l b body) = do {
     body \<leftarrow> easy_processing sq d r body; Some (NS_Let l b body) }"
| "easy_processing sq d r (LS_LetRemote l b body) = do {
     body \<leftarrow> easy_processing sq d r body; Some (NS_LetRemote l b body) }"
| "easy_processing sq d r (LS_Return e) = (if r then Some (NS_Return e) else None)"
| "easy_processing sq d r (LS_While l c body) =
     (if char_ok (d + 1)
      then do { body \<leftarrow> easy_processing sq (d + 1) False body; Some (NS_While l c body (while_var sq d)) }
      else None)"
| "easy_processing sq d r (LS_If l c t e) = do {
     t \<leftarrow> easy_processing sq d False t; e \<leftarrow> easy_processing sq d False e; Some (NS_If l c t e) }"
| "easy_processing sq d r (LS_Sequence l ss) =
     (if char_ok (sq + 1)
      then do { ss \<leftarrow> easy_processing_stmts (sq + 1) d r ss; Some (NS_Sequence l ss) }
      else None)"
| "easy_processing sq d r (LS_Operation l n h as) = Some (NS_Operation l n h as)"
| "easy_processing sq d r (LS_Assignment l v e) = Some (NS_Assignment l v e)"
| "easy_processing sq d r (LS_WriteTombstone l e) = Some (NS_WriteTombstone l e)"
| "easy_processing sq d r (LS_AccompanyWrite l e) = Some (NS_AccompanyWrite l e)"
| "easy_processing_stmts sq d r [] = Some []"
| "easy_processing_stmts sq d r (s # ss) =
     (case s of
        LS_Return e \<Rightarrow> if r \<and> ss = [] then Some [NS_Return e] else None
      | _ \<Rightarrow>
          (if char_ok (sq + 1)
           then do {
             s \<leftarrow> easy_processing sq d r s;
             ss \<leftarrow> easy_processing_stmts (sq + 1) d r ss;
             Some (s # ss) }
           else None))"

definition easy_processing_pass :: "lstmt \<Rightarrow> nstmt option" where
  "easy_processing_pass s = easy_processing 1 1 True s"

section \<open>Extracting a phase\<close>

definition builtin_names :: "name list" where
  "builtin_names = [''default list'', ''push_back'', ''nulled'', ''true'', ''false'']"

definition is_builtin :: "name \<Rightarrow> bool" where
  "is_builtin n \<longleftrightarrow> n \<in> set builtin_names"

definition are_equivalent :: "label \<Rightarrow> label \<Rightarrow> bool option" where
  "are_equivalent l1 l2 = do {
     a \<leftarrow> min_of [l1, l2]; b \<leftarrow> min_of [l2, l1]; Some (l1 = a \<and> l2 = b) }"

definition base_api :: "phase_api \<Rightarrow> phase_api" where
  "base_api old = \<lparr>requires = [], provides = [], inherits = inherits old\<rparr>"

fun base_var :: "lexpr \<Rightarrow> name option" where
  "base_var (LE_VarReference l y v) = Some v"
| "base_var (LE_FieldReference l y s f) = base_var s"
| "base_var _ = None"

text \<open>An assertion of the compiler.\<close>

definition require :: "bool \<Rightarrow> unit option" where
  "require b = (if b then Some () else None)"

lemma require_Some [simp]: "require b = Some u \<longleftrightarrow> b"
  by (simp add: require_def)

lemma require_simps [simp]: "require True = Some ()" "require False = None"
  by (simp_all add: require_def)

fun collect_expr :: "label \<Rightarrow> phase_api \<Rightarrow> lexpr \<Rightarrow> (phase_api \<times> sexpr) option"
  and collect_exprs :: "label \<Rightarrow> phase_api \<Rightarrow> lexpr list \<Rightarrow> (phase_api list \<times> sexpr list) option" where
  "collect_expr l old (LE_VarReference l2 y v) =
     (if is_builtin v then Some (base_api old, SE_VarReference y v)
      else do {
        ok \<leftarrow> flows_to l2 l;
        require ok;
        if contains_subtype v y (provides old) then Some (base_api old, SE_VarReference y v)
        else do {
          b \<leftarrow> find_subtype v y (inherits old);
          Some ((base_api old)\<lparr>requires := [b]\<rparr>, SE_VarReference y v) } })"
| "collect_expr l old (LE_FieldReference l2 y s f) = do {
     (a, s) \<leftarrow> collect_expr l old s; Some (a, SE_FieldReference y s f) }"
| "collect_expr l old (LE_Constant i) = Some (base_api old, SE_Constant i)"
| "collect_expr l old (LE_BinOp l2 y op x z) = do {
     (a, x) \<leftarrow> collect_expr l old x;
     (b, z) \<leftarrow> collect_expr l old z;
     c \<leftarrow> combined_api a b;
     Some (c, SE_BinOp y op x z) }"
| "collect_expr l old (LE_GenerateTombstone l2) =
     (if l2 = Top then Some (base_api old, SE_GenerateTombstone) else None)"
| "collect_expr l old (LE_IsValid l2 h) = do {
     (a, h) \<leftarrow> collect_expr l old h; Some (a, SE_IsValid h) }"
| "collect_expr l old (LE_Endorse l2 y h) = None"
| "collect_expr l old (LE_Operation l2 y n h as) = do {
     (a, h) \<leftarrow> collect_expr l old h;
     (bs, as) \<leftarrow> collect_exprs l old as;
     c \<leftarrow> combined_apis a bs;
     Some (c, SE_Operation y n h as) }"
| "collect_exprs l old [] = Some ([], [])"
| "collect_exprs l old (e # es) = do {
     (a, e) \<leftarrow> collect_expr l old e;
     (as, es) \<leftarrow> collect_exprs l old es;
     Some (a # as, e # es) }"

text \<open>\<open>let_binding\<close> and \<open>let_remote_binding\<close>.\<close>

definition let_binding :: "label \<Rightarrow> bool \<Rightarrow> phase_api \<Rightarrow> lbinding \<Rightarrow> (phase_api \<times> sbinding) option" where
  "let_binding l remote old b = (case b of LBinding l2 y v e \<Rightarrow> do {
     ok \<leftarrow> flows_to l l2;
     require ok;
     require (remote \<longrightarrow> is_handle (expr_yield e));
     (a, e') \<leftarrow> collect_expr l old e;
     Some (add_provides (TypeBinding v (if remote then expr_yield e else y) l2 remote) a,
           SBinding l2 y v e') })"

text \<open>The occurrence that is refreshed after an operation is that of the variable of the handle.\<close>

fun refresh :: "sexpr \<Rightarrow> sstmt option" where
  "refresh (SE_VarReference (Y_Handle l t ops) v) = Some (SS_RefreshRemoteOccurance (Y_Handle l t ops) v)"
| "refresh _ = None"

fun let_ast_if_operation :: "label \<Rightarrow> phase_api \<Rightarrow> sstmt \<Rightarrow> lexpr \<Rightarrow> sstmt option" where
  "let_ast_if_operation l old basic (LE_Operation l2 y n h as) = do {
     (_, h) \<leftarrow> collect_expr l old h; r \<leftarrow> refresh h; Some (SS_Sequence [basic, r]) }"
| "let_ast_if_operation l old basic _ = Some basic"

text \<open>The type that a phase returns, \<^term>\<open>None\<close> for \<open>void\<close>; two parts must not return different types.\<close>

definition join_returns :: "ytype option \<Rightarrow> ytype option \<Rightarrow> ytype option option" where
  "join_returns a b = (if a = b \<or> a = None \<or> b = None then Some (if a = None then b else a) else None)"

definition nothing :: "phase_api \<Rightarrow> phase_api \<times> ytype option \<times> sstmt" where
  "nothing old = (base_api old, None, SS_Sequence [])"

text \<open>\<open>_collect_phase\<close> of a statement: interface, returned type and tree.  A statement of another label that
  is nevertheless equivalent has no overload.\<close>

definition other_label :: "label \<Rightarrow> label \<Rightarrow> unit option" where
  "other_label l l2 = do { eq \<leftarrow> are_equivalent l l2; require (\<not> eq) }"

fun collect_stmt :: "label \<Rightarrow> phase_api \<Rightarrow> nstmt \<Rightarrow> (phase_api \<times> ytype option \<times> sstmt) option"
  and collect_stmts :: "label \<Rightarrow> phase_api \<Rightarrow> nstmt list \<Rightarrow> (phase_api \<times> ytype option \<times> sstmt list) option" where
  "collect_stmt l old (NS_Let l2 b body) =
     (if l2 = l then do {
        (ba, b') \<leftarrow> let_binding l False old b;
        inner \<leftarrow> combined_api ba old;
        (a, ret, s) \<leftarrow> collect_stmt l inner body;
        new \<leftarrow> combined_api ba a;
        ast \<leftarrow> (case b of LBinding bl y v e \<Rightarrow> let_ast_if_operation l old (SS_Let b' s) e);
        Some (new, ret, ast) }
      else do {
        other_label l l2;
        (a, ret, s) \<leftarrow> collect_stmt l old body;
        (case b of LBinding bl y v e \<Rightarrow> Some (a, ret, SS_Sequence [SS_IncrementOccurance v, s])) })"
| "collect_stmt l old (NS_LetRemote l2 b body) =
     (if l2 = l then do {
        (ba, b') \<leftarrow> let_binding l True old b;
        inner \<leftarrow> combined_api old ba;
        (a, ret, s) \<leftarrow> collect_stmt l inner body;
        new \<leftarrow> combined_api ba a;
        Some (new, ret, SS_LetRemote b' s) }
      else do {
        other_label l l2;
        (a, ret, s) \<leftarrow> collect_stmt l old body;
        known \<leftarrow> flows_to l2 l;
        (case b of LBinding bl y v e \<Rightarrow>
           (case expr_yield e of
              Y_Handle hl t ops \<Rightarrow>
                if known then do {
                  reqs \<leftarrow> (if contains_subtype v t (provides old) then Some []
                           else do { rb \<leftarrow> find_subtype v t (inherits old); Some [rb] });
                  new \<leftarrow> combined_api a ((base_api old)\<lparr>requires := reqs\<rparr>);
                  Some (new, ret, SS_Sequence [SS_IncrementRemoteOccurance v, s]) }
                else Some (a, ret, s)
            | _ \<Rightarrow> None)) })"
| "collect_stmt l old (NS_Operation l2 n h as) =
     (if l2 = l then do {
        (ha, h') \<leftarrow> collect_expr l old h;
        (bs, as') \<leftarrow> collect_exprs l old as;
        new \<leftarrow> combined_apis ha bs;
        (if is_builtin n then Some (new, None, SS_Operation n h' as')
         else do { r \<leftarrow> refresh h'; Some (new, None, SS_Sequence [SS_Operation n h' as', r]) }) }
      else do { other_label l l2; Some (nothing old) })"
| "collect_stmt l old (NS_Assignment l2 v e) =
     (if l2 = l then do {
        (va, v') \<leftarrow> collect_expr l old v;
        (ea, e') \<leftarrow> collect_expr l old e;
        new \<leftarrow> combined_api va ea;
        Some (new, None, SS_Assignment v' e') }
      else do {
        other_label l l2;
        known \<leftarrow> flows_to l2 l;
        x \<leftarrow> base_var v;
        Some (base_api old, None, if known then SS_IncrementOccurance x else SS_Sequence []) })"
| "collect_stmt l old (NS_AccompanyWrite l2 v) =
     (if l2 = l then do { (a, v') \<leftarrow> collect_expr l old v; Some (a, None, SS_AccompanyWrite v') }
      else do { other_label l l2; Some (nothing old) })"
| "collect_stmt l old (NS_Return e) =
     (if Bottom = l then do { (a, e') \<leftarrow> collect_expr l old e; Some (a, Some (expr_yield e), SS_Return e') }
      else do { other_label l Bottom; Some (nothing old) })"
| "collect_stmt l old (NS_WriteTombstone l2 v) =
     (if l2 = l then do { (a, v') \<leftarrow> collect_expr l old v; Some (a, None, SS_WriteTombstone v') }
      else do { other_label l l2; Some (nothing old) })"
| "collect_stmt l old (NS_While l2 c body n) =
     (if l2 = l then do {
        (ca, c') \<leftarrow> collect_expr l old c;
        (ba, ret, s) \<leftarrow> collect_stmt l old body;
        new \<leftarrow> combined_api ca ba;
        Some (add_provides (WhileBinding n) new, ret, SS_While c' s n) }
      else do {
        other_label l l2;
        known \<leftarrow> flows_to l2 l;
        if known then do {
          (ba, ret, s) \<leftarrow> collect_stmt l old body;
          require (WhileBinding n \<in> set (provides old) \<or> WhileBinding n \<in> set (inherits old));
          Some (add_requires (WhileBinding n) ba, ret, SS_ForEach s n) }
        else Some (nothing old) })"
| "collect_stmt l old (NS_If l2 c t e) = do {
     known \<leftarrow> flows_to l2 l;
     if known then do {
       (ca, c') \<leftarrow> collect_expr l old c;
       (ta, tr, t') \<leftarrow> collect_stmt l old t;
       (ea, er, e') \<leftarrow> collect_stmt l old e;
       ret \<leftarrow> join_returns tr er;
       new \<leftarrow> combined_api ca ta;
       new \<leftarrow> combined_api new ea;
       Some (new, ret, SS_If c' t' e') }
     else Some (nothing old) }"
| "collect_stmt l old (NS_Sequence l2 ss) = do {
     (a, ret, ss') \<leftarrow> collect_stmts l old ss;
     Some (a, ret, collapse ss') }"
| "collect_stmts l old [] = Some (base_api old, None, [])"
| "collect_stmts l old (s # ss) = do {
     (a, ret, s') \<leftarrow> collect_stmt l old s;
     (b, rets, ss') \<leftarrow> collect_stmts l old ss;
     ret' \<leftarrow> join_returns ret rets;
     new \<leftarrow> combined_api a b;
     Some (new, ret', s' # ss') }"

section \<open>The sequence of phases\<close>

record prephase =
  level :: label
  returns :: "ytype option"
  ast :: sstmt
  pre_requires :: "vbinding list"
  pre_provides :: "vbinding list"
  pre_inherits :: "vbinding list"

fun labels_in_descending_order :: "label list \<Rightarrow> bool option" where
  "labels_in_descending_order [] = Some True"
| "labels_in_descending_order (l # ls) = do {
     m \<leftarrow> max_of (l # ls); rest \<leftarrow> labels_in_descending_order ls; Some (l = m \<and> rest) }"

text \<open>One phase: extract, drop steps of variables that are not required, drop empty conditionals and with
  them the variables that only they needed, and drop steps again.\<close>

definition extract_phase :: "nstmt \<Rightarrow> vbinding list \<Rightarrow> label \<Rightarrow> (prephase \<times> vbinding list) option" where
  "extract_phase a oldinherit l = do {
     (api, ret, s) \<leftarrow> collect_stmt l \<lparr>requires = [], provides = [], inherits = oldinherit\<rparr> a;
     let cl = clear_empty_statements (remove_unused (requires api) s);
         gone = filter (\<lambda>v. v \<notin> set (still_require cl)) (remove_from_require cl);
         reqs = filter (\<lambda>b. vbinding_name b \<notin> set gone) (remdups (requires api));
         final = remove_unused reqs (cl_ast cl)
     in Some (\<lparr>level = l, returns = ret, ast = final, pre_requires = reqs,
               pre_provides = remdups (provides api), pre_inherits = inherits api\<rparr>,
              inherits api @ provides api) }"

fun split_phases :: "nstmt \<Rightarrow> vbinding list \<Rightarrow> label list \<Rightarrow> prephase list option" where
  "split_phases a inh [] = Some []"
| "split_phases a inh (l # ls) = do {
     desc \<leftarrow> labels_in_descending_order ls;
     require desc;
     (p, next) \<leftarrow> extract_phase a inh l;
     ps \<leftarrow> split_phases a next ls;
     Some (p # ps) }"

text \<open>\<open>processed\<close>: what a phase provides is what some phase requires; the rest of its variables it owns.\<close>

record phase =
  phase_label :: label
  phase_returns :: "ytype option"
  phase_ast :: sstmt
  requirements :: "vbinding list"
  phase_provides :: "vbinding list"
  owned :: "vbinding list"
  passthrough :: "vbinding list"

fun processed :: "prephase list \<Rightarrow> phase list" where
  "processed [] = []"
| "processed (p # ps) =
     (let next_requires = concat (map pre_requires (p # ps))
      in \<lparr>phase_label = level p, phase_returns = returns p, phase_ast = ast p,
          requirements = filter (\<lambda>b. b \<notin> set (pre_provides p)) (pre_requires p),
          phase_provides = filter (\<lambda>b. b \<in> set next_requires) (pre_provides p),
          owned = filter (\<lambda>b. b \<notin> set next_requires) (pre_provides p),
          passthrough = filter (\<lambda>b. b \<in> set next_requires) (pre_inherits p)\<rparr> # processed ps)"

definition split_computation :: "(label list \<Rightarrow> label list) \<Rightarrow> lstmt \<Rightarrow> vbinding list \<Rightarrow> phase list option" where
  "split_computation as_sorted_list s bindings = do {
     a \<leftarrow> easy_processing_pass s;
     ps \<leftarrow> split_phases a bindings (rev (collect_proper_labels as_sorted_list s));
     Some (processed ps) }"

end
