(* ===== verification/Runtime.thy ===== *)
theory Runtime
  imports SplitAst TestingStore "HOL-Library.Signed_Division"
begin

text \<open>
  The runtime of a phase: the holders of its variables (\<open>mtl/environments.hpp\<close>), the store that
  consists of them (\<open>store\<close>, \<open>mtl/runnable_transaction.hpp\<close>), and the interpreter of a phase
  (\<open>mtl/run_phase.hpp\<close>).

  A \<open>type_holder\<close> keeps every value its variable had, with a current position: the phase that owns
  the variable appends, and a later phase moves through the same values.  A \<open>remote_holder\<close> keeps
  handles, and shares the values of their targets with every other variable of the same handle
  type (\<open>remote_map_holder\<close>).  \<^term>\<open>None\<close> is a failed assertion, an access without a matching
  overload, or a loop that has used its fuel.

  What a phase does with the data store is a parameter, the record of operations \<open>remote_ops\<close>.
\<close>

section \<open>Values\<close>

datatype mvalue =
    V_int "32 word"
  | V_bool bool
  | V_size nat
  | V_handle "Name option"
  | V_struct "(name \<times> mvalue) list"
  | V_tombstone tombstone
  | V_list
  | V_other name

section \<open>Holders\<close>

record type_holder =
  th_t :: "mvalue list"
  curr_pos :: int
  th_bound :: bool

definition new_type_holder :: type_holder where
  "new_type_holder = \<lparr>th_t = [], curr_pos = -1, th_bound = False\<rparr>"

definition th_reset_index :: "type_holder \<Rightarrow> type_holder" where
  "th_reset_index h = h\<lparr>curr_pos := -1\<rparr>"

definition th_push :: "mvalue \<Rightarrow> type_holder \<Rightarrow> type_holder" where
  "th_push v h = h\<lparr>th_t := th_t h @ [v], curr_pos := curr_pos h + 1\<rparr>"

definition th_in_range :: "type_holder \<Rightarrow> bool" where
  "th_in_range h \<longleftrightarrow> curr_pos h < int (length (th_t h)) \<and> curr_pos h \<ge> 0"

definition th_bind :: "mvalue \<Rightarrow> type_holder \<Rightarrow> type_holder option" where
  "th_bind v h =
     (let h' = h\<lparr>th_bound := True, th_t := th_t h @ [v], curr_pos := curr_pos h + 1\<rparr>
      in if th_in_range h' then Some h' else None)"

definition th_increment :: "type_holder \<Rightarrow> type_holder" where
  "th_increment h = h\<lparr>curr_pos := curr_pos h + 1\<rparr>"

definition th_get :: "type_holder \<Rightarrow> mvalue option" where
  "th_get h = (if th_in_range h then Some (th_t h ! nat (curr_pos h)) else None)"

text \<open>The holder of a name: a single value, every value, or the handles of a remote variable with the
  position among them.\<close>

datatype holder =
    ValueHolder "mvalue option"
  | TypeHolder type_holder
  | RemoteHolder ytype "Name list" int

record mstore =
  holders :: "name \<Rightarrow> holder option"
  remote_maps :: "ytype \<Rightarrow> (Name \<Rightarrow> type_holder) option"

definition set_holder :: "name \<Rightarrow> holder \<Rightarrow> mstore \<Rightarrow> mstore" where
  "set_holder n h s = s\<lparr>holders := (holders s)(n \<mapsto> h)\<rparr>"

text \<open>The values of a target, one \<open>remote_map_holder\<close> for each handle type that has a variable.\<close>

definition remote_super :: "ytype \<Rightarrow> Name \<Rightarrow> mstore \<Rightarrow> type_holder option" where
  "remote_super y k s = map_option (\<lambda>m. m k) (remote_maps s y)"

definition set_remote :: "ytype \<Rightarrow> Name \<Rightarrow> type_holder \<Rightarrow> mstore \<Rightarrow> mstore" where
  "set_remote y k h s =
     s\<lparr>remote_maps := (remote_maps s)(y := map_option (\<lambda>m. m(k := h)) (remote_maps s y))\<rparr>"

fun holder_begin_phase :: "holder \<Rightarrow> holder" where
  "holder_begin_phase (ValueHolder v) = ValueHolder v"
| "holder_begin_phase (TypeHolder h) = TypeHolder (th_reset_index h)"
| "holder_begin_phase (RemoteHolder y hs p) = RemoteHolder y hs (-1)"

definition begin_phase :: "mstore \<Rightarrow> mstore" where
  "begin_phase s = \<lparr>holders = (\<lambda>n. map_option holder_begin_phase (holders s n)),
                    remote_maps = (\<lambda>y. map_option (\<lambda>m k. th_reset_index (m k)) (remote_maps s y))\<rparr>"

text \<open>\<open>this_super\<close>: where the values of the current target of a remote variable are.\<close>

definition current_handle :: "Name list \<Rightarrow> int \<Rightarrow> Name option" where
  "current_handle hs p = (if p < int (length hs) \<and> p \<ge> 0 then Some (hs ! nat p) else None)"

section \<open>Operations on a store\<close>

record 'r remote_ops =
  r_get :: "'r \<Rightarrow> Name \<Rightarrow> (mvalue \<times> 'r) option"
  r_put :: "'r \<Rightarrow> Name \<Rightarrow> mvalue \<Rightarrow> 'r option"
  r_valid :: "'r \<Rightarrow> Name option \<Rightarrow> bool"
  r_create :: "'r \<Rightarrow> Name \<Rightarrow> mvalue \<Rightarrow> (Name \<times> 'r) option"
  r_operation :: "'r \<Rightarrow> name \<Rightarrow> Name \<Rightarrow> mvalue list \<Rightarrow> (mvalue \<times> 'r) option"
  r_read_tracking :: "'r \<Rightarrow> Name \<Rightarrow> 'r option"
  r_accompany_write :: "'r \<Rightarrow> Name \<Rightarrow> Name \<Rightarrow> 'r option"
  r_write_tombstone :: "'r \<Rightarrow> Name \<Rightarrow> 'r option"
  r_generate_tombstone :: "'r \<Rightarrow> tombstone \<times> 'r"

type_synonym 'r mstate = "mstore \<times> 'r"

definition store_get :: "name \<Rightarrow> mstore \<Rightarrow> mvalue option" where
  "store_get n s =
     (if n = ''true'' then Some (V_bool True)
      else if n = ''false'' then Some (V_bool False)
      else if n = ''default list'' then Some V_list
      else case holders s n of
        None \<Rightarrow> None
      | Some (ValueHolder v) \<Rightarrow> v
      | Some (TypeHolder h) \<Rightarrow> th_get h
      | Some (RemoteHolder y hs p) \<Rightarrow> do { k \<leftarrow> current_handle hs p; h \<leftarrow> remote_super y k s; th_get h })"

definition store_get_remote :: "name \<Rightarrow> mstore \<Rightarrow> Name option" where
  "store_get_remote n s =
     (case holders s n of Some (RemoteHolder y hs p) \<Rightarrow> current_handle hs p | _ \<Rightarrow> None)"

text \<open>\<open>bind\<close>.  A remote variable is bound to a handle, whose target is read.\<close>

definition store_bind :: "'r remote_ops \<Rightarrow> name \<Rightarrow> mvalue \<Rightarrow> 'r mstate \<Rightarrow> 'r mstate option" where
  "store_bind ops n v st = (case st of (s, r) \<Rightarrow>
     (case holders s n of
        None \<Rightarrow> None
      | Some (ValueHolder _) \<Rightarrow> Some (set_holder n (ValueHolder (Some v)) s, r)
      | Some (TypeHolder h) \<Rightarrow> do { h \<leftarrow> th_bind v h; Some (set_holder n (TypeHolder h) s, r) }
      | Some (RemoteHolder y hs p) \<Rightarrow>
          (case v of
             V_handle (Some k) \<Rightarrow> do {
               cur \<leftarrow> current_handle (hs @ [k]) (p + 1);
               (target, r) \<leftarrow> r_get ops r cur;
               h \<leftarrow> remote_super y cur s;
               h \<leftarrow> th_bind target h;
               r \<leftarrow> r_read_tracking ops r cur;
               Some (set_remote y cur h (set_holder n (RemoteHolder y (hs @ [k]) (p + 1)) s), r) }
           | _ \<Rightarrow> None)))"

text \<open>\<open>push\<close>.  A remote variable also writes its latest handle.\<close>

definition store_push :: "'r remote_ops \<Rightarrow> name \<Rightarrow> mvalue \<Rightarrow> 'r mstate \<Rightarrow> 'r mstate option" where
  "store_push ops n v st = (case st of (s, r) \<Rightarrow>
     (case holders s n of
        None \<Rightarrow> None
      | Some (ValueHolder None) \<Rightarrow> None
      | Some (ValueHolder (Some _)) \<Rightarrow> Some (set_holder n (ValueHolder (Some v)) s, r)
      | Some (TypeHolder h) \<Rightarrow> Some (set_holder n (TypeHolder (th_push v h)) s, r)
      | Some (RemoteHolder y hs p) \<Rightarrow> do {
          cur \<leftarrow> current_handle hs p;
          h \<leftarrow> remote_super y cur s;
          let h = th_push v h;
          r \<leftarrow> r_put ops r (last hs) (last (th_t h));
          Some (set_remote y cur h s, r) }))"

definition store_increment :: "name \<Rightarrow> mstore \<Rightarrow> mstore option" where
  "store_increment n s =
     (case holders s n of
        Some (TypeHolder h) \<Rightarrow> Some (set_holder n (TypeHolder (th_increment h)) s)
      | Some (RemoteHolder y hs p) \<Rightarrow>
          (if p \<ge> 0 then do {
             cur \<leftarrow> current_handle hs p; h \<leftarrow> remote_super y cur s;
             Some (set_remote y cur (th_increment h) s) }
           else Some s)
      | _ \<Rightarrow> None)"

definition store_increment_remote :: "name \<Rightarrow> mstore \<Rightarrow> mstore option" where
  "store_increment_remote n s =
     (case holders s n of
        Some (RemoteHolder y hs p) \<Rightarrow> do {
          _ \<leftarrow> current_handle hs (p + 1);
          store_increment n (set_holder n (RemoteHolder y hs (p + 1)) s) }
      | _ \<Rightarrow> None)"

text \<open>\<open>remote_map_holder::increment_matching\<close> increments a copy of the holder: the store keeps the old one.\<close>

definition increment_matching :: "ytype \<Rightarrow> Name \<Rightarrow> mstore \<Rightarrow> mstore" where
  "increment_matching y k s =
     (let this = map_option th_increment (remote_super y k s) in s)"

text \<open>Without a variable of the handle type no alias is possible, and there is nothing to refresh.\<close>

definition refresh_remote :: "'r remote_ops \<Rightarrow> ytype \<Rightarrow> Name \<Rightarrow> 'r mstate \<Rightarrow> 'r mstate option" where
  "refresh_remote ops y k st = (case st of (s, r) \<Rightarrow>
     (case remote_super y k s of
        None \<Rightarrow> Some (s, r)
      | Some h \<Rightarrow> do { (v, r) \<leftarrow> r_get ops r k; Some (set_remote y k (th_push v h) s, r) }))"

section \<open>Expressions\<close>

text \<open>An \<open>int\<close> that does not fit is undefined behaviour, as is a division by zero.  Operators on other types than
  \<open>int\<close> and \<open>bool\<close> are overloads of the types that a program brings, and are not modelled.\<close>

definition int_result :: "int \<Rightarrow> mvalue option" where
  "int_result i = (if - (2 ^ 31) \<le> i \<and> i < 2 ^ 31 then Some (V_int (word_of_int i)) else None)"

text \<open>The conversions of C++ between \<open>int\<close> and \<open>bool\<close> in front of an operator.\<close>

fun as_int :: "mvalue \<Rightarrow> int option" where
  "as_int (V_int w) = Some (sint w)"
| "as_int (V_bool b) = Some (of_bool b)"
| "as_int _ = None"

fun as_bool :: "mvalue \<Rightarrow> bool option" where
  "as_bool (V_int w) = Some (w \<noteq> 0)"
| "as_bool (V_bool b) = Some b"
| "as_bool _ = None"

definition int_binop :: "char \<Rightarrow> int \<Rightarrow> int \<Rightarrow> mvalue option" where
  "int_binop op a b =
     (if op = CHR ''+'' then int_result (a + b)
      else if op = CHR ''-'' then int_result (a - b)
      else if op = CHR ''*'' then int_result (a * b)
      else if op = CHR ''/'' then (if b = 0 then None else int_result (a sdiv b))
      else if op = CHR ''='' then Some (V_bool (a = b))
      else if op = CHR ''>'' then Some (V_bool (a > b))
      else if op = CHR ''<'' then Some (V_bool (a < b))
      else None)"

definition binop_value :: "char \<Rightarrow> mvalue \<Rightarrow> mvalue \<Rightarrow> mvalue option" where
  "binop_value op x z =
     (if op = CHR ''&'' then do { a \<leftarrow> as_bool x; b \<leftarrow> as_bool z; Some (V_bool (a \<and> b)) }
      else if op = CHR ''|'' then do { a \<leftarrow> as_bool x; b \<leftarrow> as_bool z; Some (V_bool (a \<or> b)) }
      else do { a \<leftarrow> as_int x; b \<leftarrow> as_int z; int_binop op a b })"

text \<open>\<open>&\<close> and \<open>|\<close> do not evaluate the second operand where the first decides.\<close>

definition decided :: "char \<Rightarrow> mvalue \<Rightarrow> mvalue option" where
  "decided op x =
     (if op = CHR ''&'' \<and> as_bool x = Some False then Some (V_bool False)
      else if op = CHR ''|'' \<and> as_bool x = Some True then Some (V_bool True)
      else None)"

fun struct_field :: "name \<Rightarrow> mvalue \<Rightarrow> mvalue option" where
  "struct_field f (V_struct fs) = map_of fs f"
| "struct_field f _ = None"

definition set_field :: "name \<Rightarrow> mvalue \<Rightarrow> mvalue \<Rightarrow> mvalue option" where
  "set_field f x v =
     (case v of
        V_struct fs \<Rightarrow>
          (if f \<in> fst ` set fs then Some (V_struct (map (\<lambda>(g, y). if g = f then (g, x) else (g, y)) fs)) else None)
      | _ \<Rightarrow> None)"

definition the_handle :: "mvalue \<Rightarrow> Name option" where
  "the_handle v = (case v of V_handle h \<Rightarrow> h | _ \<Rightarrow> None)"

text \<open>The operands of an operator and the arguments of an operation are evaluated from left to right (C++
  leaves the order open; after flattening they are variables).  A \<open>push_back\<close> on the list stub
  works through a shared pointer and is not modelled.\<close>

fun run_expr :: "'r remote_ops \<Rightarrow> sexpr \<Rightarrow> 'r mstate \<Rightarrow> (mvalue \<times> 'r mstate) option"
  and run_exprs :: "'r remote_ops \<Rightarrow> sexpr list \<Rightarrow> 'r mstate \<Rightarrow> (mvalue list \<times> 'r mstate) option" where
  "run_expr ops (SE_FieldReference y e f) st = do {
     (v, st) \<leftarrow> run_expr ops e st; x \<leftarrow> struct_field f v; Some (x, st) }"
| "run_expr ops (SE_VarReference y n) st = do { v \<leftarrow> store_get n (fst st); Some (v, st) }"
| "run_expr ops (SE_Constant i) st = Some (V_int (of_int i), st)"
| "run_expr ops (SE_BinOp y op a b) st = do {
     (x, st) \<leftarrow> run_expr ops a st;
     (case decided op x of
        Some w \<Rightarrow> Some (w, st)
      | None \<Rightarrow> do { (z, st) \<leftarrow> run_expr ops b st; w \<leftarrow> binop_value op x z; Some (w, st) }) }"
| "run_expr ops SE_GenerateTombstone st =
     (let (t, r) = r_generate_tombstone ops (snd st) in Some (V_tombstone t, (fst st, r)))"
| "run_expr ops (SE_IsValid h) st = do {
     (v, st) \<leftarrow> run_expr ops h st;
     (case v of V_handle k \<Rightarrow> Some (V_bool (r_valid ops (snd st) k), st) | _ \<Rightarrow> None) }"
| "run_expr ops (SE_Operation y n h as) st = do {
     (hv, st) \<leftarrow> run_expr ops h st;
     (if n = ''nulled'' then (case hv of V_handle _ \<Rightarrow> Some (V_handle None, st) | _ \<Rightarrow> None)
      else if n = ''push_back'' then None
      else do {
        k \<leftarrow> the_handle hv;
        (vs, st) \<leftarrow> run_exprs ops as st;
        (if n = ''new'' then
           (case vs of
              [v] \<Rightarrow> do { (k', r) \<leftarrow> r_create ops (snd st) k v; Some (V_handle (Some k'), (fst st, r)) }
            | _ \<Rightarrow> None)
         else do { (v, r) \<leftarrow> r_operation ops (snd st) n k vs; Some (v, (fst st, r)) }) }) }"
| "run_exprs ops [] st = Some ([], st)"
| "run_exprs ops (e # es) st = do {
     (v, st) \<leftarrow> run_expr ops e st; (vs, st) \<leftarrow> run_exprs ops es st; Some (v # vs, st) }"

section \<open>Statements\<close>

definition run_binding :: "'r remote_ops \<Rightarrow> sbinding \<Rightarrow> 'r mstate \<Rightarrow> 'r mstate option" where
  "run_binding ops b st = (case b of SBinding l y n e \<Rightarrow> do {
     (v, st) \<leftarrow> run_expr ops e st; store_bind ops n v st })"

text \<open>An assignment to a variable or to a field of one.\<close>

definition run_assignment :: "'r remote_ops \<Rightarrow> sexpr \<Rightarrow> sexpr \<Rightarrow> 'r mstate \<Rightarrow> 'r mstate option" where
  "run_assignment ops lhs e st =
     (case lhs of
        SE_VarReference y n \<Rightarrow> do { (v, st) \<leftarrow> run_expr ops e st; store_push ops n v st }
      | SE_FieldReference y1 (SE_VarReference y2 n) f \<Rightarrow> do {
          strct \<leftarrow> store_get n (fst st);
          (v, st) \<leftarrow> run_expr ops e st;
          strct \<leftarrow> set_field f v strct;
          store_push ops n strct st }
      | _ \<Rightarrow> None)"

definition tombstone_str :: name where
  "tombstone_str = ''tombstone'' @ [CHR 0x00]"

definition tombstone_value :: "name \<Rightarrow> mstore \<Rightarrow> Name option" where
  "tombstone_value n s = (case store_get n s of Some (V_tombstone t) \<Rightarrow> Some (tombstone_name t) | _ \<Rightarrow> None)"

fun run_accompany_write :: "'r remote_ops \<Rightarrow> sexpr \<Rightarrow> 'r mstate \<Rightarrow> 'r mstate option" where
  "run_accompany_write ops (SE_VarReference y n) st = do {
     k \<leftarrow> store_get_remote n (fst st);
     t \<leftarrow> tombstone_value tombstone_str (fst st);
     r \<leftarrow> r_accompany_write ops (snd st) k t;
     Some (fst st, r) }"
| "run_accompany_write ops (SE_FieldReference y1 (SE_VarReference y n) f) st = do {
     k \<leftarrow> store_get_remote n (fst st);
     t \<leftarrow> tombstone_value tombstone_str (fst st);
     r \<leftarrow> r_accompany_write ops (snd st) k t;
     Some (fst st, r) }"
| "run_accompany_write ops _ st = None"

text \<open>The counter of a loop is an \<open>int\<close>.\<close>

definition counter_fits :: "nat \<Rightarrow> bool" where
  "counter_fits i \<longleftrightarrow> int i < 2 ^ 31"

text \<open>The first component of the result is the value of a \<open>Return\<close>, which ends the phase.  The fuel bounds the
  iterations of \<open>While\<close> on any path; the other loops are bounded by themselves.\<close>

function (sequential) run_stmt :: "nat \<Rightarrow> 'r remote_ops \<Rightarrow> sstmt \<Rightarrow> 'r mstate \<Rightarrow> (mvalue option \<times> 'r mstate) option"
  and run_stmts :: "nat \<Rightarrow> 'r remote_ops \<Rightarrow> sstmt list \<Rightarrow> 'r mstate \<Rightarrow> (mvalue option \<times> 'r mstate) option"
  and run_while :: "nat \<Rightarrow> 'r remote_ops \<Rightarrow> sexpr \<Rightarrow> sstmt \<Rightarrow> name \<Rightarrow> nat \<Rightarrow> 'r mstate \<Rightarrow> (mvalue option \<times> 'r mstate) option"
  and run_for_each :: "nat \<Rightarrow> 'r remote_ops \<Rightarrow> sstmt \<Rightarrow> nat \<Rightarrow> 'r mstate \<Rightarrow> (mvalue option \<times> 'r mstate) option" where
  "run_stmt k ops (SS_Let b body) st = do { st \<leftarrow> run_binding ops b st; run_stmt k ops body st }"
| "run_stmt k ops (SS_LetRemote b body) st = do { st \<leftarrow> run_binding ops b st; run_stmt k ops body st }"
| "run_stmt k ops (SS_Operation n h as) st = do {
     (_, st) \<leftarrow> run_expr ops (SE_Operation Y_int n h as) st; Some (None, st) }"
| "run_stmt k ops (SS_Assignment v e) st = do { st \<leftarrow> run_assignment ops v e st; Some (None, st) }"
| "run_stmt k ops (SS_Return e) st = do { (v, st) \<leftarrow> run_expr ops e st; Some (Some v, st) }"
| "run_stmt k ops (SS_WriteTombstone e) st =
     (case e of
        SE_VarReference y n \<Rightarrow> do {
          t \<leftarrow> tombstone_value n (fst st); r \<leftarrow> r_write_tombstone ops (snd st) t; Some (None, (fst st, r)) }
      | _ \<Rightarrow> None)"
| "run_stmt k ops (SS_AccompanyWrite e) st = do { st \<leftarrow> run_accompany_write ops e st; Some (None, st) }"
| "run_stmt k ops (SS_IncrementOccurance n) st = do {
     s \<leftarrow> store_increment n (fst st); Some (None, (s, snd st)) }"
| "run_stmt k ops (SS_IncrementRemoteOccurance n) st = do {
     s \<leftarrow> store_increment_remote n (fst st); Some (None, (s, snd st)) }"
| "run_stmt k ops (SS_IncrementHandle y n) st = do {
     v \<leftarrow> store_get n (fst st); h \<leftarrow> the_handle v; Some (None, (increment_matching y h (fst st), snd st)) }"
| "run_stmt k ops (SS_RefreshRemoteOccurance y n) st = do {
     v \<leftarrow> store_get n (fst st); h \<leftarrow> the_handle v; st \<leftarrow> refresh_remote ops y h st; Some (None, st) }"
| "run_stmt k ops (SS_If c t e) st = do {
     (v, st) \<leftarrow> run_expr ops c st;
     (case v of
        V_bool True \<Rightarrow> run_stmt k ops t st
      | V_bool False \<Rightarrow> run_stmt k ops e st
      | _ \<Rightarrow> None) }"
| "run_stmt k ops (SS_While c t n) st = do {
     st \<leftarrow> store_bind ops n (V_size 0) st;
     run_while k ops c t n 0 st }"
| "run_stmt k ops (SS_ForEach t n) st = do {
     v \<leftarrow> store_get n (fst st);
     (case v of V_size bound \<Rightarrow> run_for_each k ops t bound st | _ \<Rightarrow> None) }"
| "run_stmt k ops (SS_Sequence ss) st = run_stmts k ops ss st"
| "run_stmts k ops [] st = Some (None, st)"
| "run_stmts k ops (s # ss) st = do {
     (ret, st) \<leftarrow> run_stmt k ops s st;
     (case ret of Some v \<Rightarrow> Some (Some v, st) | None \<Rightarrow> run_stmts k ops ss st) }"
| "run_while 0 ops c t n i st = None"
| "run_while (Suc k) ops c t n i st = do {
     (v, st) \<leftarrow> run_expr ops c st;
     (case v of
        V_bool False \<Rightarrow> Some (None, st)
      | V_bool True \<Rightarrow>
          (if counter_fits (Suc i) then do {
             st \<leftarrow> store_push ops n (V_size (Suc i)) st;
             (ret, st) \<leftarrow> run_stmt k ops t st;
             (case ret of Some v \<Rightarrow> Some (Some v, st) | None \<Rightarrow> run_while k ops c t n (Suc i) st) }
           else None)
      | _ \<Rightarrow> None) }"
| "run_for_each k ops t 0 st = Some (None, st)"
| "run_for_each k ops t (Suc j) st = do {
     (ret, st) \<leftarrow> run_stmt k ops t st;
     (case ret of Some v \<Rightarrow> Some (Some v, st) | None \<Rightarrow> run_for_each k ops t j st) }"
  by pat_completeness auto

termination
  by (relation "measures
       [\<lambda>x. case x of Inl (Inl (k, _)) \<Rightarrow> k | Inl (Inr (k, _)) \<Rightarrow> k
                 | Inr (Inl (k, _)) \<Rightarrow> k | Inr (Inr (k, _)) \<Rightarrow> k,
        \<lambda>x. case x of Inl (Inl (_, _, s, _)) \<Rightarrow> 2 * size s | Inl (Inr (_, _, ss, _)) \<Rightarrow> 2 * size_list size ss
                 | Inr (Inl (_, _, _, t, _)) \<Rightarrow> 2 * size t + 1 | Inr (Inr (_, _, t, _)) \<Rightarrow> 2 * size t + 1,
        \<lambda>x. case x of Inr (Inr (_, _, _, j, _)) \<Rightarrow> j | _ \<Rightarrow> 0]") auto

text \<open>When a run succeeds, construct by construct.\<close>

lemma run_BinOp_iff:
  "run_expr ops (SE_BinOp y op a b) st = Some (v, st') \<longleftrightarrow>
   (\<exists>x st1. run_expr ops a st = Some (x, st1) \<and>
      (decided op x = Some v \<and> st' = st1 \<or>
       decided op x = None \<and> (\<exists>z. run_expr ops b st1 = Some (z, st') \<and> binop_value op x z = Some v)))"
proof (cases "run_expr ops a st")
  case (Some p)
  obtain x st1 where p: "p = (x, st1)" by (cases p)
  with Some show ?thesis by (cases "decided op x"; cases st') (auto simp: bind_Some_iff)
qed simp

lemma run_IsValid_iff:
  "run_expr ops (SE_IsValid h) st = Some (v, st') \<longleftrightarrow>
   (\<exists>k. run_expr ops h st = Some (V_handle k, st') \<and> v = V_bool (r_valid ops (snd st') k))"
proof (cases "run_expr ops h st")
  case (Some p)
  obtain x st1 where p: "p = (x, st1)" by (cases p)
  with Some show ?thesis by (cases x; cases st') auto
qed simp

lemma run_Let_iff:
  "run_stmt k ops (SS_Let b s) st = Some res \<longleftrightarrow>
   (\<exists>st1. run_binding ops b st = Some st1 \<and> run_stmt k ops s st1 = Some res)"
  by (auto simp: bind_Some_iff)

lemma run_LetRemote_iff:
  "run_stmt k ops (SS_LetRemote b s) st = Some res \<longleftrightarrow>
   (\<exists>st1. run_binding ops b st = Some st1 \<and> run_stmt k ops s st1 = Some res)"
  by (auto simp: bind_Some_iff)

lemma run_If_iff:
  "run_stmt k ops (SS_If c t e) st = Some res \<longleftrightarrow>
   (\<exists>b st1. run_expr ops c st = Some (V_bool b, st1) \<and> run_stmt k ops (if b then t else e) st1 = Some res)"
proof (cases "run_expr ops c st")
  case (Some a)
  then show ?thesis by (cases a; cases "fst a") (auto split: bool.splits)
qed simp

lemma run_While_iff:
  "run_stmt k ops (SS_While c t n) st = Some res \<longleftrightarrow>
   (\<exists>st1. store_bind ops n (V_size 0) st = Some st1 \<and> run_while k ops c t n 0 st1 = Some res)"
  by (auto simp: bind_Some_iff)

lemma run_ForEach_iff:
  "run_stmt k ops (SS_ForEach t n) st = Some res \<longleftrightarrow>
   (\<exists>j. store_get n (fst st) = Some (V_size j) \<and> run_for_each k ops t j st = Some res)"
proof (cases "store_get n (fst st)")
  case (Some a)
  then show ?thesis by (cases a) auto
qed simp

text \<open>After a statement that has not returned, the rest runs.\<close>

lemma run_rest_iff:
  "(do { (ret, st) \<leftarrow> m; (case ret of Some v \<Rightarrow> Some (Some v, st) | None \<Rightarrow> f st) }) = Some res \<longleftrightarrow>
   (\<exists>st1. m = Some (None, st1) \<and> f st1 = Some res) \<or> (\<exists>v st1. m = Some (Some v, st1) \<and> res = (Some v, st1))"
proof (cases m)
  case (Some a)
  then show ?thesis by (cases a; cases "fst a") auto
qed simp

lemma run_stmts_Cons_iff:
  "run_stmts k ops (s # ss) st = Some res \<longleftrightarrow>
   (\<exists>st1. run_stmt k ops s st = Some (None, st1) \<and> run_stmts k ops ss st1 = Some res) \<or>
   (\<exists>v st1. run_stmt k ops s st = Some (Some v, st1) \<and> res = (Some v, st1))"
  unfolding run_stmts.simps by (rule run_rest_iff)

lemma run_for_each_Suc_iff:
  "run_for_each k ops t (Suc j) st = Some res \<longleftrightarrow>
   (\<exists>st1. run_stmt k ops t st = Some (None, st1) \<and> run_for_each k ops t j st1 = Some res) \<or>
   (\<exists>v st1. run_stmt k ops t st = Some (Some v, st1) \<and> res = (Some v, st1))"
  unfolding run_for_each.simps by (rule run_rest_iff)

lemma run_while_Suc_iff:
  "run_while (Suc k) ops c t n i st = Some res \<longleftrightarrow>
   (\<exists>st1. run_expr ops c st = Some (V_bool False, st1) \<and> res = (None, st1)) \<or>
   (\<exists>st1 st2. run_expr ops c st = Some (V_bool True, st1) \<and> counter_fits (Suc i) \<and>
      store_push ops n (V_size (Suc i)) st1 = Some st2 \<and>
      ((\<exists>st3. run_stmt k ops t st2 = Some (None, st3) \<and> run_while k ops c t n (Suc i) st3 = Some res) \<or>
       (\<exists>v st3. run_stmt k ops t st2 = Some (Some v, st3) \<and> res = (Some v, st3))))"
proof (cases "run_expr ops c st")
  case (Some a)
  obtain v st1 where a: "a = (v, st1)" by (cases a)
  show ?thesis
  proof (cases "v = V_bool True \<and> counter_fits (Suc i)")
    case True
    with Some a show ?thesis
      by (cases "store_push ops n (V_size (Suc i)) st1") (auto simp: run_rest_iff)
  next
    case False
    with Some a show ?thesis by (cases v) (auto split: bool.splits)
  qed
qed simp

lemmas run_iffs = run_Let_iff run_LetRemote_iff run_If_iff run_While_iff run_ForEach_iff
  run_stmts_Cons_iff run_for_each_Suc_iff run_while_Suc_iff

lemma run_Sequence: "run_stmt k ops (SS_Sequence ss) st = run_stmts k ops ss st"
  by simp

text \<open>Data stores on which every operation fails, for programs over local variables.\<close>

definition no_store :: "unit remote_ops" where
  "no_store = \<lparr>r_get = (\<lambda>_ _. None), r_put = (\<lambda>_ _ _. None), r_valid = (\<lambda>_ _. False),
     r_create = (\<lambda>_ _ _. None), r_operation = (\<lambda>_ _ _ _. None), r_read_tracking = (\<lambda>_ _. None),
     r_accompany_write = (\<lambda>_ _ _. None), r_write_tombstone = (\<lambda>_ _. None),
     r_generate_tombstone = (\<lambda>_. (\<lparr>nonce = 0, ip_addr = 0, portno = 0\<rparr>, ()))\<rparr>"

end
