(* ===== verification/Source.thy ===== *)
theory Source
  imports SplitPhase Runtime "HOL-Library.Sublist"
begin

text \<open>
  The meaning of a program, before it is split: a run over histories, in which every variable has the
  list of all the values it ever had.  It covers programs over local variables, with conditionals,
  loops and a returned value.  \<open>well_labelled\<close> tells the programs whose labels let a phase follow what
  the phases before it did.
\<close>

section \<open>The meaning of a program\<close>

type_synonym hist = "name \<Rightarrow> mvalue list"

definition append_hist :: "name \<Rightarrow> mvalue \<Rightarrow> hist \<Rightarrow> hist" where
  "append_hist n v H = H(n := H n @ [v])"

definition src_get :: "name \<Rightarrow> hist \<Rightarrow> mvalue option" where
  "src_get n H =
     (if n = ''true'' then Some (V_bool True)
      else if n = ''false'' then Some (V_bool False)
      else if n = ''default list'' then Some V_list
      else if H n = [] then None else Some (last (H n)))"

fun src_expr :: "lexpr \<Rightarrow> hist \<Rightarrow> mvalue option" where
  "src_expr (LE_FieldReference l y e f) H = do { v \<leftarrow> src_expr e H; struct_field f v }"
| "src_expr (LE_VarReference l y n) H = src_get n H"
| "src_expr (LE_Constant i) H = Some (V_int (of_int i))"
| "src_expr (LE_BinOp l y op a b) H = do {
     x \<leftarrow> src_expr a H;
     (case decided op x of
        Some w \<Rightarrow> Some w
      | None \<Rightarrow> do { z \<leftarrow> src_expr b H; binop_value op x z }) }"
| "src_expr _ H = None"

text \<open>An assignment needs a variable that has a value.\<close>

definition src_assignment :: "lexpr \<Rightarrow> lexpr \<Rightarrow> hist \<Rightarrow> hist option" where
  "src_assignment lhs e H =
     (case lhs of
        LE_VarReference l y n \<Rightarrow>
          (if H n = [] then None else do { v \<leftarrow> src_expr e H; Some (append_hist n v H) })
      | LE_FieldReference l1 y1 (LE_VarReference l2 y2 n) f \<Rightarrow>
          (if H n = [] then None else do {
             v \<leftarrow> src_expr e H; w \<leftarrow> set_field f v (last (H n)); Some (append_hist n w H) })
      | _ \<Rightarrow> None)"

text \<open>The history of a loop is the number of iterations of each of its runs.\<close>

function (sequential) src_stmt :: "nat \<Rightarrow> nstmt \<Rightarrow> hist \<Rightarrow> (mvalue option \<times> hist) option"
  and src_stmts :: "nat \<Rightarrow> nstmt list \<Rightarrow> hist \<Rightarrow> (mvalue option \<times> hist) option"
  and src_while :: "nat \<Rightarrow> lexpr \<Rightarrow> nstmt \<Rightarrow> nat \<Rightarrow> hist \<Rightarrow> (nat \<times> hist) option" where
  "src_stmt k (NS_Let l (LBinding bl y n e) body) H = do {
     v \<leftarrow> src_expr e H; src_stmt k body (append_hist n v H) }"
| "src_stmt k (NS_Assignment l v e) H = do { H \<leftarrow> src_assignment v e H; Some (None, H) }"
| "src_stmt k (NS_Return e) H = do { v \<leftarrow> src_expr e H; Some (Some v, H) }"
| "src_stmt k (NS_If l c t e) H = do {
     b \<leftarrow> src_expr c H;
     (case b of V_bool p \<Rightarrow> if p then src_stmt k t H else src_stmt k e H | _ \<Rightarrow> None) }"
| "src_stmt k (NS_While l c body n) H = do {
     (i, H) \<leftarrow> src_while k c body 0 H; Some (None, append_hist n (V_size i) H) }"
| "src_stmt k (NS_Sequence l ss) H = src_stmts k ss H"
| "src_stmt k _ H = None"
| "src_stmts k [] H = Some (None, H)"
| "src_stmts k (s # ss) H = do {
     (ret, H) \<leftarrow> src_stmt k s H;
     (case ret of Some v \<Rightarrow> Some (Some v, H) | None \<Rightarrow> src_stmts k ss H) }"
| "src_while 0 c body i H = None"
| "src_while (Suc k) c body i H = do {
     b \<leftarrow> src_expr c H;
     (case b of
        V_bool p \<Rightarrow>
          (if p then (if counter_fits (Suc i) then do {
                        (ret, H) \<leftarrow> src_stmt k body H;
                        (if ret = None then src_while k c body (Suc i) H else None) }
                      else None)
           else Some (i, H))
      | _ \<Rightarrow> None) }"
  by pat_completeness auto

termination
  by (relation "measures
       [\<lambda>x. case x of Inl (k, _) \<Rightarrow> k | Inr (Inl (k, _)) \<Rightarrow> k | Inr (Inr (k, _)) \<Rightarrow> k,
        \<lambda>x. case x of Inl (_, s, _) \<Rightarrow> 2 * size s | Inr (Inl (_, ss, _)) \<Rightarrow> 2 * size_list size ss
                 | Inr (Inr (_, _, t, _)) \<Rightarrow> 2 * size t + 1]") auto

section \<open>Well-labelled programs\<close>

text \<open>The labels at which a program does something.\<close>

fun stmt_labels :: "nstmt \<Rightarrow> label set" where
  "stmt_labels (NS_Let l b s) = insert l (stmt_labels s)"
| "stmt_labels (NS_LetRemote l b s) = insert l (stmt_labels s)"
| "stmt_labels (NS_If l c t e) = stmt_labels t \<union> stmt_labels e"
| "stmt_labels (NS_While l c s n) = insert l (stmt_labels s)"
| "stmt_labels (NS_Sequence l ss) = (\<Union>s \<in> set ss. stmt_labels s)"
| "stmt_labels (NS_Return e) = {Bottom}"
| "stmt_labels (NS_Operation l n h as) = {l}"
| "stmt_labels (NS_Assignment l v e) = {l}"
| "stmt_labels (NS_WriteTombstone l e) = {l}"
| "stmt_labels (NS_AccompanyWrite l e) = {l}"

fun loop_names :: "nstmt \<Rightarrow> name set" where
  "loop_names (NS_Let l b s) = loop_names s"
| "loop_names (NS_LetRemote l b s) = loop_names s"
| "loop_names (NS_If l c t e) = loop_names t \<union> loop_names e"
| "loop_names (NS_While l c s n) = insert n (loop_names s)"
| "loop_names (NS_Sequence l ss) = (\<Union>s \<in> set ss. loop_names s)"
| "loop_names _ = {}"

fun no_return :: "nstmt \<Rightarrow> bool" where
  "no_return (NS_Let l b s) = no_return s"
| "no_return (NS_LetRemote l b s) = no_return s"
| "no_return (NS_If l c t e) = (no_return t \<and> no_return e)"
| "no_return (NS_While l c s n) = no_return s"
| "no_return (NS_Sequence l ss) = (\<forall>s \<in> set ss. no_return s)"
| "no_return (NS_Return e) = False"
| "no_return _ = True"

text \<open>
  \<open>lam\<close> gives each variable the one label at which it is bound and assigned, and each loop its
  label; \<open>isloop\<close> tells the names of loops from those of variables.
\<close>

fun vars_ok :: "(name \<Rightarrow> label) \<Rightarrow> (name \<Rightarrow> bool) \<Rightarrow> lexpr \<Rightarrow> bool" where
  "vars_ok lam isloop (LE_FieldReference l y e f) = vars_ok lam isloop e"
| "vars_ok lam isloop (LE_VarReference l y n) =
     (if is_builtin n then n \<in> {''true'', ''false'', ''default list''} else lam n = l \<and> \<not> isloop n)"
| "vars_ok lam isloop (LE_Constant i) = True"
| "vars_ok lam isloop (LE_BinOp l y op a b) = (vars_ok lam isloop a \<and> vars_ok lam isloop b)"
| "vars_ok lam isloop _ = False"

definition target_ok :: "(name \<Rightarrow> label) \<Rightarrow> (name \<Rightarrow> bool) \<Rightarrow> label \<Rightarrow> lexpr \<Rightarrow> bool" where
  "target_ok lam isloop l v \<longleftrightarrow>
     vars_ok lam isloop v \<and> (case base_var v of Some n \<Rightarrow> lam n = l \<and> \<not> is_builtin n | None \<Rightarrow> False)"

lemma target_ok_iff:
  "target_ok lam isloop l v \<longleftrightarrow> vars_ok lam isloop v \<and> (\<exists>n. base_var v = Some n \<and> lam n = l \<and> \<not> is_builtin n)"
  by (auto simp: target_ok_def split: option.splits)

text \<open>What a conditional or a loop guards has labels that its own label flows to.\<close>

fun well_labelled :: "(name \<Rightarrow> label) \<Rightarrow> (name \<Rightarrow> bool) \<Rightarrow> nstmt \<Rightarrow> bool"
  and well_labelled_seq :: "(name \<Rightarrow> label) \<Rightarrow> (name \<Rightarrow> bool) \<Rightarrow> nstmt list \<Rightarrow> bool" where
  "well_labelled lam isloop (NS_Let l (LBinding bl y n e) body) =
     (lam n = l \<and> \<not> isloop n \<and> \<not> is_builtin n \<and> vars_ok lam isloop e \<and> well_labelled lam isloop body)"
| "well_labelled lam isloop (NS_Assignment l v e) = (target_ok lam isloop l v \<and> vars_ok lam isloop e)"
| "well_labelled lam isloop (NS_Return e) = vars_ok lam isloop e"
| "well_labelled lam isloop (NS_If l c t e) =
     (vars_ok lam isloop c \<and> no_return t \<and> no_return e \<and>
      (\<forall>m \<in> stmt_labels t \<union> stmt_labels e. flows l m) \<and>
      well_labelled lam isloop t \<and> well_labelled lam isloop e)"
| "well_labelled lam isloop (NS_While l c body n) =
     (lam n = l \<and> isloop n \<and> \<not> is_builtin n \<and> n \<notin> loop_names body \<and> no_return body \<and> vars_ok lam isloop c \<and>
      (\<forall>m \<in> stmt_labels body. flows l m) \<and> well_labelled lam isloop body)"
| "well_labelled lam isloop (NS_Sequence l ss) = well_labelled_seq lam isloop ss"
| "well_labelled lam isloop _ = False"
| "well_labelled_seq lam isloop [] = True"
| "well_labelled_seq lam isloop (s # ss) =
     (well_labelled lam isloop s \<and> (no_return s \<or> ss = []) \<and> well_labelled_seq lam isloop ss)"

section \<open>Facts about the meaning of programs\<close>

lemma src_If_iff:
  "src_stmt k (NS_If l c t e) H = Some res \<longleftrightarrow>
   (\<exists>b. src_expr c H = Some (V_bool b) \<and> src_stmt k (if b then t else e) H = Some res)"
proof (cases "src_expr c H")
  case (Some v)
  then show ?thesis by (cases v) auto
qed simp

lemma src_While_iff:
  "src_stmt k (NS_While l c body n) H = Some res \<longleftrightarrow>
   (\<exists>i H1. src_while k c body 0 H = Some (i, H1) \<and> res = (None, append_hist n (V_size i) H1))"
  by (auto simp: bind_Some_iff)

lemma src_stmts_Cons_iff:
  "src_stmts k (s # ss) H = Some res \<longleftrightarrow>
   (\<exists>H1. src_stmt k s H = Some (None, H1) \<and> src_stmts k ss H1 = Some res) \<or>
   (\<exists>v H1. src_stmt k s H = Some (Some v, H1) \<and> res = (Some v, H1))"
  unfolding src_stmts.simps by (rule run_rest_iff)

lemma src_while_Suc_iff:
  "src_while (Suc k) c body i H = Some res \<longleftrightarrow>
   src_expr c H = Some (V_bool False) \<and> res = (i, H) \<or>
   src_expr c H = Some (V_bool True) \<and> counter_fits (Suc i) \<and>
     (\<exists>H1. src_stmt k body H = Some (None, H1) \<and> src_while k c body (Suc i) H1 = Some res)"
proof (cases "src_expr c H")
  case (Some v)
  show ?thesis
  proof (cases "v = V_bool True")
    case True
    with Some show ?thesis by (auto simp: bind_Some_iff)
  next
    case False
    with Some show ?thesis by (cases v) auto
  qed
qed simp

lemmas src_iffs = src_If_iff src_While_iff src_stmts_Cons_iff src_while_Suc_iff

fun written :: "nstmt \<Rightarrow> name set" where
  "written (NS_Let l (LBinding bl y n e) s) = insert n (written s)"
| "written (NS_LetRemote l (LBinding bl y n e) s) = insert n (written s)"
| "written (NS_Assignment l v e) = set_option (base_var v)"
| "written (NS_If l c t e) = written t \<union> written e"
| "written (NS_While l c s n) = insert n (written s)"
| "written (NS_Sequence l ss) = (\<Union>s \<in> set ss. written s)"
| "written _ = {}"

lemma src_assignment_append:
  assumes "src_assignment v e H = Some H'"
  obtains n x where "base_var v = Some n" "H' = append_hist n x H" "H n \<noteq> []"
  using assms
  by (auto simp: src_assignment_def bind_Some_iff split: lexpr.splits if_splits)

text \<open>What every append to a written name respects, every run respects.\<close>

lemma src_while_induct:
  assumes body: "\<And>k H ret H'. src_stmt k body H = Some (ret, H') \<Longrightarrow> R H H'"
    and refl: "\<And>H. R H H" and trans: "\<And>H1 H2 H3. R H1 H2 \<Longrightarrow> R H2 H3 \<Longrightarrow> R H1 H3"
  shows "src_while k c body i H = Some (j, H') \<Longrightarrow> R H H'"
proof (induction k arbitrary: i H)
  case (Suc k)
  from Suc.prems[unfolded src_while_Suc_iff] show ?case
    using Suc.IH body trans refl by blast
qed simp

lemma src_stmts_induct:
  assumes "\<And>s k H ret H'. s \<in> set ss \<Longrightarrow> src_stmt k s H = Some (ret, H') \<Longrightarrow> R H H'"
    and refl: "\<And>H. R H H" and trans: "\<And>H1 H2 H3. R H1 H2 \<Longrightarrow> R H2 H3 \<Longrightarrow> R H1 H3"
  shows "src_stmts k ss H = Some (ret, H') \<Longrightarrow> R H H'"
  using assms(1)
proof (induction ss arbitrary: H)
  case (Cons s ss)
  have s: "R H H'" if "src_stmt k s H = Some (ret, H')" for k H ret H'
    by (rule Cons.prems(2)[OF _ that]) simp
  have ss: "\<And>H. src_stmts k ss H = Some (ret, H') \<Longrightarrow> R H H'"
  proof (rule Cons.IH)
    show "R H H'" if "t \<in> set ss" "src_stmt k t H = Some (ret, H')" for t k H ret H'
      by (rule Cons.prems(2)[OF _ that(2)]) (simp add: that(1))
  qed
  from Cons.prems(1)[unfolded src_stmts_Cons_iff] show ?case
    using s ss trans by blast
qed (use refl in simp)

lemma src_stmt_respects:
  assumes refl: "\<And>H. R H H" and trans: "\<And>H1 H2 H3. R H1 H2 \<Longrightarrow> R H2 H3 \<Longrightarrow> R H1 H3"
  shows "(\<And>n v H. n \<in> written s \<Longrightarrow> R H (append_hist n v H)) \<Longrightarrow>
    src_stmt k s H = Some (ret, H') \<Longrightarrow> R H H'"
proof (induction s arbitrary: k H ret H')
  case (NS_Let l b body)
  obtain bl y n e where b: "b = LBinding bl y n e" by (cases b)
  with NS_Let.prems(2) obtain v where "src_stmt k body (append_hist n v H) = Some (ret, H')"
    by (auto simp: bind_Some_iff)
  moreover have "\<And>n v H. n \<in> written body \<Longrightarrow> R H (append_hist n v H)" "R H (append_hist n v H)"
    using NS_Let.prems(1) b by simp_all
  ultimately show ?case using NS_Let.IH trans by blast
next
  case (NS_Assignment l v e)
  from NS_Assignment.prems(2) have "src_assignment v e H = Some H'" by (auto simp: bind_Some_iff)
  then show ?case by (rule src_assignment_append) (use NS_Assignment.prems(1) in simp)
next
  case (NS_If l c t e)
  have "\<And>n v H. n \<in> written t \<Longrightarrow> R H (append_hist n v H)" "\<And>n v H. n \<in> written e \<Longrightarrow> R H (append_hist n v H)"
    using NS_If.prems(1) by simp_all
  note IH = NS_If.IH(1)[OF this(1)] NS_If.IH(2)[OF this(2)]
  from NS_If.prems(2)[unfolded src_If_iff] IH show ?case by (auto split: if_splits)
next
  case (NS_While l c body n)
  then obtain i H1 where w: "src_while k c body 0 H = Some (i, H1)" and H': "H' = append_hist n (V_size i) H1"
    unfolding src_While_iff by auto
  have "R H H1"
  proof (rule src_while_induct[OF _ refl trans w])
    show "R H H'" if "src_stmt k body H = Some (ret, H')" for k H ret H'
      by (rule NS_While.IH[OF _ that]) (use NS_While.prems(1) in simp)
  qed
  with NS_While.prems(1) H' show ?case using trans by fastforce
next
  case (NS_Sequence l ss)
  show ?case
  proof (rule src_stmts_induct[OF _ refl trans])
    show "R H H'" if "s \<in> set ss" "src_stmt k s H = Some (ret, H')" for s k H ret H'
      by (rule NS_Sequence.IH[OF that(1) _ that(2)]) (use NS_Sequence.prems(1) that(1) in auto)
    show "src_stmts k ss H = Some (ret, H')" using NS_Sequence.prems(2) by simp
  qed
qed (auto simp: bind_Some_iff intro: refl)

lemma src_stmt_prefix: "src_stmt k s H = Some (ret, H') \<Longrightarrow> prefix (H x) (H' x)"
  by (rule src_stmt_respects[where R = "\<lambda>H H'. prefix (H x) (H' x)"]) (auto simp: append_hist_def)

lemma src_while_prefix: "src_while k c body i H = Some (j, H') \<Longrightarrow> prefix (H x) (H' x)"
  by (rule src_while_induct[where R = "\<lambda>H H'. prefix (H x) (H' x)"]) (auto intro: src_stmt_prefix)

lemma src_stmt_frame: "src_stmt k s H = Some (ret, H') \<Longrightarrow> x \<notin> written s \<Longrightarrow> H' x = H x"
  by (rule src_stmt_respects[where R = "\<lambda>H H'. H' x = H x"]) (auto simp: append_hist_def)

lemma src_while_frame: "src_while k c body i H = Some (j, H') \<Longrightarrow> x \<notin> written body \<Longrightarrow> H' x = H x"
  by (rule src_while_induct[where R = "\<lambda>H H'. H' x = H x"]) (auto dest: src_stmt_frame)

text \<open>What is written at no other label than the variable's own.\<close>

lemma well_labelled_seq_iff:
  "well_labelled_seq lam isloop ss \<longleftrightarrow>
   (\<forall>s \<in> set ss. well_labelled lam isloop s) \<and> (\<forall>s \<in> set (butlast ss). no_return s)"
  by (induction ss) auto

lemma written_label: "well_labelled lam isloop s \<Longrightarrow> x \<in> written s \<Longrightarrow> lam x \<in> stmt_labels s"
proof (induction s)
  case (NS_Let l b body)
  then show ?case by (cases b) auto
qed (auto simp: well_labelled_seq_iff target_ok_iff)

lemma no_return_result: "no_return s \<Longrightarrow> src_stmt k s H = Some (ret, H') \<Longrightarrow> ret = None"
proof (induction s arbitrary: k H ret H')
  case (NS_Let l b body)
  then show ?case by (cases b) (auto simp: bind_Some_iff)
next
  case (NS_If l c t e)
  from NS_If.prems(2)[unfolded src_If_iff] NS_If.IH NS_If.prems(1) show ?case
    by (auto split: if_splits)
next
  case (NS_Sequence l ss)
  have "src_stmts k ss H = Some (ret, H') \<Longrightarrow> ret = None"
    if "\<forall>s \<in> set ss. \<forall>k H ret H'. src_stmt k s H = Some (ret, H') \<longrightarrow> ret = None" for k H ss
    using that
  proof (induction ss arbitrary: H)
    case (Cons s ss)
    from Cons.prems(2) have "ret = None" if "src_stmt k s H = Some (ret, H')" for ret H'
      using that by (metis list.set_intros(1))
    from Cons.prems(1)[unfolded src_stmts_Cons_iff] this Cons.IH Cons.prems(2) show ?case by fastforce
  qed simp
  moreover have "\<forall>s \<in> set ss. \<forall>k H ret H'. src_stmt k s H = Some (ret, H') \<longrightarrow> ret = None"
    using NS_Sequence.IH NS_Sequence.prems(1) by auto
  ultimately show ?case using NS_Sequence.prems(2) by simp
qed (auto simp: bind_Some_iff)

lemma loop_names_written: "loop_names s \<subseteq> written s"
proof (induction s)
  case (NS_Let l b body)
  then show ?case by (cases b) auto
next
  case (NS_LetRemote l b body)
  then show ?case by (cases b) auto
qed auto

end
