(* ===== verification/SplitClean.thy ===== *)
theory SplitClean
  imports Runtime
begin

text \<open>
  The passes that clean a phase do not change what it does when it runs: \<open>collapse\<close>,
  \<open>clear_empty_statements\<close> and \<open>remove_unused\<close> (see \<open>SplitAst\<close>) against the interpreter of
  \<open>Runtime\<close>.

  \<open>refines\<close> is the order on statements in which the second does everything the first does, with
  one congruence lemma for each construct.
\<close>

section \<open>Refinement of statements\<close>

definition refines :: "'r remote_ops \<Rightarrow> sstmt \<Rightarrow> sstmt \<Rightarrow> bool" where
  "refines ops s s' \<longleftrightarrow> (\<forall>k st res. run_stmt k ops s st = Some res \<longrightarrow> run_stmt k ops s' st = Some res)"

lemma refinesI: "(\<And>k st res. run_stmt k ops s st = Some res \<Longrightarrow> run_stmt k ops s' st = Some res) \<Longrightarrow> refines ops s s'"
  unfolding refines_def by blast

lemma refinesD: "refines ops s s' \<Longrightarrow> run_stmt k ops s st = Some res \<Longrightarrow> run_stmt k ops s' st = Some res"
  unfolding refines_def by blast

lemma refines_refl [simp]: "refines ops s s"
  by (simp add: refines_def)

lemma refines_trans: "refines ops s t \<Longrightarrow> refines ops t u \<Longrightarrow> refines ops s u"
  by (simp add: refines_def)

lemma refines_Let: "refines ops s s' \<Longrightarrow> refines ops (SS_Let b s) (SS_Let b s')"
  unfolding refines_def run_Let_iff by blast

lemma refines_LetRemote: "refines ops s s' \<Longrightarrow> refines ops (SS_LetRemote b s) (SS_LetRemote b s')"
  unfolding refines_def run_LetRemote_iff by blast

lemma refines_If:
  assumes "refines ops t t'" "refines ops e e'"
  shows "refines ops (SS_If c t e) (SS_If c t' e')"
proof -
  have "refines ops (if b then t else e) (if b then t' else e')" for b
    using assms by simp
  then show ?thesis unfolding refines_def run_If_iff by blast
qed

lemma run_while_refines:
  "refines ops t t' \<Longrightarrow> run_while k ops c t n i st = Some res \<Longrightarrow> run_while k ops c t' n i st = Some res"
proof (induction k arbitrary: i st)
  case (Suc k)
  from Suc.prems(2) Suc.IH[OF Suc.prems(1)] refinesD[OF Suc.prems(1)] show ?case
    unfolding run_while_Suc_iff by blast
qed simp

lemma refines_While: "refines ops t t' \<Longrightarrow> refines ops (SS_While c t n) (SS_While c t' n)"
  by (rule refinesI) (use run_while_refines in \<open>unfold run_While_iff, blast\<close>)

lemma run_for_each_refines:
  "refines ops t t' \<Longrightarrow> run_for_each k ops t j st = Some res \<Longrightarrow> run_for_each k ops t' j st = Some res"
proof (induction j arbitrary: st)
  case (Suc j)
  from Suc.prems(2) Suc.IH[OF Suc.prems(1)] refinesD[OF Suc.prems(1)] show ?case
    unfolding run_for_each_Suc_iff by blast
qed simp

lemma refines_ForEach: "refines ops t t' \<Longrightarrow> refines ops (SS_ForEach t n) (SS_ForEach t' n)"
  by (rule refinesI) (use run_for_each_refines in \<open>unfold run_ForEach_iff, blast\<close>)

lemma run_stmts_refines:
  "list_all2 (refines ops) ss ss' \<Longrightarrow> run_stmts k ops ss st = Some res \<Longrightarrow> run_stmts k ops ss' st = Some res"
proof (induction ss ss' arbitrary: st rule: list_all2_induct)
  case (Cons s ss s' ss')
  from Cons.prems Cons.IH refinesD[OF Cons.hyps(1)] show ?case
    unfolding run_stmts_Cons_iff by blast
qed simp

lemma refines_Sequence: "list_all2 (refines ops) ss ss' \<Longrightarrow> refines ops (SS_Sequence ss) (SS_Sequence ss')"
  by (rule refinesI) (use run_stmts_refines in \<open>unfold run_Sequence, blast\<close>)

lemmas refines_intros =
  refines_Let refines_LetRemote refines_If refines_While refines_ForEach refines_Sequence

section \<open>Collapsing\<close>

lemma run_empty_sequence: "is_empty_sequence s \<Longrightarrow> run_stmt k ops s st = Some (None, st)"
  unfolding is_empty_sequence_def
proof (induction s arbitrary: st rule: count_sequence.induct)
  case (1 ss)
  have "run_stmts k ops ts st = Some (None, st)" if "set ts \<subseteq> set ss" for ts
    using that 1 by (induction ts) auto
  then show ?case by simp
qed auto

lemma run_stmts_append:
  "run_stmts k ops (xs @ ys) st = do {
     (ret, st) \<leftarrow> run_stmts k ops xs st;
     (case ret of Some v \<Rightarrow> Some (Some v, st) | None \<Rightarrow> run_stmts k ops ys st) }"
proof (induction xs arbitrary: st)
  case (Cons x xs)
  then show ?case by (cases "run_stmt k ops x st") (auto split: option.splits)
qed simp

lemma run_stmts_single: "run_stmts k ops [s] st = run_stmt k ops s st"
  by (cases "run_stmt k ops s st") (auto split: option.splits)

lemma run_collapse_seq:
  "run_stmts k ops (collapse_stmt s) st = run_stmt k ops s st"
  "run_stmts k ops (collapse_seq ss) st = run_stmts k ops ss st"
proof (induction s and ss arbitrary: st and st rule: collapse_stmt_collapse_seq.induct)
  fix s ss and st :: "mstore \<times> 'a"
  assume IH: "\<And>st. is_empty_sequence s \<Longrightarrow> run_stmts k ops (collapse_seq ss) st = run_stmts k ops ss st"
    "\<And>st. \<not> is_empty_sequence s \<Longrightarrow> run_stmts k ops (collapse_stmt s) st = run_stmt k ops s st"
    "\<And>st. \<not> is_empty_sequence s \<Longrightarrow> run_stmts k ops (collapse_seq ss) st = run_stmts k ops ss st"
  show "run_stmts k ops (collapse_seq (s # ss)) st = run_stmts k ops (s # ss) st"
  proof (cases "is_empty_sequence s")
    case True
    with IH(1) show ?thesis by (simp add: run_empty_sequence)
  next
    case False
    with IH(2,3) show ?thesis by (simp add: run_stmts_append cong: option.case_cong)
  qed
qed (simp_all only: collapse_stmt.simps collapse_seq.simps run_stmts_single run_stmt.simps)

lemma run_collapse: "run_stmt k ops (collapse ss) st = run_stmts k ops ss st"
  by (simp add: collapse_def run_collapse_seq)

text \<open>C16: \<open>collapse\<close> (\<open>AST_split.hpp\<close>), which opens nested sequences and drops the empty ones, does not
  change a run of the sequence in any way: same result, same state, same failures.\<close>

theorem collapse_runs: "run_stmt k ops (collapse ss) st = run_stmt k ops (SS_Sequence ss) st"
  by (simp only: run_collapse run_Sequence)

section \<open>Clearing empty statements\<close>

text \<open>Expressions that only read.\<close>

fun pure_expr :: "sexpr \<Rightarrow> bool" where
  "pure_expr (SE_FieldReference y s f) = pure_expr s"
| "pure_expr (SE_VarReference y v) = True"
| "pure_expr (SE_Constant i) = True"
| "pure_expr (SE_BinOp y op l r) = (pure_expr l \<and> pure_expr r)"
| "pure_expr SE_GenerateTombstone = False"
| "pure_expr (SE_IsValid h) = pure_expr h"
| "pure_expr (SE_Operation y n h as) = False"

lemma run_expr_pure: "pure_expr e \<Longrightarrow> run_expr ops e st = Some (v, st') \<Longrightarrow> st' = st"
proof (induction e arbitrary: st v st')
  case (SE_BinOp y op l r)
  then show ?case unfolding run_BinOp_iff by fastforce
next
  case (SE_IsValid h)
  then show ?case unfolding run_IsValid_iff pure_expr.simps by blast
qed (auto simp: bind_Some_iff)

fun pure_conditions :: "sstmt \<Rightarrow> bool" where
  "pure_conditions (SS_Let b s) = pure_conditions s"
| "pure_conditions (SS_LetRemote b s) = pure_conditions s"
| "pure_conditions (SS_If c t e) = (pure_expr c \<and> pure_conditions t \<and> pure_conditions e)"
| "pure_conditions (SS_While c t n) = pure_conditions t"
| "pure_conditions (SS_ForEach t n) = pure_conditions t"
| "pure_conditions (SS_Sequence ss) = (\<forall>s \<in> set ss. pure_conditions s)"
| "pure_conditions _ = True"

lemma refines_empty_If:
  assumes "pure_expr c" "refines ops t t'" "refines ops e e'" "is_empty_sequence t'" "is_empty_sequence e'"
  shows "refines ops (SS_If c t e) (SS_Sequence [])"
proof (rule refinesI)
  fix k st res
  assume "run_stmt k ops (SS_If c t e) st = Some res"
  then obtain b st1 where c: "run_expr ops c st = Some (V_bool b, st1)"
    and "run_stmt k ops (if b then t else e) st1 = Some res" unfolding run_If_iff by blast
  then have "run_stmt k ops (if b then t' else e') st1 = Some res"
    using assms(2,3) by (auto dest: refinesD)
  moreover have "st1 = st" using assms(1) c by (rule run_expr_pure)
  ultimately show "run_stmt k ops (SS_Sequence []) st = Some res"
    using assms(4,5) by (auto simp: run_empty_sequence)
qed

lemma clear_refines: "pure_conditions s \<Longrightarrow> refines ops s (cl_ast (clear_empty_statements s))"
proof (induction s rule: clear_empty_statements.induct)
  case (12 c t e)
  then show ?case by (auto simp: Let_def intro: refines_If refines_empty_If)
next
  case (15 ss)
  then have "list_all2 (refines ops) ss (map (\<lambda>s. cl_ast (clear_empty_statements s)) ss)"
    by (auto simp: list_all2_conv_all_nth)
  from refines_Sequence[OF this] show ?case
    by (simp add: refines_def run_collapse comp_def)
qed (auto simp: Let_def cleared_leaf_def intro: refines_intros)

text \<open>C14: \<open>clear_empty_statements\<close> (\<open>remove_empties.hpp\<close>) drops a conditional whose branches came out empty,
  condition included, and collapses sequences.  A statement whose conditions only read does
  after the pass all that it did before: every successful run is a run of the result.\<close>

theorem clear_runs:
  "pure_conditions s \<Longrightarrow> run_stmt k ops s st = Some res \<Longrightarrow>
   run_stmt k ops (cl_ast (clear_empty_statements s)) st = Some res"
  by (rule refinesD[OF clear_refines])

theorem clear_runs_witness:
  "let st = (\<lparr>holders = \<lambda>_. None, remote_maps = \<lambda>_. None\<rparr>, ());
       c = SS_Sequence [SS_If (SE_VarReference Y_bool ''true'') (SS_Sequence []) (SS_Sequence [SS_Sequence []]),
                        SS_Return (SE_Constant 7)]
   in cl_ast (clear_empty_statements c) = SS_Sequence [SS_Return (SE_Constant 7)] \<and>
      run_stmt 0 no_store (cl_ast (clear_empty_statements c)) st = Some (Some (V_int 7), st)"
proof -
  let ?st = "(\<lparr>holders = \<lambda>_. None, remote_maps = \<lambda>_. None\<rparr>, ())"
  let ?c = "SS_Sequence [SS_If (SE_VarReference Y_bool ''true'') (SS_Sequence []) (SS_Sequence [SS_Sequence []]),
                        SS_Return (SE_Constant 7)]"
  have "pure_conditions ?c" and "run_stmt 0 no_store ?c ?st = Some (Some (V_int 7), ?st)"
    by (simp_all add: store_get_def)
  from clear_runs[OF this] show ?thesis
    by (simp add: Let_def cleared_leaf_def collapse_def is_empty_sequence_def)
qed

section \<open>Removing unused steps\<close>

text \<open>The variables of an expression; three names are constants.\<close>

definition constant_names :: "name set" where
  "constant_names = {''true'', ''false'', ''default list''}"

definition evars :: "sexpr \<Rightarrow> name set" where
  "evars e = set (expr_requires e) - constant_names"

text \<open>The names that a statement reads, writes, and steps.\<close>

fun reads :: "sstmt \<Rightarrow> name set" where
  "reads (SS_Let (SBinding l y v e) s) = evars e \<union> reads s"
| "reads (SS_LetRemote (SBinding l y v e) s) = evars e \<union> reads s"
| "reads (SS_Operation n h as) = evars h \<union> (\<Union>a \<in> set as. evars a)"
| "reads (SS_Assignment v e) = evars v \<union> evars e"
| "reads (SS_Return e) = evars e"
| "reads (SS_WriteTombstone e) = evars e"
| "reads (SS_AccompanyWrite e) = evars e"
| "reads (SS_If c t e) = evars c \<union> reads t \<union> reads e"
| "reads (SS_While c t n) = evars c \<union> reads t"
| "reads (SS_ForEach t n) = insert n (reads t)"
| "reads (SS_Sequence ss) = (\<Union>s \<in> set ss. reads s)"
| "reads _ = {}"

fun writes :: "sstmt \<Rightarrow> name set" where
  "writes (SS_Let (SBinding l y v e) s) = insert v (writes s)"
| "writes (SS_Assignment v e) = set (expr_requires v)"
| "writes (SS_LetRemote (SBinding l y v e) s) = insert v (writes s)"
| "writes (SS_If c t e) = writes t \<union> writes e"
| "writes (SS_While c t n) = insert n (writes t)"
| "writes (SS_ForEach t n) = writes t"
| "writes (SS_Sequence ss) = (\<Union>s \<in> set ss. writes s)"
| "writes _ = {}"

fun steps :: "sstmt \<Rightarrow> name set" where
  "steps (SS_Let b s) = steps s"
| "steps (SS_LetRemote b s) = steps s"
| "steps (SS_IncrementOccurance v) = {v}"
| "steps (SS_If c t e) = steps t \<union> steps e"
| "steps (SS_While c t n) = steps t"
| "steps (SS_ForEach t n) = steps t"
| "steps (SS_Sequence ss) = (\<Union>s \<in> set ss. steps s)"
| "steps _ = {}"

text \<open>Statements without remote variables, operations and tombstones.\<close>

fun local_stmt :: "sstmt \<Rightarrow> bool" where
  "local_stmt (SS_Let (SBinding l y v e) s) = (pure_expr e \<and> local_stmt s)"
| "local_stmt (SS_Assignment v e) = (pure_expr v \<and> pure_expr e)"
| "local_stmt (SS_Return e) = pure_expr e"
| "local_stmt (SS_IncrementOccurance v) = True"
| "local_stmt (SS_If c t e) = (pure_expr c \<and> local_stmt t \<and> local_stmt e)"
| "local_stmt (SS_While c t n) = (pure_expr c \<and> local_stmt t)"
| "local_stmt (SS_ForEach t n) = local_stmt t"
| "local_stmt (SS_Sequence ss) = (\<forall>s \<in> set ss. local_stmt s)"
| "local_stmt _ = False"

lemma local_pure_conditions: "local_stmt s \<Longrightarrow> pure_conditions s"
  by (induction s rule: local_stmt.induct) auto

text \<open>Two stores agree on some names, none of them remote.\<close>

definition agree :: "name set \<Rightarrow> mstore \<Rightarrow> mstore \<Rightarrow> bool" where
  "agree A s t \<longleftrightarrow>
     (\<forall>x \<in> A. holders t x = holders s x \<and> (\<forall>y hs p. holders s x \<noteq> Some (RemoteHolder y hs p)))"

definition same_outside :: "name set \<Rightarrow> mstore \<Rightarrow> mstore \<Rightarrow> bool" where
  "same_outside A s t \<longleftrightarrow> (\<forall>x. x \<notin> A \<longrightarrow> holders t x = holders s x)"

lemma same_outside_refl [simp]: "same_outside A s s"
  by (simp add: same_outside_def)

lemma same_outside_trans: "same_outside A s t \<Longrightarrow> same_outside A t u \<Longrightarrow> same_outside A s u"
  by (simp add: same_outside_def)

lemma store_get_agree: "agree A s t \<Longrightarrow> x \<in> A \<union> constant_names \<Longrightarrow> store_get x t = store_get x s"
  by (auto simp: agree_def store_get_def constant_names_def split: option.splits holder.splits)

lemma evars_simps [simp]:
  "evars (SE_VarReference y v) = {v} - constant_names"
  "evars (SE_FieldReference y e f) = evars e"
  "evars (SE_Constant i) = {}"
  "evars (SE_IsValid e) = evars e"
  "evars (SE_BinOp y op a b) = evars a \<union> evars b"
  by (auto simp: evars_def)

text \<open>Expressions leave the store alone and see only what they name.\<close>

lemma run_expr_agree:
  "run_expr ops e (s, r) = Some (v, st) \<Longrightarrow> pure_expr e \<Longrightarrow> agree A s t \<Longrightarrow> evars e \<subseteq> A \<Longrightarrow>
   run_expr ops e (t, r) = Some (v, (t, r))"
proof (induction e arbitrary: v st)
  case (SE_BinOp y op l r')
  obtain x st1 where x: "run_expr ops l (s, r) = Some (x, st1)"
    and rest: "decided op x = Some v \<and> st = st1 \<or>
      decided op x = None \<and> (\<exists>z. run_expr ops r' st1 = Some (z, st) \<and> binop_value op x z = Some v)"
    using SE_BinOp.prems(1) unfolding run_BinOp_iff by blast
  have "st1 = (s, r)" using run_expr_pure[OF _ x] SE_BinOp.prems(2) by simp
  moreover have "run_expr ops l (t, r) = Some (x, (t, r))"
    using SE_BinOp.IH(1)[OF x] SE_BinOp.prems by simp
  moreover have "run_expr ops r' (t, r) = Some (z, (t, r))" if "run_expr ops r' (s, r) = Some (z, st)" for z
    using SE_BinOp.IH(2)[OF that] SE_BinOp.prems by simp
  ultimately show ?case
    using rest unfolding run_BinOp_iff by blast
next
  case (SE_IsValid h)
  obtain k where k: "run_expr ops h (s, r) = Some (V_handle k, st)" "v = V_bool (r_valid ops (snd st) k)"
    using SE_IsValid.prems(1) unfolding run_IsValid_iff by blast
  moreover have "st = (s, r)" using run_expr_pure[OF _ k(1)] SE_IsValid.prems(2) by simp
  moreover have "run_expr ops h (t, r) = Some (V_handle k, (t, r))"
    using SE_IsValid.IH[OF k(1)] SE_IsValid.prems by simp
  ultimately show ?case by (simp add: run_IsValid_iff)
qed (auto simp: bind_Some_iff store_get_agree)

lemma agree_set_holder:
  "agree A s t \<Longrightarrow> (\<And>y hs p. h \<noteq> RemoteHolder y hs p) \<Longrightarrow> agree A (set_holder n h s) (set_holder n h t)"
  by (simp add: agree_def set_holder_def)

lemma same_outside_set_holder: "n \<in> A \<Longrightarrow> same_outside A t (set_holder n h t)"
  by (simp add: same_outside_def set_holder_def)

lemmas agree_intros = agree_set_holder same_outside_set_holder

lemma store_bind_agree:
  assumes "store_bind ops n v (s, r) = Some (s', r')" "agree A s t" "n \<in> A"
  shows "\<exists>t'. store_bind ops n v (t, r) = Some (t', r') \<and> agree A s' t' \<and> same_outside A t t'"
proof -
  have eq: "holders t n = holders s n" "\<And>y hs p. holders s n \<noteq> Some (RemoteHolder y hs p)"
    using assms(2,3) by (auto simp: agree_def)
  show ?thesis
  proof (cases "holders s n")
    case (Some h)
    then show ?thesis
      using assms eq by (cases h) (auto simp: store_bind_def bind_Some_iff intro!: agree_intros)
  qed (use assms eq in \<open>simp add: store_bind_def\<close>)
qed

lemma store_push_agree:
  assumes "store_push ops n v (s, r) = Some (s', r')" "agree A s t" "n \<in> A"
  shows "\<exists>t'. store_push ops n v (t, r) = Some (t', r') \<and> agree A s' t' \<and> same_outside A t t'"
proof -
  have eq: "holders t n = holders s n" "\<And>y hs p. holders s n \<noteq> Some (RemoteHolder y hs p)"
    using assms(2,3) by (auto simp: agree_def)
  show ?thesis
  proof (cases "holders s n")
    case (Some h)
    then show ?thesis
      using assms eq by (cases h) (auto simp: store_push_def split: option.splits intro!: agree_intros)
  qed (use assms eq in \<open>simp add: store_push_def\<close>)
qed

lemma store_increment_agree:
  assumes "store_increment n s = Some s'" "agree A s t" "n \<in> A"
  shows "\<exists>t'. store_increment n t = Some t' \<and> agree A s' t' \<and> same_outside A t t'"
proof -
  have eq: "holders t n = holders s n" "\<And>y hs p. holders s n \<noteq> Some (RemoteHolder y hs p)"
    using assms(2,3) by (auto simp: agree_def)
  show ?thesis
  proof (cases "holders s n")
    case (Some h)
    then show ?thesis
      using assms eq by (cases h) (auto simp: store_increment_def intro!: agree_intros)
  qed (use assms eq in \<open>simp add: store_increment_def\<close>)
qed

text \<open>A step of a variable that does not matter.\<close>

lemma store_increment_skip:
  assumes "store_increment n s = Some s'" "agree A s t" "n \<notin> A"
  shows "agree A s' t"
proof -
  have "holders s' x = holders s x" if "x \<in> A" for x
    using assms that
    by (cases "holders s n"; cases "the (holders s n)")
       (auto simp: store_increment_def set_holder_def set_remote_def bind_Some_iff split: if_splits)
  with assms(2) show ?thesis by (simp add: agree_def)
qed

text \<open>\<open>mimics\<close>: started in a store that agrees on the names that matter, the second statement ends like the
  first, in a store that agrees again, and touches nothing else.\<close>

definition ends_like :: "name set \<Rightarrow> (mvalue option \<times> mstore \<times> 'r) \<Rightarrow> mstore \<Rightarrow> (mvalue option \<times> mstore \<times> 'r) option \<Rightarrow> bool" where
  "ends_like A res t m \<longleftrightarrow> (case res of (ret, s', r') \<Rightarrow>
     \<exists>t'. m = Some (ret, (t', r')) \<and> agree A s' t' \<and> same_outside A t t')"

definition mimics :: "name set \<Rightarrow> 'r remote_ops \<Rightarrow> sstmt \<Rightarrow> sstmt \<Rightarrow> bool" where
  "mimics A ops c c' \<longleftrightarrow> (\<forall>k s r res t.
     run_stmt k ops c (s, r) = Some res \<longrightarrow> agree A s t \<longrightarrow> ends_like A res t (run_stmt k ops c' (t, r)))"

lemma mimicsI:
  "(\<And>k s r res t. run_stmt k ops c (s, r) = Some res \<Longrightarrow> agree A s t \<Longrightarrow>
      ends_like A res t (run_stmt k ops c' (t, r))) \<Longrightarrow> mimics A ops c c'"
  unfolding mimics_def by blast

lemma mimicsD:
  "mimics A ops c c' \<Longrightarrow> run_stmt k ops c (s, r) = Some res \<Longrightarrow> agree A s t \<Longrightarrow>
   ends_like A res t (run_stmt k ops c' (t, r))"
  unfolding mimics_def by blast

text \<open>A further run after a step.\<close>

lemma ends_like_step:
  "ends_like A res t1 m \<Longrightarrow> same_outside A t t1 \<Longrightarrow> ends_like A res t m"
  unfolding ends_like_def by (auto intro: same_outside_trans)

lemma ends_likeE:
  assumes "ends_like A (ret, s', r') t m"
  obtains t' where "m = Some (ret, (t', r'))" "agree A s' t'" "same_outside A t t'"
  using assms by (auto simp: ends_like_def)

lemma ends_like_rest:
  assumes "(\<exists>st1. m = Some (None, st1) \<and> f st1 = Some res) \<or> (\<exists>v st1. m = Some (Some v, st1) \<and> res = (Some v, st1))"
    and m': "\<And>x. m = Some x \<Longrightarrow> ends_like A x t m'"
    and f': "\<And>s1 r1 t1. f (s1, r1) = Some res \<Longrightarrow> agree A s1 t1 \<Longrightarrow> ends_like A res t1 (f' (t1, r1))"
  shows "ends_like A res t
    (do { (ret, st) \<leftarrow> m'; (case ret of Some v \<Rightarrow> Some (Some v, st) | None \<Rightarrow> f' st) })"
  using assms(1)
proof (elim disjE exE conjE)
  fix st1 assume m: "m = Some (None, st1)" and f: "f st1 = Some res"
  obtain s1 r1 where st1: "st1 = (s1, r1)" by (cases st1)
  obtain t1 where t1: "m' = Some (None, (t1, r1))" "agree A s1 t1" "same_outside A t t1"
    using m'[OF m] st1 by (auto elim: ends_likeE)
  from ends_like_step[OF f'[OF f[unfolded st1] t1(2)] t1(3)] t1(1) show ?thesis by simp
next
  fix v st1 assume m: "m = Some (Some v, st1)" and res: "res = (Some v, st1)"
  obtain s1 r1 where st1: "st1 = (s1, r1)" by (cases st1)
  obtain t1 where "m' = Some (Some v, (t1, r1))" "agree A s1 t1" "same_outside A t t1"
    using m'[OF m] st1 by (auto elim: ends_likeE)
  with res st1 show ?thesis by (simp add: ends_like_def)
qed

lemma mimics_Let:
  assumes "mimics A ops c c'" "pure_expr e" "evars e \<subseteq> A" "v \<in> A"
  shows "mimics A ops (SS_Let (SBinding l y v e) c) (SS_Let (SBinding l y v e) c')"
proof (rule mimicsI)
  fix k and s t :: mstore and r res
  assume run: "run_stmt k ops (SS_Let (SBinding l y v e) c) (s, r) = Some res" and ag: "agree A s t"
  then obtain x st1 s2 r2 where x: "run_expr ops e (s, r) = Some (x, st1)"
    and b: "store_bind ops v x st1 = Some (s2, r2)" and c: "run_stmt k ops c (s2, r2) = Some res"
    unfolding run_Let_iff by (auto simp: run_binding_def bind_Some_iff)
  have b': "store_bind ops v x (s, r) = Some (s2, r2)" using b run_expr_pure[OF assms(2) x] by simp
  obtain t2 where t2: "store_bind ops v x (t, r) = Some (t2, r2)" "agree A s2 t2" "same_outside A t t2"
    using store_bind_agree[OF b' ag assms(4)] by blast
  have "run_stmt k ops (SS_Let (SBinding l y v e) c') (t, r) = run_stmt k ops c' (t2, r2)"
    using run_expr_agree[OF x assms(2) ag assms(3)] t2(1) by (simp add: run_binding_def)
  with ends_like_step[OF mimicsD[OF assms(1) c t2(2)] t2(3)]
  show "ends_like A res t (run_stmt k ops (SS_Let (SBinding l y v e) c') (t, r))" by simp
qed

lemma mimics_If:
  assumes "mimics A ops c c'" "mimics A ops d d'" "pure_expr e" "evars e \<subseteq> A"
  shows "mimics A ops (SS_If e c d) (SS_If e c' d')"
proof (rule mimicsI)
  fix k and s t :: mstore and r res
  assume run: "run_stmt k ops (SS_If e c d) (s, r) = Some res" and ag: "agree A s t"
  then obtain b st1 where e: "run_expr ops e (s, r) = Some (V_bool b, st1)"
    and c: "run_stmt k ops (if b then c else d) st1 = Some res" unfolding run_If_iff by blast
  have st1: "st1 = (s, r)" using run_expr_pure[OF assms(3) e] .
  have "run_stmt k ops (SS_If e c' d') (t, r) = run_stmt k ops (if b then c' else d') (t, r)"
    using run_expr_agree[OF e assms(3) ag assms(4)] by simp
  moreover have "mimics A ops (if b then c else d) (if b then c' else d')" using assms(1,2) by simp
  ultimately show "ends_like A res t (run_stmt k ops (SS_If e c' d') (t, r))"
    using mimicsD c ag st1 by metis
qed

lemma run_while_mimics:
  assumes "mimics A ops c c'" "pure_expr e" "evars e \<subseteq> A" "n \<in> A"
  shows "run_while k ops e c n i (s, r) = Some res \<Longrightarrow> agree A s t \<Longrightarrow>
    ends_like A res t (run_while k ops e c' n i (t, r))"
proof (induction k arbitrary: i s r t)
  case (Suc k)
  note run = Suc.prems(1)[unfolded run_while_Suc_iff]
  obtain b st1 where e: "run_expr ops e (s, r) = Some (V_bool b, st1)" using run by blast
  have st1: "st1 = (s, r)" using run_expr_pure[OF assms(2) e] .
  have e': "run_expr ops e (t, r) = Some (V_bool b, (t, r))"
    using run_expr_agree[OF e assms(2) Suc.prems(2) assms(3)] .
  show ?case
  proof (cases b)
    case False
    with run e st1 have "res = (None, (s, r))" by auto
    with False e' Suc.prems(2) show ?thesis by (simp add: ends_like_def)
  next
    case True
    with run e st1 obtain s2 r2 where lim: "counter_fits (Suc i)"
      and p: "store_push ops n (V_size (Suc i)) (s, r) = Some (s2, r2)"
      and rest: "(\<exists>st3. run_stmt k ops c (s2, r2) = Some (None, st3) \<and> run_while k ops e c n (Suc i) st3 = Some res) \<or>
        (\<exists>v st3. run_stmt k ops c (s2, r2) = Some (Some v, st3) \<and> res = (Some v, st3))"
      by auto
    obtain t2 where t2: "store_push ops n (V_size (Suc i)) (t, r) = Some (t2, r2)" "agree A s2 t2" "same_outside A t t2"
      using store_push_agree[OF p Suc.prems(2) assms(4)] by blast
    have step: "run_while (Suc k) ops e c' n i (t, r) = do {
        (ret, st) \<leftarrow> run_stmt k ops c' (t2, r2);
        (case ret of Some v \<Rightarrow> Some (Some v, st) | None \<Rightarrow> run_while k ops e c' n (Suc i) st) }"
      using e' True lim t2(1) by simp
    have "ends_like A res t2 (run_while (Suc k) ops e c' n i (t, r))"
      unfolding step using rest
    proof (rule ends_like_rest)
      show "ends_like A x t2 (run_stmt k ops c' (t2, r2))" if "run_stmt k ops c (s2, r2) = Some x" for x
        using mimicsD[OF assms(1) that t2(2)] .
    qed (rule Suc.IH)
    then show ?thesis using t2(3) by (rule ends_like_step)
  qed
qed simp

lemma mimics_While:
  assumes "mimics A ops c c'" "pure_expr e" "evars e \<subseteq> A" "n \<in> A"
  shows "mimics A ops (SS_While e c n) (SS_While e c' n)"
proof (rule mimicsI)
  fix k and s t :: mstore and r res
  assume run: "run_stmt k ops (SS_While e c n) (s, r) = Some res" and ag: "agree A s t"
  then obtain s1 r1 where b: "store_bind ops n (V_size 0) (s, r) = Some (s1, r1)"
    and w: "run_while k ops e c n 0 (s1, r1) = Some res" unfolding run_While_iff by auto
  obtain t1 where t1: "store_bind ops n (V_size 0) (t, r) = Some (t1, r1)" "agree A s1 t1" "same_outside A t t1"
    using store_bind_agree[OF b ag assms(4)] by blast
  from ends_like_step[OF run_while_mimics[OF assms w t1(2)] t1(3)] t1(1)
  show "ends_like A res t (run_stmt k ops (SS_While e c' n) (t, r))" by simp
qed

lemma run_for_each_mimics:
  assumes "mimics A ops c c'"
  shows "run_for_each k ops c j (s, r) = Some res \<Longrightarrow> agree A s t \<Longrightarrow>
    ends_like A res t (run_for_each k ops c' j (t, r))"
proof (induction j arbitrary: s r t)
  case (Suc j)
  show ?case unfolding run_for_each.simps using Suc.prems(1)[unfolded run_for_each_Suc_iff]
  proof (rule ends_like_rest)
    show "ends_like A x t (run_stmt k ops c' (t, r))" if "run_stmt k ops c (s, r) = Some x" for x
      using mimicsD[OF assms(1) that Suc.prems(2)] .
  qed (rule Suc.IH)
qed (auto simp: ends_like_def)

lemma mimics_ForEach:
  assumes "mimics A ops c c'" "n \<in> A"
  shows "mimics A ops (SS_ForEach c n) (SS_ForEach c' n)"
proof (rule mimicsI)
  fix k and s t :: mstore and r res
  assume run: "run_stmt k ops (SS_ForEach c n) (s, r) = Some res" and ag: "agree A s t"
  then obtain j where j: "store_get n s = Some (V_size j)" "run_for_each k ops c j (s, r) = Some res"
    unfolding run_ForEach_iff by auto
  with run_for_each_mimics[OF assms(1) j(2) ag] store_get_agree[OF ag, of n] assms(2)
  show "ends_like A res t (run_stmt k ops (SS_ForEach c' n) (t, r))" by simp
qed

lemma run_stmts_mimics:
  "list_all2 (mimics A ops) cs cs' \<Longrightarrow> run_stmts k ops cs (s, r) = Some res \<Longrightarrow> agree A s t \<Longrightarrow>
   ends_like A res t (run_stmts k ops cs' (t, r))"
proof (induction cs cs' arbitrary: s r t rule: list_all2_induct)
  case (Cons c cs c' cs')
  show ?case unfolding run_stmts.simps using Cons.prems(1)[unfolded run_stmts_Cons_iff]
  proof (rule ends_like_rest)
    show "ends_like A x t (run_stmt k ops c' (t, r))" if "run_stmt k ops c (s, r) = Some x" for x
      using mimicsD[OF Cons.hyps(1) that Cons.prems(2)] .
  qed (rule Cons.IH)
qed (auto simp: ends_like_def)

lemma mimics_Sequence: "list_all2 (mimics A ops) cs cs' \<Longrightarrow> mimics A ops (SS_Sequence cs) (SS_Sequence cs')"
  by (rule mimicsI) (simp add: run_stmts_mimics)

lemma mimics_Assignment:
  assumes "pure_expr v" "pure_expr e" "set (expr_requires v) \<union> evars e \<subseteq> A"
  shows "mimics A ops (SS_Assignment v e) (SS_Assignment v e)"
proof (rule mimicsI)
  fix k and s t :: mstore and r res
  assume run: "run_stmt k ops (SS_Assignment v e) (s, r) = Some res" and ag: "agree A s t"
  then obtain st1 where a: "run_assignment ops v e (s, r) = Some st1" and res: "res = (None, st1)"
    by (auto simp: bind_Some_iff)
  obtain s1 r1 where st1: "st1 = (s1, r1)" by (cases st1)
  have "\<exists>t1. run_assignment ops v e (t, r) = Some (t1, r1) \<and> agree A s1 t1 \<and> same_outside A t t1"
    using a unfolding st1
  proof (cases v)
    case (SE_VarReference y n)
    with a st1 obtain x st2 where x: "run_expr ops e (s, r) = Some (x, st2)"
      and p: "store_push ops n x st2 = Some (s1, r1)"
      by (auto simp: run_assignment_def bind_Some_iff)
    have "store_push ops n x (s, r) = Some (s1, r1)" using p run_expr_pure[OF assms(2) x] by simp
    from store_push_agree[OF this ag, of] SE_VarReference assms(3) run_expr_agree[OF x assms(2) ag]
    show ?thesis by (auto simp: run_assignment_def)
  next
    case (SE_FieldReference y1 w f)
    with a st1 obtain y2 n x0 x st2 x1 where w: "w = SE_VarReference y2 n"
      and g: "store_get n s = Some x0" and x: "run_expr ops e (s, r) = Some (x, st2)"
      and x1: "set_field f x x0 = Some x1" and p: "store_push ops n x1 st2 = Some (s1, r1)"
      by (auto simp: run_assignment_def bind_Some_iff split: sexpr.splits)
    have p': "store_push ops n x1 (s, r) = Some (s1, r1)" using p run_expr_pure[OF assms(2) x] by simp
    have n: "n \<in> A" using SE_FieldReference w assms(3) by simp
    from store_push_agree[OF p' ag n] store_get_agree[OF ag, of n] n SE_FieldReference w g x1 assms(3)
      run_expr_agree[OF x assms(2) ag]
    show ?thesis by (auto simp: run_assignment_def)
  qed (auto simp: run_assignment_def)
  with res st1 show "ends_like A res t (run_stmt k ops (SS_Assignment v e) (t, r))"
    by (auto simp: ends_like_def)
qed

lemma mimics_Return:
  assumes "pure_expr e" "evars e \<subseteq> A"
  shows "mimics A ops (SS_Return e) (SS_Return e)"
proof (rule mimicsI)
  fix k and s t :: mstore and r res
  assume run: "run_stmt k ops (SS_Return e) (s, r) = Some res" and ag: "agree A s t"
  then obtain x st1 where x: "run_expr ops e (s, r) = Some (x, st1)" and res: "res = (Some x, st1)"
    by (auto simp: bind_Some_iff)
  with run_expr_pure[OF assms(1) x] run_expr_agree[OF x assms(1) ag assms(2)] ag
  show "ends_like A res t (run_stmt k ops (SS_Return e) (t, r))"
    by (simp add: ends_like_def)
qed

lemma mimics_Increment:
  assumes "n \<in> A"
  shows "mimics A ops (SS_IncrementOccurance n) (SS_IncrementOccurance n)"
  by (rule mimicsI) (use store_increment_agree[OF _ _ assms] in \<open>fastforce simp: bind_Some_iff ends_like_def\<close>)

lemma mimics_dropped_Increment:
  assumes "n \<notin> A"
  shows "mimics A ops (SS_IncrementOccurance n) (SS_Sequence [])"
  by (rule mimicsI) (use store_increment_skip[OF _ _ assms] in \<open>auto simp: bind_Some_iff ends_like_def\<close>)

lemma remove_unused_mimics:
  "local_stmt s \<Longrightarrow> reads s \<union> writes s \<subseteq> A \<Longrightarrow> (\<forall>x \<in> steps s. contains_var_of_name x ts \<longleftrightarrow> x \<in> A) \<Longrightarrow>
   mimics A ops s (remove_unused ts s)"
proof (induction s rule: local_stmt.induct)
  case (1 l y v e s)
  then show ?case by (simp add: mimics_Let)
next
  case (2 v e)
  then show ?case by (simp add: mimics_Assignment)
next
  case (3 e)
  then show ?case by (simp add: mimics_Return)
next
  case (4 v)
  then show ?case by (simp add: mimics_Increment mimics_dropped_Increment)
next
  case (5 c t e)
  then show ?case by (simp add: mimics_If)
next
  case (6 c t n)
  then show ?case by (simp add: mimics_While)
next
  case (7 t n)
  then show ?case by (simp add: mimics_ForEach)
next
  case (8 ss)
  have "mimics A ops s (remove_unused ts s)" if s: "s \<in> set ss" for s
  proof (rule "8.IH"[OF s])
    show "local_stmt s" using "8.prems"(1) s by simp
    show "reads s \<union> writes s \<subseteq> A" using "8.prems"(2) s by (simp add: UN_subset_iff)
    show "\<forall>x \<in> steps s. contains_var_of_name x ts \<longleftrightarrow> x \<in> A" using "8.prems"(3) s by simp
  qed
  then have "list_all2 (mimics A ops) ss (map (remove_unused ts) ss)"
    by (simp add: list_all2_conv_all_nth)
  from mimics_Sequence[OF this] show ?case by simp
qed simp_all

text \<open>C15: \<open>remove_unused\<close> (\<open>remove_unused.hpp\<close>) drops the steps of variables that a phase does not
  require.  Let \<open>A\<close> hold all the names that a statement over local variables reads or writes, and no
  stepped name but the required ones.  Then, on stores that agree on \<open>A\<close>, the statement and what is
  left of it return the same, do the same to the data stores, and end in stores that agree on \<open>A\<close>;
  what is left touches nothing outside \<open>A\<close>.\<close>

theorem remove_unused_runs:
  assumes "local_stmt c" "reads c \<union> writes c \<subseteq> A" "\<forall>x \<in> steps c. contains_var_of_name x ts \<longleftrightarrow> x \<in> A"
    and "run_stmt k ops c (s, r) = Some (ret, (s', r'))" "agree A s t"
  shows "\<exists>t'. run_stmt k ops (remove_unused ts c) (t, r) = Some (ret, (t', r')) \<and> agree A s' t' \<and> same_outside A t t'"
  using mimicsD[OF remove_unused_mimics[OF assms(1-3)] assms(4,5)] by (simp add: ends_like_def)

text \<open>A step of a variable that is not required, in a store that does not have it.\<close>

definition stepped_store :: "holder option \<Rightarrow> mstore" where
  "stepped_store h = \<lparr>holders = [''y'' \<mapsto> ValueHolder None](''x'' := h), remote_maps = \<lambda>_. None\<rparr>"

theorem remove_unused_runs_witness:
  "\<exists>t'. run_stmt 0 no_store
      (remove_unused [] (SS_Sequence [SS_IncrementOccurance ''x'', SS_Let (SBinding Top Y_int ''y'' (SE_Constant 7)) (SS_Sequence [])]))
      (stepped_store None, ()) = Some (None, (t', ())) \<and> holders t' ''y'' = Some (ValueHolder (Some (V_int 7)))"
proof -
  let ?c = "SS_Sequence [SS_IncrementOccurance ''x'', SS_Let (SBinding Top Y_int ''y'' (SE_Constant 7)) (SS_Sequence [])]"
  let ?s = "stepped_store (Some (TypeHolder new_type_holder))"
  let ?s' = "snd (the (run_stmt 0 no_store ?c (?s, ())))"
  have run: "run_stmt 0 no_store ?c (?s, ()) = Some (None, (fst ?s', ()))"
    and y: "holders (fst ?s') ''y'' = Some (ValueHolder (Some (V_int 7)))"
    by (simp_all add: store_increment_def stepped_store_def run_binding_def store_bind_def set_holder_def)
  have "local_stmt ?c" "reads ?c \<union> writes ?c \<subseteq> {''y''}" "\<forall>x \<in> steps ?c. contains_var_of_name x [] \<longleftrightarrow> x \<in> {''y''}"
    by (simp_all add: evars_def contains_var_of_name_def)
  from remove_unused_runs[OF this run, of "stepped_store None"] y show ?thesis
    by (auto simp: agree_def stepped_store_def)
qed

end
