(* ===== verification/Replay.thy ===== *)
theory Replay
  imports Source SplitClean
begin

text \<open>
  Splitting is correct: the phases of a program, run one after another, do what the program says.

  A phase may run long after the phases that computed the values it needs, and must find, each
  time it reads a variable, the value the variable had at that point of the program (\<open>Source\<close>).
  \<open>tracks\<close> is the invariant that a phase keeps while it follows the program, and \<open>replays\<close> the
  simulation, proved construct by construct.
\<close>

section \<open>The invariant of a phase\<close>

text \<open>
  The holder of a variable in the phase of label \<open>l\<close>, when the program has come to the histories
  \<open>H\<close> on its way to \<open>F\<close>: the phase's own variables have the values so far (all of them, or the last
  for those in \<open>V\<close>), variables of earlier phases have all their values and stand at the one they
  have now, and variables of later phases have none.
\<close>

definition at :: "mvalue list \<Rightarrow> mvalue list \<Rightarrow> type_holder \<Rightarrow> bool" where
  "at f h th \<longleftrightarrow> th_t th = f \<and> curr_pos th = int (length h) - 1"

definition var_holder :: "(name \<Rightarrow> label) \<Rightarrow> name set \<Rightarrow> label \<Rightarrow> hist \<Rightarrow> hist \<Rightarrow> name \<Rightarrow> holder \<Rightarrow> bool" where
  "var_holder lam V l F H x h \<longleftrightarrow>
     (if lam x = l then
        (if x \<in> V then h = ValueHolder (if H x = [] then None else Some (last (H x)))
         else \<exists>th. h = TypeHolder th \<and> at (H x) (H x) th)
      else if flows (lam x) l then \<exists>th. h = TypeHolder th \<and> at (F x) (H x) th
      else \<exists>th. h = TypeHolder th \<and> th_t th = [])"

text \<open>A loop that is running has its count, in \<open>B\<close>; one that is over has the count of its last run.\<close>

definition loop_holder :: "(name \<Rightarrow> label) \<Rightarrow> label \<Rightarrow> hist \<Rightarrow> (name \<Rightarrow> nat option) \<Rightarrow> hist \<Rightarrow> name \<Rightarrow> holder \<Rightarrow> bool" where
  "loop_holder lam l F B H n h \<longleftrightarrow> (\<exists>v. h = ValueHolder v \<and>
     (case B n of
        Some i \<Rightarrow> v = Some (V_size i)
      | None \<Rightarrow> (lam n = l \<longrightarrow> H n \<noteq> [] \<longrightarrow> v = Some (last (H n))) \<and>
                (lam n \<noteq> l \<longrightarrow> flows (lam n) l \<longrightarrow> F n \<noteq> [] \<longrightarrow> v = Some (last (F n)))))"

definition slot :: "(name \<Rightarrow> label) \<Rightarrow> (name \<Rightarrow> bool) \<Rightarrow> name set \<Rightarrow> label \<Rightarrow> hist \<Rightarrow>
    (name \<Rightarrow> nat option) \<Rightarrow> hist \<Rightarrow> name \<Rightarrow> holder \<Rightarrow> bool" where
  "slot lam isloop V l F B H x h \<longleftrightarrow>
     (if isloop x then loop_holder lam l F B H x h else var_holder lam V l F H x h)"

definition tracks :: "(name \<Rightarrow> label) \<Rightarrow> (name \<Rightarrow> bool) \<Rightarrow> name set \<Rightarrow> label \<Rightarrow> hist \<Rightarrow>
    (name \<Rightarrow> nat option) \<Rightarrow> hist \<Rightarrow> mstore \<Rightarrow> bool" where
  "tracks lam isloop V l F B H s \<longleftrightarrow>
     (\<forall>x. holders s x \<noteq> None \<and> slot lam isloop V l F B H x (the (holders s x)))"

lemma tracks_slot:
  assumes "tracks lam isloop V l F B H s"
  obtains h where "holders s x = Some h" "slot lam isloop V l F B H x h"
  using assms unfolding tracks_def by (metis option.collapse)

lemma slot_cong: "H' x = H x \<Longrightarrow> B' x = B x \<Longrightarrow> slot lam isloop V l F B' H' x h = slot lam isloop V l F B H x h"
  by (simp add: slot_def loop_holder_def var_holder_def cong: option.case_cong)

text \<open>A change of one name and its history.\<close>

lemma tracks_set:
  assumes "tracks lam isloop V l F B H s" "slot lam isloop V l F B' H' n h"
    and "\<And>x. x \<noteq> n \<Longrightarrow> H' x = H x" "\<And>x. x \<noteq> n \<Longrightarrow> B' x = B x"
  shows "tracks lam isloop V l F B' H' (set_holder n h s)"
  unfolding tracks_def
proof
  fix x
  show "holders (set_holder n h s) x \<noteq> None \<and> slot lam isloop V l F B' H' x (the (holders (set_holder n h s) x))"
  proof (cases "x = n")
    case False
    have "slot lam isloop V l F B' H' x (the (holders s x)) = slot lam isloop V l F B H x (the (holders s x))"
      using assms(3,4) False by (intro slot_cong) simp_all
    with False assms(1) show ?thesis by (simp add: tracks_def set_holder_def)
  qed (use assms(2) in \<open>simp add: set_holder_def\<close>)
qed

lemma tracks_cong:
  assumes "tracks lam isloop V l F B H s"
    and "\<And>x h. slot lam isloop V l F B H x h \<Longrightarrow> slot lam isloop V l F B' H' x h"
  shows "tracks lam isloop V l F B' H' s"
  using assms by (simp add: tracks_def)

text \<open>A variable known to the phase is read where the program reads it.\<close>

lemma tracks_get:
  assumes "tracks lam isloop V l F B H s" "\<not> isloop x" "lam x = l \<or> flows (lam x) l"
    and "H x \<noteq> []" "prefix (H x) (F x)" "x \<notin> constant_names"
  shows "store_get x s = Some (last (H x))"
proof -
  have th: "th_get th = Some (last (H x))" if "at f (H x) th" "prefix (H x) f" for th f
  proof -
    have "f ! (length (H x) - 1) = last (H x)"
      using that(2) assms(4) by (auto simp: prefix_def nth_append last_conv_nth)
    moreover have "length (H x) \<le> length f" using that(2) by (rule prefix_length_le)
    moreover have "nat (int (length (H x)) - 1) = length (H x) - 1" by simp
    moreover have "0 < length (H x)" using assms(4) by simp
    ultimately show ?thesis
      using that(1) by (auto simp: th_get_def th_in_range_def at_def)
  qed
  obtain h where h: "holders s x = Some h" "slot lam isloop V l F B H x h"
    using tracks_slot[OF assms(1)] .
  have get: "store_get x s = (case h of ValueHolder v \<Rightarrow> v | TypeHolder th \<Rightarrow> th_get th
      | RemoteHolder y hs p \<Rightarrow> do { k \<leftarrow> current_handle hs p; h \<leftarrow> remote_super y k s; th_get h })"
    using h(1) assms(6) by (simp add: store_get_def constant_names_def)
  have "var_holder lam V l F H x h" using h(2) assms(2) by (simp add: slot_def)
  then show ?thesis
    using assms(3,4,5) th get by (auto simp: var_holder_def split: if_splits)
qed

section \<open>Steps of a phase\<close>

lemma tracks_skip:
  assumes "tracks lam isloop V l F B H s" "\<And>x. lam x = l \<or> (flows (lam x) l \<and> \<not> isloop x) \<Longrightarrow> H' x = H x"
  shows "tracks lam isloop V l F B H' s"
proof (rule tracks_cong[OF assms(1)])
  show "slot lam isloop V l F B H' x h" if "slot lam isloop V l F B H x h" for x h
    using that assms(2)[of x]
    by (auto simp: slot_def loop_holder_def var_holder_def split: option.splits if_splits)
qed

lemma at_append: "at h h th \<Longrightarrow> at (h @ [v]) (h @ [v]) (th_push v th)"
  by (simp add: at_def th_push_def)

lemma track_bind:
  assumes "tracks lam isloop V l F B H s" "lam n = l" "\<not> isloop n"
  shows "\<exists>s'. store_bind ops n v (s, r) = Some (s', r) \<and> tracks lam isloop V l F B (append_hist n v H) s'"
proof -
  obtain h where h: "holders s n = Some h" "var_holder lam V l F H n h"
    using tracks_slot[OF assms(1), of n] assms(3) by (auto simp: slot_def)
  have set: "tracks lam isloop V l F B (append_hist n v H) (set_holder n h' s)"
    if "var_holder lam V l F (append_hist n v H) n h'" for h'
    by (rule tracks_set[OF assms(1)]) (use that assms(3) in \<open>auto simp: slot_def append_hist_def\<close>)
  show ?thesis
  proof (cases "n \<in> V")
    case True
    then have "var_holder lam V l F (append_hist n v H) n (ValueHolder (Some v))"
      using assms(2) by (simp add: var_holder_def append_hist_def)
    from set[OF this] h True assms(2) show ?thesis
      by (auto simp: var_holder_def store_bind_def)
  next
    case False
    then obtain th where th: "h = TypeHolder th" "at (H n) (H n) th"
      using h(2) assms(2) by (auto simp: var_holder_def)
    let ?th = "th\<lparr>th_bound := True, th_t := th_t th @ [v], curr_pos := curr_pos th + 1\<rparr>"
    have "var_holder lam V l F (append_hist n v H) n (TypeHolder ?th)"
      using assms(2) False th(2) by (simp add: var_holder_def append_hist_def at_def)
    moreover have "th_bind v th = Some ?th"
      using th(2) by (simp add: th_bind_def th_in_range_def at_def)
    ultimately show ?thesis using set h(1) th(1) by (auto simp: store_bind_def)
  qed
qed

lemma track_push:
  assumes "tracks lam isloop V l F B H s" "lam n = l" "\<not> isloop n" "H n \<noteq> []"
  shows "\<exists>s'. store_push ops n v (s, r) = Some (s', r) \<and> tracks lam isloop V l F B (append_hist n v H) s'"
proof -
  obtain h where h: "holders s n = Some h" "var_holder lam V l F H n h"
    using tracks_slot[OF assms(1), of n] assms(3) by (auto simp: slot_def)
  have set: "tracks lam isloop V l F B (append_hist n v H) (set_holder n h' s)"
    if "var_holder lam V l F (append_hist n v H) n h'" for h'
    by (rule tracks_set[OF assms(1)]) (use that assms(3) in \<open>auto simp: slot_def append_hist_def\<close>)
  show ?thesis
  proof (cases "n \<in> V")
    case True
    then have "var_holder lam V l F (append_hist n v H) n (ValueHolder (Some v))"
      using assms(2) by (simp add: var_holder_def append_hist_def)
    from set[OF this] h True assms(2,4) show ?thesis
      by (auto simp: var_holder_def store_push_def)
  next
    case False
    then obtain th where th: "h = TypeHolder th" "at (H n) (H n) th"
      using h(2) assms(2) by (auto simp: var_holder_def)
    have "var_holder lam V l F (append_hist n v H) n (TypeHolder (th_push v th))"
      using assms(2) False at_append[OF th(2)] by (simp add: var_holder_def append_hist_def)
    then show ?thesis using set h(1) th(1) by (auto simp: store_push_def)
  qed
qed

lemma track_increment:
  assumes "tracks lam isloop V l F B H s" "lam n \<noteq> l" "\<not> isloop n"
  shows "\<exists>s'. store_increment n s = Some s' \<and> tracks lam isloop V l F B (append_hist n v H) s'"
proof -
  obtain h where h: "holders s n = Some h" "var_holder lam V l F H n h"
    using tracks_slot[OF assms(1), of n] assms(3) by (auto simp: slot_def)
  obtain th where "h = TypeHolder th" and at: "if flows (lam n) l then at (F n) (H n) th else th_t th = []"
    using h(2) assms(2) by (auto simp: var_holder_def split: if_splits)
  then have th: "holders s n = Some (TypeHolder th)" using h(1) by simp
  have "var_holder lam V l F (append_hist n v H) n (TypeHolder (th_increment th))"
    using at assms(2) by (auto simp: var_holder_def th_increment_def at_def append_hist_def)
  then have "tracks lam isloop V l F B (append_hist n v H) (set_holder n (TypeHolder (th_increment th)) s)"
    by (intro tracks_set[OF assms(1)]) (use assms(3) in \<open>auto simp: slot_def append_hist_def\<close>)
  with th show ?thesis by (auto simp: store_increment_def)
qed

lemma track_loop_bind:
  assumes "tracks lam isloop V l F B H s" "isloop n"
  shows "\<exists>s'. store_bind ops n (V_size i) (s, r) = Some (s', r) \<and> tracks lam isloop V l F (B(n \<mapsto> i)) H s'"
proof -
  obtain v where v: "holders s n = Some (ValueHolder v)"
    using tracks_slot[OF assms(1), of n] assms(2) by (auto simp: slot_def loop_holder_def)
  have "tracks lam isloop V l F (B(n \<mapsto> i)) H (set_holder n (ValueHolder (Some (V_size i))) s)"
    by (rule tracks_set[OF assms(1)]) (use assms(2) in \<open>auto simp: slot_def loop_holder_def\<close>)
  with v show ?thesis by (auto simp: store_bind_def)
qed

lemma track_loop_push:
  assumes "tracks lam isloop V l F B H s" "isloop n" "B n = Some i"
  shows "\<exists>s'. store_push ops n (V_size j) (s, r) = Some (s', r) \<and> tracks lam isloop V l F (B(n \<mapsto> j)) H s'"
proof -
  have v: "holders s n = Some (ValueHolder (Some (V_size i)))"
    using tracks_slot[OF assms(1), of n] assms(2,3) by (auto simp: slot_def loop_holder_def)
  have "tracks lam isloop V l F (B(n \<mapsto> j)) H (set_holder n (ValueHolder (Some (V_size j))) s)"
    by (rule tracks_set[OF assms(1)]) (use assms(2) in \<open>auto simp: slot_def loop_holder_def\<close>)
  with v show ?thesis by (auto simp: store_push_def)
qed

text \<open>The end of a loop of the phase itself.\<close>

lemma track_loop_done:
  assumes "tracks lam isloop V l F (B(n \<mapsto> i)) H s" "isloop n" "lam n = l" "B n = None"
  shows "tracks lam isloop V l F B (append_hist n (V_size i) H) s"
proof -
  have "slot lam isloop V l F B (append_hist n (V_size i) H) x (the (holders s x))" for x
  proof (cases "x = n")
    case True
    obtain h where "holders s n = Some h" "slot lam isloop V l F (B(n \<mapsto> i)) H n h"
      using tracks_slot[OF assms(1)] .
    with True assms(2-4) show ?thesis
      by (simp add: slot_def loop_holder_def append_hist_def)
  next
    case False
    have "slot lam isloop V l F B (append_hist n (V_size i) H) x h =
        slot lam isloop V l F (B(n \<mapsto> i)) H x h" for h
      using False by (intro slot_cong) (simp_all add: append_hist_def)
    with assms(1) show ?thesis by (simp add: tracks_def)
  qed
  with assms(1) show ?thesis by (simp add: tracks_def)
qed

text \<open>The end of a loop of another phase.\<close>

lemma track_loop_other:
  assumes "tracks lam isloop V l F B H s" "isloop n" "lam n \<noteq> l"
  shows "tracks lam isloop V l F B (append_hist n v H) s"
  by (rule tracks_skip[OF assms(1)]) (use assms(2,3) in \<open>auto simp: append_hist_def\<close>)

section \<open>Expressions of a phase\<close>

definition bnames :: "vbinding list \<Rightarrow> name set" where
  "bnames bs = vbinding_name ` set bs"

lemma bnames_simps [simp]:
  "bnames [] = {}" "bnames (b # bs) = insert (vbinding_name b) (bnames bs)" "bnames (as @ bs) = bnames as \<union> bnames bs"
  by (auto simp: bnames_def)

lemma contains_var_of_name_bnames: "contains_var_of_name n bs \<longleftrightarrow> n \<in> bnames bs"
  by (auto simp: contains_var_of_name_def bnames_def)

lemma binding_super_name: "binding_super b = Some (n, y) \<Longrightarrow> vbinding_name b = n"
  by (induction b rule: binding_super.induct) (auto split: ytype.splits)

lemma contains_subtype_name: "contains_subtype n y bs \<Longrightarrow> n \<in> bnames bs"
  by (auto simp: contains_subtype_def bnames_def dest: binding_super_name)

lemma find_subtype_name: "find_subtype n y bs = Some b \<Longrightarrow> vbinding_name b = n"
  by (auto simp: find_subtype_def find_Some_iff dest: binding_super_name)

lemma constant_builtin: "n \<in> constant_names \<Longrightarrow> is_builtin n"
  by (auto simp: constant_names_def is_builtin_def builtin_names_def)

lemma combined_api_Some:
  "combined_api a b = Some c \<longleftrightarrow>
   inherits a = inherits b \<and> c = \<lparr>requires = requires a @ requires b, provides = provides a @ provides b, inherits = inherits a\<rparr>"
  by (auto simp: combined_api_def)

lemma collect_expr_static:
  "collect_expr l old e = Some (a, e') \<Longrightarrow> vars_ok lam isloop e \<Longrightarrow>
   pure_expr e' \<and> evars e' \<subseteq> bnames (requires a) \<union> bnames (provides old)"
proof (induction e arbitrary: a e')
  case (LE_VarReference l2 y v)
  then show ?case
    by (auto simp: bind_Some_iff constant_names_def dest: contains_subtype_name find_subtype_name split: if_splits)
qed (auto simp: bind_Some_iff combined_api_Some split: if_splits)

lemma collect_expr_run:
  "collect_expr l old e = Some (a, e') \<Longrightarrow> vars_ok lam isloop e \<Longrightarrow> tracks lam isloop V l F B H s \<Longrightarrow>
   (\<And>x. prefix (H x) (F x)) \<Longrightarrow> src_expr e H = Some v \<Longrightarrow> run_expr ops e' (s, r) = Some (v, (s, r))"
proof (induction e arbitrary: a e' v)
  case (LE_VarReference l2 y n)
  show ?case
  proof (cases "is_builtin n")
    case True
    with LE_VarReference have "n \<in> {''true'', ''false'', ''default list''}" "e' = SE_VarReference y n" by auto
    with LE_VarReference.prems(5) show ?thesis by (auto simp: src_get_def store_get_def)
  next
    case False
    with LE_VarReference.prems(1,2) have n: "e' = SE_VarReference y n" "flows (lam n) l" "\<not> isloop n"
      by (auto simp: bind_Some_iff split: if_splits)
    have c: "n \<notin> constant_names" using False constant_builtin by blast
    then have H: "H n \<noteq> []" "v = last (H n)"
      using LE_VarReference.prems(5) by (auto simp: src_get_def constant_names_def split: if_splits)
    from tracks_get[OF LE_VarReference.prems(3) n(3) _ H(1) LE_VarReference.prems(4) c] n H(2)
    show ?thesis by simp
  qed
next
  case (LE_BinOp l2 y op x z)
  from LE_BinOp.prems(1) obtain ax x' az z' where
    c: "collect_expr l old x = Some (ax, x')" "collect_expr l old z = Some (az, z')" "e' = SE_BinOp y op x' z'"
    by (auto simp: bind_Some_iff)
  from LE_BinOp.prems(5) obtain u where u: "src_expr x H = Some u"
    and rest: "decided op u = Some v \<or> decided op u = None \<and> (\<exists>w. src_expr z H = Some w \<and> binop_value op u w = Some v)"
    by (cases "src_expr x H"; cases "decided op (the (src_expr x H))") (auto simp: bind_Some_iff)
  have "run_expr ops x' (s, r) = Some (u, (s, r))"
    using LE_BinOp.IH(1)[OF c(1) _ LE_BinOp.prems(3,4) u] LE_BinOp.prems(2) by simp
  moreover have "run_expr ops z' (s, r) = Some (w, (s, r))" if "src_expr z H = Some w" for w
    using LE_BinOp.IH(2)[OF c(2) _ LE_BinOp.prems(3,4) that] LE_BinOp.prems(2) by simp
  ultimately show ?case unfolding c(3) run_BinOp_iff using rest by blast
qed (auto simp: bind_Some_iff)

section \<open>What a phase has of each statement\<close>

lemma collect_expr_provides: "collect_expr l old e = Some (a, e') \<Longrightarrow> vars_ok lam isloop e \<Longrightarrow> provides a = []"
  by (induction e arbitrary: a e')
    (auto simp: bind_Some_iff combined_api_Some base_api_def split: if_splits)

lemma let_ast_local: "vars_ok lam isloop e \<Longrightarrow> let_ast_if_operation l old basic e = Some basic"
  by (cases e) auto

lemma let_binding_local:
  assumes "let_binding l False old (LBinding bl y n e) = Some (ba, b')" "vars_ok lam isloop e"
  shows "\<exists>a e'. collect_expr l old e = Some (a, e') \<and> b' = SBinding bl y n e' \<and>
    bnames (requires ba) = bnames (requires a) \<and> bnames (provides ba) = {n}"
  using assms collect_expr_provides[of l old e]
  by (auto simp: bind_Some_iff let_binding_def add_provides_def)

lemma collect_Let_own:
  assumes "collect_stmt l old (NS_Let l (LBinding bl y n e) body) = Some (api, rt, c')" "vars_ok lam isloop e"
  shows "\<exists>a e' inner ap c1. collect_expr l old e = Some (a, e') \<and>
    collect_stmt l inner body = Some (ap, rt, c1) \<and> c' = SS_Let (SBinding bl y n e') c1 \<and>
    bnames (provides inner) = insert n (bnames (provides old)) \<and>
    bnames (requires api) = bnames (requires a) \<union> bnames (requires ap)"
proof -
  obtain ba b' inner ap c1 where lb: "let_binding l False old (LBinding bl y n e) = Some (ba, b')"
    and i: "combined_api ba old = Some inner" and c1: "collect_stmt l inner body = Some (ap, rt, c1)"
    and n: "combined_api ba ap = Some api" "c' = SS_Let b' c1"
    using assms(1) let_ast_local[OF assms(2)] by (simp add: bind_Some_iff split_paired_Ex) blast
  from let_binding_local[OF lb assms(2)] i c1 n show ?thesis
    by (fastforce simp: combined_api_Some)
qed

lemma collect_Let_other:
  assumes "collect_stmt l old (NS_Let l2 (LBinding bl y n e) body) = Some (api, rt, c')" "l2 \<noteq> l"
  shows "\<exists>c1. collect_stmt l old body = Some (api, rt, c1) \<and> c' = SS_Sequence [SS_IncrementOccurance n, c1]"
  using assms by (simp add: bind_Some_iff split_paired_Ex) blast

lemma collect_Assignment_own:
  assumes "collect_stmt l old (NS_Assignment l v e) = Some (api, rt, c')"
  shows "\<exists>a v' b e'. collect_expr l old v = Some (a, v') \<and> collect_expr l old e = Some (b, e') \<and>
    c' = SS_Assignment v' e' \<and> bnames (requires api) = bnames (requires a) \<union> bnames (requires b)"
  using assms by (simp add: bind_Some_iff combined_api_Some split_paired_Ex) fastforce

lemma collect_Assignment_other:
  assumes "collect_stmt l old (NS_Assignment l2 v e) = Some (api, rt, c')" "l2 \<noteq> l"
  shows "\<exists>x. base_var v = Some x \<and> c' = (if flows l2 l then SS_IncrementOccurance x else SS_Sequence [])"
  using assms by (auto simp: bind_Some_iff)

lemma collect_Return_own:
  assumes "collect_stmt Bottom old (NS_Return e) = Some (api, rt, c')"
  shows "\<exists>e'. collect_expr Bottom old e = Some (api, e') \<and> c' = SS_Return e'"
  using assms by (auto simp: bind_Some_iff)

lemma collect_Return_other:
  assumes "collect_stmt l old (NS_Return e) = Some (api, rt, c')" "l \<noteq> Bottom"
  shows "c' = SS_Sequence []"
  using assms by (auto simp: bind_Some_iff nothing_def)

lemma collect_If_known:
  assumes "collect_stmt l old (NS_If l2 c t e) = Some (api, rt, c')" "flows l2 l"
  shows "\<exists>ca c1 ta tr t1 ea er e1. collect_expr l old c = Some (ca, c1) \<and> collect_stmt l old t = Some (ta, tr, t1) \<and>
    collect_stmt l old e = Some (ea, er, e1) \<and> c' = SS_If c1 t1 e1 \<and>
    bnames (requires api) = bnames (requires ca) \<union> bnames (requires ta) \<union> bnames (requires ea)"
  using assms by (simp add: bind_Some_iff combined_api_Some split_paired_Ex) fastforce

lemma collect_If_unknown:
  assumes "collect_stmt l old (NS_If l2 c t e) = Some (api, rt, c')" "\<not> flows l2 l"
  shows "c' = SS_Sequence []"
  using assms by (auto simp: bind_Some_iff nothing_def)

lemma collect_While_own:
  assumes "collect_stmt l old (NS_While l c body n) = Some (api, rt, c')"
  shows "\<exists>ca c1 ba s1. collect_expr l old c = Some (ca, c1) \<and> collect_stmt l old body = Some (ba, rt, s1) \<and>
    c' = SS_While c1 s1 n \<and> bnames (requires api) = bnames (requires ca) \<union> bnames (requires ba)"
  using assms by (simp add: bind_Some_iff combined_api_Some add_provides_def split_paired_Ex) fastforce

lemma collect_While_known:
  assumes "collect_stmt l old (NS_While l2 c body n) = Some (api, rt, c')" "l2 \<noteq> l" "flows l2 l"
  shows "\<exists>ba s1. collect_stmt l old body = Some (ba, rt, s1) \<and> c' = SS_ForEach s1 n \<and>
    bnames (requires api) = insert n (bnames (requires ba))"
  using assms by (simp add: bind_Some_iff add_requires_def split_paired_Ex) fastforce

lemma collect_While_unknown:
  assumes "collect_stmt l old (NS_While l2 c body n) = Some (api, rt, c')" "l2 \<noteq> l" "\<not> flows l2 l"
  shows "c' = SS_Sequence []"
  using assms by (auto simp: bind_Some_iff nothing_def)

lemma collect_Sequence:
  assumes "collect_stmt l old (NS_Sequence l2 ss) = Some (api, rt, c')"
  shows "\<exists>cs. collect_stmts l old ss = Some (api, rt, cs) \<and> c' = collapse cs"
  using assms by (auto simp: bind_Some_iff)

lemma collect_stmts_Cons:
  assumes "collect_stmts l old (s # ss) = Some (api, rt, cs)"
  shows "\<exists>a r1 c b r2 cs'. collect_stmt l old s = Some (a, r1, c) \<and> collect_stmts l old ss = Some (b, r2, cs') \<and>
    cs = c # cs' \<and> bnames (requires api) = bnames (requires a) \<union> bnames (requires b)"
  using assms by (simp add: bind_Some_iff combined_api_Some split_paired_Ex) fastforce

section \<open>One phase\<close>

text \<open>Only the last phase, that of \<open>bottom\<close>, returns.\<close>

definition phase_result :: "label \<Rightarrow> mvalue option \<Rightarrow> mvalue option" where
  "phase_result l ret = (if l = Bottom then ret else None)"

lemma phase_result_None [simp]: "phase_result l None = None"
  by (simp add: phase_result_def)

definition replay_of :: "(name \<Rightarrow> label) \<Rightarrow> (name \<Rightarrow> bool) \<Rightarrow> name set \<Rightarrow> label \<Rightarrow> hist \<Rightarrow> (name \<Rightarrow> nat option) \<Rightarrow>
    hist \<Rightarrow> mvalue option \<Rightarrow> 'r \<Rightarrow> (mvalue option \<times> mstore \<times> 'r) option \<Rightarrow> bool" where
  "replay_of lam isloop V l F B H ret r m \<longleftrightarrow>
     (\<exists>s'. m = Some (phase_result l ret, (s', r)) \<and> tracks lam isloop V l F B H s')"

text \<open>\<open>replays\<close>: what a phase has of a statement follows every run of the statement.\<close>

definition replays :: "(name \<Rightarrow> label) \<Rightarrow> (name \<Rightarrow> bool) \<Rightarrow> name set \<Rightarrow> label \<Rightarrow> hist \<Rightarrow> 'r remote_ops \<Rightarrow> nstmt \<Rightarrow> bool" where
  "replays lam isloop V l F ops c \<longleftrightarrow> (\<forall>k H ret H' old api rt c' B k' s r.
     src_stmt k c H = Some (ret, H') \<longrightarrow> collect_stmt l old c = Some (api, rt, c') \<longrightarrow>
     (\<forall>x. prefix (H' x) (F x)) \<longrightarrow> tracks lam isloop V l F B H s \<longrightarrow>
     (\<forall>n \<in> loop_names c. B n = None) \<longrightarrow> k \<le> k' \<longrightarrow>
     replay_of lam isloop V l F B H' ret r (run_stmt k' ops c' (s, r)))"

lemma replaysI:
  "(\<And>k H ret H' old api rt c' B k' s r.
     src_stmt k c H = Some (ret, H') \<Longrightarrow> collect_stmt l old c = Some (api, rt, c') \<Longrightarrow>
     (\<And>x. prefix (H' x) (F x)) \<Longrightarrow> tracks lam isloop V l F B H s \<Longrightarrow>
     (\<And>n. n \<in> loop_names c \<Longrightarrow> B n = None) \<Longrightarrow> k \<le> k' \<Longrightarrow>
     replay_of lam isloop V l F B H' ret r (run_stmt k' ops c' (s, r))) \<Longrightarrow>
   replays lam isloop V l F ops c"
  unfolding replays_def by blast

lemma replaysD:
  "replays lam isloop V l F ops c \<Longrightarrow>
     src_stmt k c H = Some (ret, H') \<Longrightarrow> collect_stmt l old c = Some (api, rt, c') \<Longrightarrow>
     (\<And>x. prefix (H' x) (F x)) \<Longrightarrow> tracks lam isloop V l F B H s \<Longrightarrow>
     (\<And>n. n \<in> loop_names c \<Longrightarrow> B n = None) \<Longrightarrow> k \<le> k' \<Longrightarrow>
     replay_of lam isloop V l F B H' ret r (run_stmt k' ops c' (s, r))"
  unfolding replays_def by blast

lemma replay_of_None:
  "replay_of lam isloop V l F B H None r m \<Longrightarrow>
   \<exists>s'. m = Some (None, (s', r)) \<and> tracks lam isloop V l F B H s'"
  by (auto simp: replay_of_def)

lemma run_increment_then:
  assumes "store_increment n s = Some s1"
  shows "run_stmt k ops (SS_Sequence [SS_IncrementOccurance n, c]) (s, r) = run_stmt k ops c (s1, r)"
proof -
  have "run_stmt k ops (SS_Sequence [SS_IncrementOccurance n, c]) (s, r) = run_stmts k ops [c] (s1, r)"
    using assms by (simp del: run_stmts.simps(2) add: run_stmts.simps(2)[of k ops "SS_IncrementOccurance n"])
  then show ?thesis by (simp only: run_stmts_single)
qed

lemma replays_Let:
  assumes "replays lam isloop V l F ops body" "lam n = l2" "\<not> isloop n" "vars_ok lam isloop e"
  shows "replays lam isloop V l F ops (NS_Let l2 (LBinding bl y n e) body)"
proof (rule replaysI)
  fix k H ret H' old api rt c' B k' s and r :: 'a
  assume src: "src_stmt k (NS_Let l2 (LBinding bl y n e) body) H = Some (ret, H')"
    and col: "collect_stmt l old (NS_Let l2 (LBinding bl y n e) body) = Some (api, rt, c')"
    and pre: "\<And>x. prefix (H' x) (F x)" and tr: "tracks lam isloop V l F B H s"
    and B: "\<And>m. m \<in> loop_names (NS_Let l2 (LBinding bl y n e) body) \<Longrightarrow> B m = None" and k: "k \<le> k'"
  obtain v where v: "src_expr e H = Some v" and body: "src_stmt k body (append_hist n v H) = Some (ret, H')"
    using src by (auto simp: bind_Some_iff)
  have preH: "prefix (H x) (F x)" for x
    using src_stmt_prefix[OF src, of x] pre[of x] by (rule prefix_order.trans)
  note rest = replaysD[OF assms(1) body _ pre _ _ k]
  show "replay_of lam isloop V l F B H' ret r (run_stmt k' ops c' (s, r))"
  proof (cases "l2 = l")
    case True
    obtain a e' inner ap c1 where e': "collect_expr l old e = Some (a, e')"
      and c1: "collect_stmt l inner body = Some (ap, rt, c1)" and c': "c' = SS_Let (SBinding bl y n e') c1"
      using collect_Let_own[OF col[unfolded True] assms(4)] by blast
    obtain s1 where s1: "store_bind ops n v (s, r) = Some (s1, r)" "tracks lam isloop V l F B (append_hist n v H) s1"
      using track_bind[OF tr assms(2)[unfolded True] assms(3), of ops v r] by blast
    have "run_expr ops e' (s, r) = Some (v, (s, r))"
      by (rule collect_expr_run[OF e' assms(4) tr preH v])
    with s1(1) c' have "run_stmt k' ops c' (s, r) = run_stmt k' ops c1 (s1, r)"
      by (simp add: run_binding_def)
    then show ?thesis using rest[OF c1 s1(2), of r] B by (simp only: loop_names.simps simp_thms)
  next
    case False
    obtain c1 where c1: "collect_stmt l old body = Some (api, rt, c1)"
      and c': "c' = SS_Sequence [SS_IncrementOccurance n, c1]"
      using collect_Let_other[OF col False] by blast
    obtain s1 where s1: "store_increment n s = Some s1" "tracks lam isloop V l F B (append_hist n v H) s1"
      using track_increment[OF tr] assms(2,3) False by blast
    have "run_stmt k' ops c' (s, r) = run_stmt k' ops c1 (s1, r)"
      unfolding c' by (rule run_increment_then[OF s1(1)])
    then show ?thesis using rest[OF c1 s1(2), of r] B by (simp only: loop_names.simps simp_thms)
  qed
qed

lemma replays_Assignment:
  assumes ok: "target_ok lam isloop l2 v" "vars_ok lam isloop e"
  shows "replays lam isloop V l F ops (NS_Assignment l2 v e)"
proof (rule replaysI)
  fix k H ret H' old api rt c' B k' s and r :: 'a
  assume src: "src_stmt k (NS_Assignment l2 v e) H = Some (ret, H')"
    and col: "collect_stmt l old (NS_Assignment l2 v e) = Some (api, rt, c')"
    and pre: "\<And>x. prefix (H' x) (F x)" and tr: "tracks lam isloop V l F B H s"
  have a: "src_assignment v e H = Some H'" "ret = None" using src by (auto simp: bind_Some_iff)
  obtain n w where n: "base_var v = Some n" "H' = append_hist n w H" "H n \<noteq> []"
    using src_assignment_append[OF a(1)] .
  have lam: "lam n = l2" "\<not> is_builtin n" "\<not> isloop n" and vok: "vars_ok lam isloop v"
  proof -
    show vok: "vars_ok lam isloop v" and lam: "lam n = l2" "\<not> is_builtin n"
      using ok(1) n(1) by (auto simp: target_ok_iff)
    show "\<not> isloop n" using vok n(1) lam(2) by (induction v) auto
  qed
  have preH: "prefix (H x) (F x)" for x
    using src_stmt_prefix[OF src, of x] pre[of x] by (rule prefix_order.trans)
  have "\<exists>s'. run_stmt k' ops c' (s, r) = Some (None, (s', r)) \<and> tracks lam isloop V l F B H' s'"
  proof (cases "l2 = l")
    case True
    obtain va v' ea e' where v': "collect_expr l old v = Some (va, v')" and e': "collect_expr l old e = Some (ea, e')"
      and c': "c' = SS_Assignment v' e'"
      using collect_Assignment_own[OF col[unfolded True]] by blast
    obtain s1 where s1: "store_push ops n w (s, r) = Some (s1, r)" "tracks lam isloop V l F B H' s1"
      using track_push[OF tr lam(1)[unfolded True] lam(3) n(3), of ops w r] unfolding n(2) by blast
    have "run_assignment ops v' e' (s, r) = Some (s1, r)"
    proof (cases v)
      case (LE_VarReference vl y m)
      then have m: "m = n" using n(1) by simp
      from LE_VarReference m v' lam(2) have v'': "v' = SE_VarReference y n"
        by (auto simp: bind_Some_iff split: if_splits)
      have x: "src_expr e H = Some w"
        using a(1) LE_VarReference m n(2) n(3)
        by (auto simp: src_assignment_def bind_Some_iff append_hist_def dest!: fun_cong[of _ _ n])
      from collect_expr_run[OF e' ok(2) tr preH x, of ops r] s1(1) v'' show ?thesis
        by (simp add: run_assignment_def)
    next
      case (LE_FieldReference vl y v1 f)
      obtain l3 y3 where v1: "v1 = LE_VarReference l3 y3 n"
        using a(1) LE_FieldReference n(1) by (auto simp: src_assignment_def split: lexpr.splits)
      from LE_FieldReference v1 v' lam(2) have v'': "v' = SE_FieldReference y (SE_VarReference y3 n) f"
        and known: "flows (lam n) l"
        using vok by (auto simp: bind_Some_iff split: if_splits)
      obtain x where x: "src_expr e H = Some x" and w: "set_field f x (last (H n)) = Some w"
        using a(1) LE_FieldReference v1 n(2,3)
        by (auto simp: src_assignment_def bind_Some_iff append_hist_def dest!: fun_cong[of _ _ n])
      have c: "n \<notin> constant_names" using lam(2) constant_builtin by blast
      have g: "store_get n s = Some (last (H n))"
        using tracks_get[OF tr lam(3) _ n(3) preH c] known by blast
      from collect_expr_run[OF e' ok(2) tr preH x, of ops r] s1(1) v'' g w show ?thesis
        by (simp add: run_assignment_def)
    qed (use n(1) in auto)
    with s1(2) c' show ?thesis by simp
  next
    case False
    have c': "c' = (if flows l2 l then SS_IncrementOccurance n else SS_Sequence [])"
      using collect_Assignment_other[OF col False] n(1) by auto
    show ?thesis
    proof (cases "flows l2 l")
      case True
      obtain s1 where "store_increment n s = Some s1" "tracks lam isloop V l F B H' s1"
        using track_increment[OF tr _ lam(3)] lam(1) \<open>l2 \<noteq> l\<close> unfolding n(2) by blast
      with c' True show ?thesis by simp
    next
      case False
      have "tracks lam isloop V l F B H' s"
        by (rule tracks_skip[OF tr]) (use n(2) lam(1) False \<open>l2 \<noteq> l\<close> in \<open>auto simp: append_hist_def\<close>)
      with c' False show ?thesis by simp
    qed
  qed
  with a(2) show "replay_of lam isloop V l F B H' ret r (run_stmt k' ops c' (s, r))"
    by (simp add: replay_of_def)
qed

lemma replays_Return:
  assumes "vars_ok lam isloop e"
  shows "replays lam isloop V l F ops (NS_Return e)"
proof (rule replaysI)
  fix k H ret H' old api rt c' B k' s and r :: 'a
  assume src: "src_stmt k (NS_Return e) H = Some (ret, H')"
    and col: "collect_stmt l old (NS_Return e) = Some (api, rt, c')"
    and pre: "\<And>x. prefix (H' x) (F x)" and tr: "tracks lam isloop V l F B H s"
  obtain v where v: "src_expr e H = Some v" "ret = Some v" "H' = H"
    using src by (auto simp: bind_Some_iff)
  show "replay_of lam isloop V l F B H' ret r (run_stmt k' ops c' (s, r))"
  proof (cases "l = Bottom")
    case True
    obtain e' where e': "collect_expr l old e = Some (api, e')" and c': "c' = SS_Return e'"
      using collect_Return_own[OF col[unfolded True]] True by blast
    from collect_expr_run[OF e' assms tr _ v(1), of ops r] pre v(3) c' tr True v(2) show ?thesis
      by (simp add: replay_of_def phase_result_def)
  next
    case False
    with collect_Return_other[OF col False] v(3) tr show ?thesis
      by (simp add: replay_of_def phase_result_def)
  qed
qed

text \<open>What a phase cannot follow does nothing that it would notice.\<close>

lemma skip_unknown:
  assumes "tracks lam isloop V l F B H s" "\<not> flows l2 l" "\<forall>m \<in> M. flows l2 m"
    and "\<And>x. lam x \<notin> M \<Longrightarrow> H' x = H x"
  shows "tracks lam isloop V l F B H' s"
proof (rule tracks_skip[OF assms(1)])
  fix x assume "lam x = l \<or> flows (lam x) l \<and> \<not> isloop x"
  then have "lam x \<notin> M" using assms(2,3) label_flows_trans by blast
  then show "H' x = H x" by (rule assms(4))
qed

lemma src_stmt_unlabelled:
  "src_stmt k c H = Some (ret, H') \<Longrightarrow> well_labelled lam isloop c \<Longrightarrow> lam x \<notin> stmt_labels c \<Longrightarrow> H' x = H x"
  using src_stmt_frame written_label by metis

lemma replays_If:
  assumes IH: "replays lam isloop V l F ops t" "replays lam isloop V l F ops e"
    and ok: "well_labelled lam isloop (NS_If l2 c t e)"
  shows "replays lam isloop V l F ops (NS_If l2 c t e)"
proof (rule replaysI)
  fix k H ret H' old api rt c' B k' s and r :: 'a
  assume src: "src_stmt k (NS_If l2 c t e) H = Some (ret, H')"
    and col: "collect_stmt l old (NS_If l2 c t e) = Some (api, rt, c')"
    and pre: "\<And>x. prefix (H' x) (F x)" and tr: "tracks lam isloop V l F B H s"
    and B: "\<And>m. m \<in> loop_names (NS_If l2 c t e) \<Longrightarrow> B m = None" and k: "k \<le> k'"
  obtain b where b: "src_expr c H = Some (V_bool b)" and br: "src_stmt k (if b then t else e) H = Some (ret, H')"
    using src unfolding src_If_iff by blast
  have preH: "prefix (H x) (F x)" for x
    using src_stmt_prefix[OF src, of x] pre[of x] by (rule prefix_order.trans)
  show "replay_of lam isloop V l F B H' ret r (run_stmt k' ops c' (s, r))"
  proof (cases "flows l2 l")
    case True
    obtain ca c1 ta tr1 t1 ea er e1 where c1: "collect_expr l old c = Some (ca, c1)"
      and t1: "collect_stmt l old t = Some (ta, tr1, t1)" and e1: "collect_stmt l old e = Some (ea, er, e1)"
      and c': "c' = SS_If c1 t1 e1"
      using collect_If_known[OF col True] by blast
    have c: "run_expr ops c1 (s, r) = Some (V_bool b, (s, r))"
      by (rule collect_expr_run[OF c1 _ tr preH b]) (use ok in simp)
    have "replay_of lam isloop V l F B H' ret r (run_stmt k' ops (if b then t1 else e1) (s, r))"
    proof (cases b)
      case True
      then show ?thesis using replaysD[OF IH(1) _ t1 pre tr _ k, where r = r] br B by simp
    next
      case False
      then show ?thesis using replaysD[OF IH(2) _ e1 pre tr _ k, where r = r] br B by simp
    qed
    with c c' show ?thesis by (cases b) simp_all
  next
    case False
    have ret: "ret = None" using br ok no_return_result by (auto split: if_splits)
    have "tracks lam isloop V l F B H' s"
    proof (rule skip_unknown[OF tr False])
      show "\<forall>m \<in> stmt_labels t \<union> stmt_labels e. flows l2 m" using ok by simp
      show "H' x = H x" if "lam x \<notin> stmt_labels t \<union> stmt_labels e" for x
        by (rule src_stmt_unlabelled[OF br]) (use ok that in auto)
    qed
    with collect_If_unknown[OF col False] ret show ?thesis by (simp add: replay_of_def)
  qed
qed

lemma run_while_replays:
  assumes IH: "replays lam isloop V l F ops body" and c1: "collect_expr l old c = Some (ca, c1)"
    and body: "collect_stmt l old body = Some (ba, rt, s1)"
    and ok: "well_labelled lam isloop (NS_While l2 c body n)" and B: "\<And>m. m \<in> loop_names body \<Longrightarrow> B m = None"
  shows "src_while k c body i H = Some (j, H') \<Longrightarrow> (\<And>x. prefix (H' x) (F x)) \<Longrightarrow>
    tracks lam isloop V l F (B(n \<mapsto> i)) H s \<Longrightarrow> k \<le> k' \<Longrightarrow>
    \<exists>s'. run_while k' ops c1 s1 n i (s, r) = Some (None, (s', r)) \<and> tracks lam isloop V l F (B(n \<mapsto> j)) H' s'"
proof (induction k arbitrary: i H s k')
  case (Suc k)
  have preH: "prefix (H x) (F x)" for x
    using src_while_prefix[OF Suc.prems(1), of x] Suc.prems(2)[of x] by (rule prefix_order.trans)
  obtain k'' where k'': "k' = Suc k''" "k \<le> k''" using Suc.prems(4) by (cases k') auto
  have c: "run_expr ops c1 (s, r) = Some (V_bool b, (s, r))" if "src_expr c H = Some (V_bool b)" for b
    by (rule collect_expr_run[OF c1 _ Suc.prems(3) preH that]) (use ok in simp)
  from Suc.prems(1)[unfolded src_while_Suc_iff] show ?case
  proof (elim disjE conjE exE)
    assume "src_expr c H = Some (V_bool False)" "(j, H') = (i, H)"
    with c[of False] Suc.prems(3) k''(1) show ?thesis by simp
  next
    fix H1 assume t: "src_expr c H = Some (V_bool True)" "counter_fits (Suc i)"
      and b: "src_stmt k body H = Some (None, H1)" and w: "src_while k c body (Suc i) H1 = Some (j, H')"
    have n: "isloop n" "n \<notin> loop_names body" using ok by simp_all
    obtain s2 where s2: "store_push ops n (V_size (Suc i)) (s, r) = Some (s2, r)"
      "tracks lam isloop V l F (B(n \<mapsto> Suc i)) H s2"
      using track_loop_push[OF Suc.prems(3) n(1) fun_upd_same, of ops "Suc i" r] unfolding fun_upd_upd by blast
    have pre1: "prefix (H1 x) (F x)" for x
      using src_while_prefix[OF w, of x] Suc.prems(2)[of x] by (rule prefix_order.trans)
    have B1: "(B(n \<mapsto> Suc i)) m = None" if "m \<in> loop_names body" for m
      using that B n(2) by auto
    obtain s3 where s3: "run_stmt k'' ops s1 (s2, r) = Some (None, (s3, r))"
      "tracks lam isloop V l F (B(n \<mapsto> Suc i)) H1 s3"
      using replay_of_None[OF replaysD[OF IH b body pre1 s2(2) B1 k''(2), of r]] by blast
    obtain s4 where "run_while k'' ops c1 s1 n (Suc i) (s3, r) = Some (None, (s4, r))"
      "tracks lam isloop V l F (B(n \<mapsto> j)) H' s4"
      using Suc.IH[OF w Suc.prems(2) s3(2) k''(2)] by blast
    with c[OF t(1)] t(2) s2(1) s3(1) k''(1) show ?thesis by (simp del: fun_upd_apply)
  qed
qed simp

lemma run_for_each_replays:
  assumes IH: "replays lam isloop V l F ops body"
    and body: "collect_stmt l old body = Some (ba, rt, s1)"
    and B: "\<And>m. m \<in> loop_names body \<Longrightarrow> B m = None"
  shows "src_while k c body i H = Some (j, H') \<Longrightarrow> (\<And>x. prefix (H' x) (F x)) \<Longrightarrow>
    tracks lam isloop V l F B H s \<Longrightarrow> k \<le> k' \<Longrightarrow>
    i \<le> j \<and> (\<exists>s'. run_for_each k' ops s1 (j - i) (s, r) = Some (None, (s', r)) \<and> tracks lam isloop V l F B H' s')"
proof (induction k arbitrary: i H s)
  case (Suc k)
  from Suc.prems(1)[unfolded src_while_Suc_iff] show ?case
  proof (elim disjE conjE exE)
    assume "(j, H') = (i, H)"
    with Suc.prems(3) show ?thesis by simp
  next
    fix H1 assume b: "src_stmt k body H = Some (None, H1)" and w: "src_while k c body (Suc i) H1 = Some (j, H')"
    have k: "k \<le> k'" using Suc.prems(4) by simp
    have pre1: "prefix (H1 x) (F x)" for x
      using src_while_prefix[OF w, of x] Suc.prems(2)[of x] by (rule prefix_order.trans)
    obtain s3 where s3: "run_stmt k' ops s1 (s, r) = Some (None, (s3, r))" "tracks lam isloop V l F B H1 s3"
      using replay_of_None[OF replaysD[OF IH b body pre1 Suc.prems(3) B k, of r]] by blast
    have j: "Suc i \<le> j" and "\<exists>s'. run_for_each k' ops s1 (j - Suc i) (s3, r) = Some (None, (s', r)) \<and>
        tracks lam isloop V l F B H' s'"
      using Suc.IH[OF w Suc.prems(2) s3(2) k] by simp_all
    moreover have "j - i = Suc (j - Suc i)" using j by simp
    ultimately show ?thesis using s3(1) by auto
  qed
qed simp

text \<open>A loop of an earlier phase has one count for all its runs.\<close>

definition steady :: "(name \<Rightarrow> bool) \<Rightarrow> hist \<Rightarrow> bool" where
  "steady isloop F \<longleftrightarrow> (\<forall>n. isloop n \<longrightarrow> (\<forall>v \<in> set (F n). v = last (F n)))"

lemma replays_While:
  assumes IH: "replays lam isloop V l F ops body" and ok: "well_labelled lam isloop (NS_While l2 c body n)"
    and st: "steady isloop F"
  shows "replays lam isloop V l F ops (NS_While l2 c body n)"
proof (rule replaysI)
  fix k H ret H' old api rt c' B k' s and r :: 'a
  assume src: "src_stmt k (NS_While l2 c body n) H = Some (ret, H')"
    and col: "collect_stmt l old (NS_While l2 c body n) = Some (api, rt, c')"
    and pre: "\<And>x. prefix (H' x) (F x)" and tr: "tracks lam isloop V l F B H s"
    and B: "\<And>m. m \<in> loop_names (NS_While l2 c body n) \<Longrightarrow> B m = None" and k: "k \<le> k'"
  obtain i H1 where w: "src_while k c body 0 H = Some (i, H1)" and H': "H' = append_hist n (V_size i) H1"
    and ret: "ret = None"
    using src unfolding src_While_iff by auto
  have pre1: "prefix (H1 x) (F x)" for x
    using pre[of x] H' by (auto simp: append_hist_def dest: append_prefixD split: if_splits)
  have n: "isloop n" "lam n = l2" "B n = None" and Bb: "\<And>m. m \<in> loop_names body \<Longrightarrow> B m = None"
    using ok B by simp_all
  have "\<exists>s'. run_stmt k' ops c' (s, r) = Some (None, (s', r)) \<and> tracks lam isloop V l F B H' s'"
  proof (cases "l2 = l")
    case True
    obtain ca c1 ba s1 where c1: "collect_expr l old c = Some (ca, c1)"
      and s1: "collect_stmt l old body = Some (ba, rt, s1)" and c': "c' = SS_While c1 s1 n"
      using collect_While_own[OF col[unfolded True]] by blast
    obtain s2 where s2: "store_bind ops n (V_size 0) (s, r) = Some (s2, r)" "tracks lam isloop V l F (B(n \<mapsto> 0)) H s2"
      using track_loop_bind[OF tr n(1), of ops 0 r] by blast
    obtain s3 where s3: "run_while k' ops c1 s1 n 0 (s2, r) = Some (None, (s3, r))"
      "tracks lam isloop V l F (B(n \<mapsto> i)) H1 s3"
      using run_while_replays[OF IH c1 s1 ok Bb w pre1 s2(2) k, of r] by blast
    have "tracks lam isloop V l F B H' s3"
      unfolding H' by (rule track_loop_done[OF s3(2) n(1) _ n(3)]) (use n(2) True in simp)
    with s2(1) s3(1) c' show ?thesis by simp
  next
    case other: False
    show ?thesis
    proof (cases "flows l2 l")
      case True
      obtain ba s1 where s1: "collect_stmt l old body = Some (ba, rt, s1)" and c': "c' = SS_ForEach s1 n"
        using collect_While_known[OF col other True] by blast
      have Fn: "V_size i \<in> set (F n)"
        using pre[of n] H' by (auto simp: append_hist_def dest: set_mono_prefix)
      then have "last (F n) = V_size i" "F n \<noteq> []" using st n(1) by (auto simp: steady_def)
      then have "store_get n s = Some (V_size i)" if "n \<notin> constant_names"
      proof -
        obtain h where "holders s n = Some h" "slot lam isloop V l F B H n h"
          using tracks_slot[OF tr] .
        with \<open>last (F n) = V_size i\<close> \<open>F n \<noteq> []\<close> n other True that show ?thesis
          by (auto simp: slot_def loop_holder_def store_get_def constant_names_def)
      qed
      moreover obtain s2 where "run_for_each k' ops s1 i (s, r) = Some (None, (s2, r))" "tracks lam isloop V l F B H1 s2"
        using run_for_each_replays[OF IH s1 Bb w pre1 tr k, of r] by auto
      moreover from this(2) have "tracks lam isloop V l F B H' s2"
        using track_loop_other[of lam isloop V l F B H1 _ n "V_size i"] n(1,2) other H' by simp
      moreover have "n \<notin> constant_names" using ok constant_builtin by auto
      ultimately show ?thesis using c' by simp
    next
      case False
      have "tracks lam isloop V l F B H1 s"
      proof (rule skip_unknown[OF tr False])
        show "\<forall>m \<in> stmt_labels body. flows l2 m" using ok by simp
        show "H1 x = H x" if "lam x \<notin> stmt_labels body" for x
          using src_while_frame[OF w] written_label ok that by fastforce
      qed
      then have "tracks lam isloop V l F B H' s"
        using track_loop_other[of lam isloop V l F B H1 _ n "V_size i"] n(1,2) other H' by simp
      with collect_While_unknown[OF col other False] show ?thesis by simp
    qed
  qed
  with ret show "replay_of lam isloop V l F B H' ret r (run_stmt k' ops c' (s, r))"
    by (simp add: replay_of_def)
qed

lemma run_stmts_replays:
  assumes "\<And>c. c \<in> set cs \<Longrightarrow> replays lam isloop V l F ops c" "well_labelled_seq lam isloop cs"
  shows "src_stmts k cs H = Some (ret, H') \<Longrightarrow> collect_stmts l old cs = Some (api, rt, cs') \<Longrightarrow>
    (\<And>x. prefix (H' x) (F x)) \<Longrightarrow> tracks lam isloop V l F B H s \<Longrightarrow>
    (\<And>c n. c \<in> set cs \<Longrightarrow> n \<in> loop_names c \<Longrightarrow> B n = None) \<Longrightarrow> k \<le> k' \<Longrightarrow>
    replay_of lam isloop V l F B H' ret r (run_stmts k' ops cs' (s, r))"
  using assms
proof (induction cs arbitrary: H s api rt cs')
  case (Cons c cs)
  obtain a r1 c1 b r2 cs1 where c1: "collect_stmt l old c = Some (a, r1, c1)"
    and cs1: "collect_stmts l old cs = Some (b, r2, cs1)" and cs': "cs' = c1 # cs1"
    using collect_stmts_Cons[OF Cons.prems(2)] by blast
  have c: "replays lam isloop V l F ops c" using Cons.prems(7) by simp
  have B: "\<And>n. n \<in> loop_names c \<Longrightarrow> B n = None" using Cons.prems(5)[of c] by simp
  from Cons.prems(1)[unfolded src_stmts_Cons_iff] show ?case
  proof (elim disjE exE conjE)
    fix H1 assume s1: "src_stmt k c H = Some (None, H1)" and rest: "src_stmts k cs H1 = Some (ret, H')"
    have "prefix (H1 x) (H' x)" for x
      using rest by (rule src_stmts_induct[rotated -1]) (auto intro: src_stmt_prefix)
    then have pre1: "prefix (H1 x) (F x)" for x
      using Cons.prems(3) prefix_order.trans by blast
    obtain s2 where s2: "run_stmt k' ops c1 (s, r) = Some (None, (s2, r))" "tracks lam isloop V l F B H1 s2"
      using replay_of_None[OF replaysD[OF c s1 c1 pre1 Cons.prems(4) B Cons.prems(6), of r]] by blast
    have "replay_of lam isloop V l F B H' ret r (run_stmts k' ops cs1 (s2, r))"
      by (rule Cons.IH[OF rest cs1 Cons.prems(3) s2(2) _ Cons.prems(6)]) (use Cons.prems(5,7,8) in auto)
    with s2(1) cs' show ?thesis by simp
  next
    fix v H1 assume s1: "src_stmt k c H = Some (Some v, H1)" and res: "(ret, H') = (Some v, H1)"
    have cs: "cs = []" using Cons.prems(8) s1 no_return_result by fastforce
    then have "cs1 = []" using cs1 by simp
    moreover have "replay_of lam isloop V l F B H' ret r (run_stmt k' ops c1 (s, r))"
      by (rule replaysD[OF c _ c1 Cons.prems(3,4) B Cons.prems(6)]) (use s1 res in simp)
    ultimately show ?thesis using cs' by (simp only: run_stmts_single)
  qed
qed (simp add: replay_of_def)

lemma phase_replays:
  assumes "steady isloop F"
  shows "well_labelled lam isloop c \<Longrightarrow> replays lam isloop V l F ops c"
proof (induction c)
  case (NS_Let l2 b body)
  then show ?case by (cases b) (simp add: replays_Let)
next
  case (NS_Sequence l2 cs)
  have cs: "replays lam isloop V l F ops c" if "c \<in> set cs" for c
    using NS_Sequence that by (simp add: well_labelled_seq_iff)
  show ?case
  proof (rule replaysI)
    fix k H ret H' old api rt c' B k' s and r :: 'a
    assume src: "src_stmt k (NS_Sequence l2 cs) H = Some (ret, H')"
      and col: "collect_stmt l old (NS_Sequence l2 cs) = Some (api, rt, c')"
      and pre: "\<And>x. prefix (H' x) (F x)" and tr: "tracks lam isloop V l F B H s"
      and B: "\<And>n. n \<in> loop_names (NS_Sequence l2 cs) \<Longrightarrow> B n = None" and k: "k \<le> k'"
    obtain cs' where cs': "collect_stmts l old cs = Some (api, rt, cs')" "c' = collapse cs'"
      using collect_Sequence[OF col] by blast
    have "replay_of lam isloop V l F B H' ret r (run_stmts k' ops cs' (s, r))"
      by (rule run_stmts_replays[OF cs _ _ cs'(1) pre tr _ k]) (use NS_Sequence.prems src B in auto)
    then show "replay_of lam isloop V l F B H' ret r (run_stmt k' ops c' (s, r))"
      unfolding cs'(2) run_collapse .
  qed
qed (simp_all add: replays_Assignment replays_Return replays_If replays_While assms)

end
