(* ===== verification/PhaseForm.thy ===== *)
theory PhaseForm
  imports Replay
begin

text \<open>
  The form of the programs that splitting produces: what a phase reads, writes and steps, and that
  the cleaning passes keep it.  These are the conditions under which \<open>SplitClean\<close> lets the passes
  remove anything.
\<close>

section \<open>The form of a phase\<close>

text \<open>The names in the conditions of conditionals, and the counters of replayed loops.\<close>

fun cond_names :: "sstmt \<Rightarrow> name set" where
  "cond_names (SS_Let b s) = cond_names s"
| "cond_names (SS_LetRemote b s) = cond_names s"
| "cond_names (SS_If c t e) = set (expr_requires c) \<union> cond_names t \<union> cond_names e"
| "cond_names (SS_While c t n) = cond_names t"
| "cond_names (SS_ForEach t n) = cond_names t"
| "cond_names (SS_Sequence ss) = (\<Union>s \<in> set ss. cond_names s)"
| "cond_names _ = {}"

fun each_names :: "sstmt \<Rightarrow> name set" where
  "each_names (SS_Let b s) = each_names s"
| "each_names (SS_LetRemote b s) = each_names s"
| "each_names (SS_If c t e) = each_names t \<union> each_names e"
| "each_names (SS_While c t n) = each_names t"
| "each_names (SS_ForEach t n) = insert n (each_names t)"
| "each_names (SS_Sequence ss) = (\<Union>s \<in> set ss. each_names s)"
| "each_names _ = {}"

text \<open>A phase reads what it requires and its own variables, writes its own variables, and steps the others.\<close>

definition phase_form :: "name set \<Rightarrow> name set \<Rightarrow> name set \<Rightarrow> sstmt \<Rightarrow> bool" where
  "phase_form R own L s \<longleftrightarrow> local_stmt s \<and> reads s \<subseteq> R \<union> own \<and> writes s \<subseteq> own \<and> steps s \<inter> own = {} \<and>
     cond_names s \<inter> L = {} \<and> each_names s \<subseteq> L"

lemma phase_form_Sequence: "phase_form R own L (SS_Sequence ss) \<longleftrightarrow> (\<forall>s \<in> set ss. phase_form R own L s)"
  unfolding phase_form_def by auto

lemma phase_form_mono: "phase_form R own L s \<Longrightarrow> R \<subseteq> R' \<Longrightarrow> phase_form R' own L s"
  unfolding phase_form_def by auto

lemma collapse_all:
  assumes "\<And>ss. P (SS_Sequence ss) \<longleftrightarrow> (\<forall>s \<in> set ss. P s)"
  shows "P s \<Longrightarrow> \<forall>t \<in> set (collapse_stmt s). P t"
    "(\<forall>s \<in> set ss. P s) \<Longrightarrow> \<forall>t \<in> set (collapse_seq ss). P t"
  by (induction s and ss rule: collapse_stmt_collapse_seq.induct) (auto simp: assms)

lemma phase_form_collapse: "phase_form R own L (SS_Sequence ss) \<Longrightarrow> phase_form R own L (collapse ss)"
  unfolding collapse_def phase_form_Sequence
  by (rule collapse_all(2)[of "phase_form R own L"]) (simp_all add: phase_form_Sequence)

text \<open>The names that loops may have.\<close>

definition loop_set :: "(name \<Rightarrow> bool) \<Rightarrow> name set" where
  "loop_set isloop = {n. isloop n \<and> \<not> is_builtin n}"

lemma collect_expr_names:
  "collect_expr l old e = Some (a, e') \<Longrightarrow> vars_ok lam isloop e \<Longrightarrow> set (expr_requires e') \<inter> loop_set isloop = {}"
  by (induction e arbitrary: a e') (auto simp: bind_Some_iff loop_set_def split: if_splits)

text \<open>The variables of a phase among those of the program.\<close>

definition own_names :: "(name \<Rightarrow> label) \<Rightarrow> name set \<Rightarrow> label \<Rightarrow> name set" where
  "own_names lam W l = {x \<in> W. lam x = l}"

lemma collect_expr_form:
  assumes "collect_expr l old e = Some (a, e')" "vars_ok lam isloop e" "bnames (provides old) \<subseteq> own" "bnames (requires a) \<subseteq> R"
  shows "pure_expr e' \<and> evars e' \<subseteq> R \<union> own \<and> set (expr_requires e') \<inter> loop_set isloop = {}"
  using collect_expr_static[OF assms(1,2)] collect_expr_names[OF assms(1,2)] assms(3,4) by auto

lemma collect_target:
  "collect_expr l old v = Some (a, v') \<Longrightarrow> target_ok lam isloop l2 v \<Longrightarrow> base_var v = Some n \<Longrightarrow>
   set (expr_requires v') = {n}"
  unfolding target_ok_iff
proof (induction v arbitrary: a v')
  case (LE_VarReference l y x)
  then show ?case by (auto simp: bind_Some_iff split: if_splits)
qed (auto simp: bind_Some_iff)

lemma collect_stmts_form:
  assumes "\<And>c old api rt c'. c \<in> set cs \<Longrightarrow> collect_stmt l old c = Some (api, rt, c') \<Longrightarrow>
      bnames (provides old) \<subseteq> own \<Longrightarrow> phase_form (bnames (requires api)) own L c'"
  shows "collect_stmts l old cs = Some (api, rt, cs') \<Longrightarrow> bnames (provides old) \<subseteq> own \<Longrightarrow>
    \<forall>c' \<in> set cs'. phase_form (bnames (requires api)) own L c'"
  using assms
proof (induction cs arbitrary: api rt cs')
  case (Cons c cs)
  obtain a r1 c1 b r2 cs1 where c1: "collect_stmt l old c = Some (a, r1, c1)"
    and cs1: "collect_stmts l old cs = Some (b, r2, cs1)" and cs': "cs' = c1 # cs1"
    and R: "bnames (requires api) = bnames (requires a) \<union> bnames (requires b)"
    using collect_stmts_Cons[OF Cons.prems(1)] by blast
  have "phase_form (bnames (requires a)) own L c1"
    by (rule Cons.prems(3)[OF _ c1 Cons.prems(2)]) simp
  moreover have "\<forall>c' \<in> set cs1. phase_form (bnames (requires b)) own L c'"
  proof (rule Cons.IH[OF cs1 Cons.prems(2)])
    show "phase_form (bnames (requires api)) own L c'"
      if "d \<in> set cs" "collect_stmt l old d = Some (api, rt, c')" "bnames (provides old) \<subseteq> own" for d old api rt c'
      by (rule Cons.prems(3)[OF _ that(2,3)]) (simp add: that(1))
  qed
  ultimately show ?case unfolding cs' R by (auto intro: phase_form_mono)
qed simp

lemma collect_form:
  assumes "own = own_names lam W l" "L = loop_set isloop"
  shows "collect_stmt l old c = Some (api, rt, c') \<Longrightarrow> well_labelled lam isloop c \<Longrightarrow> written c \<subseteq> W \<Longrightarrow>
    bnames (provides old) \<subseteq> own \<Longrightarrow> phase_form (bnames (requires api)) own L c'"
proof (induction c arbitrary: old api rt c')
  case (NS_Let l2 b body)
  obtain bl y n e where b: "b = LBinding bl y n e" by (cases b)
  have ok: "vars_ok lam isloop e" "lam n = l2" "n \<in> W" "well_labelled lam isloop body" "written body \<subseteq> W"
    using NS_Let.prems(2,3) b by auto
  show ?case
  proof (cases "l2 = l")
    case True
    obtain a e' inner ap c1 where e': "collect_expr l old e = Some (a, e')"
      and c1: "collect_stmt l inner body = Some (ap, rt, c1)" and c': "c' = SS_Let (SBinding bl y n e') c1"
      and i: "bnames (provides inner) = insert n (bnames (provides old))"
      and R: "bnames (requires api) = bnames (requires a) \<union> bnames (requires ap)"
      using collect_Let_own[OF NS_Let.prems(1)[unfolded b True] ok(1)] by blast
    have n: "n \<in> own" using ok True assms by (simp add: own_names_def)
    have "phase_form (bnames (requires ap)) own L c1"
      by (rule NS_Let.IH[OF c1 ok(4,5)]) (use n i NS_Let.prems(4) in simp)
    with collect_expr_form[OF e' ok(1) NS_Let.prems(4), of "bnames (requires a)"] n
    show ?thesis unfolding R c' by (auto simp: phase_form_def)
  next
    case False
    obtain c1 where c1: "collect_stmt l old body = Some (api, rt, c1)"
      and c': "c' = SS_Sequence [SS_IncrementOccurance n, c1]"
      using collect_Let_other[OF NS_Let.prems(1)[unfolded b] False] by blast
    have "phase_form (bnames (requires api)) own L c1"
      by (rule NS_Let.IH[OF c1 ok(4,5) NS_Let.prems(4)])
    then show ?thesis using ok False assms unfolding c' by (auto simp: phase_form_def own_names_def)
  qed
next
  case (NS_Assignment l2 v e)
  have ok: "target_ok lam isloop l2 v" "vars_ok lam isloop e" using NS_Assignment.prems(2) by simp_all
  then obtain n where n: "base_var v = Some n" "lam n = l2" and vok: "vars_ok lam isloop v"
    by (auto simp: target_ok_iff)
  have W: "n \<in> W" using NS_Assignment.prems(3) n(1) by simp
  show ?case
  proof (cases "l2 = l")
    case True
    obtain va v' ea e' where v': "collect_expr l old v = Some (va, v')" and e': "collect_expr l old e = Some (ea, e')"
      and c': "c' = SS_Assignment v' e'" and R: "bnames (requires api) = bnames (requires va) \<union> bnames (requires ea)"
      using collect_Assignment_own[OF NS_Assignment.prems(1)[unfolded True]] by blast
    have "set (expr_requires v') = {n}" by (rule collect_target[OF v' ok(1) n(1)])
    with collect_expr_form[OF v' vok NS_Assignment.prems(4), of "bnames (requires va)"]
      collect_expr_form[OF e' ok(2) NS_Assignment.prems(4), of "bnames (requires ea)"] n True W
    show ?thesis unfolding c' R assms by (auto simp: phase_form_def own_names_def)
  next
    case False
    then show ?thesis
      using collect_Assignment_other[OF NS_Assignment.prems(1) False] n assms
      by (auto simp: phase_form_def own_names_def)
  qed
next
  case (NS_Return e)
  show ?case
  proof (cases "l = Bottom")
    case True
    obtain e' where e': "collect_expr l old e = Some (api, e')" and c': "c' = SS_Return e'"
      using collect_Return_own[OF NS_Return.prems(1)[unfolded True]] True by blast
    from collect_expr_form[OF e' _ NS_Return.prems(4), of lam isloop "bnames (requires api)"] NS_Return.prems(2)
    show ?thesis unfolding c' by (auto simp: phase_form_def)
  next
    case False
    from collect_Return_other[OF NS_Return.prems(1) False] show ?thesis by (simp add: phase_form_def)
  qed
next
  case (NS_If l2 c t e)
  show ?case
  proof (cases "flows l2 l")
    case True
    obtain ca c1 ta tr1 t1 ea er e1 where c1: "collect_expr l old c = Some (ca, c1)"
      and t1: "collect_stmt l old t = Some (ta, tr1, t1)" and e1: "collect_stmt l old e = Some (ea, er, e1)"
      and c': "c' = SS_If c1 t1 e1"
      and R: "bnames (requires api) = bnames (requires ca) \<union> bnames (requires ta) \<union> bnames (requires ea)"
      using collect_If_known[OF NS_If.prems(1) True] by blast
    have "phase_form (bnames (requires ta)) own L t1" "phase_form (bnames (requires ea)) own L e1"
      using NS_If.IH(1)[OF t1] NS_If.IH(2)[OF e1] NS_If.prems(2-4) by simp_all
    with collect_expr_form[OF c1 _ NS_If.prems(4), of lam isloop "bnames (requires ca)"] NS_If.prems(2) assms(2)
    show ?thesis unfolding c' R by (auto simp: phase_form_def)
  next
    case False
    from collect_If_unknown[OF NS_If.prems(1) False] show ?thesis by (simp add: phase_form_def)
  qed
next
  case (NS_While l2 c body n)
  have n: "lam n = l2" "n \<in> W" "n \<in> L" and ok: "vars_ok lam isloop c" "well_labelled lam isloop body" "written body \<subseteq> W"
    using NS_While.prems(2,3) assms(2) by (auto simp: loop_set_def)
  show ?case
  proof (cases "l2 = l")
    case True
    obtain ca c1 ba s1 where c1: "collect_expr l old c = Some (ca, c1)"
      and s1: "collect_stmt l old body = Some (ba, rt, s1)" and c': "c' = SS_While c1 s1 n"
      and R: "bnames (requires api) = bnames (requires ca) \<union> bnames (requires ba)"
      using collect_While_own[OF NS_While.prems(1)[unfolded True]] by blast
    have "n \<in> own" using n(1,2) True assms(1) by (simp add: own_names_def)
    with NS_While.IH[OF s1 ok(2,3) NS_While.prems(4)]
      collect_expr_form[OF c1 ok(1) NS_While.prems(4), of "bnames (requires ca)"]
    show ?thesis unfolding c' R by (auto simp: phase_form_def)
  next
    case other: False
    show ?thesis
    proof (cases "flows l2 l")
      case True
      obtain ba s1 where s1: "collect_stmt l old body = Some (ba, rt, s1)" and c': "c' = SS_ForEach s1 n"
        and R: "bnames (requires api) = insert n (bnames (requires ba))"
        using collect_While_known[OF NS_While.prems(1) other True] by blast
      from NS_While.IH[OF s1 ok(2,3) NS_While.prems(4)] n(3)
      show ?thesis unfolding c' R by (auto simp: phase_form_def)
    next
      case False
      from collect_While_unknown[OF NS_While.prems(1) other False] show ?thesis by (simp add: phase_form_def)
    qed
  qed
next
  case (NS_Sequence l2 cs)
  obtain cs' where cs': "collect_stmts l old cs = Some (api, rt, cs')" "c' = collapse cs'"
    using collect_Sequence[OF NS_Sequence.prems(1)] by blast
  have "\<forall>c' \<in> set cs'. phase_form (bnames (requires api)) own L c'"
  proof (rule collect_stmts_form[OF _ cs'(1) NS_Sequence.prems(4)])
    show "phase_form (bnames (requires api)) own L c'"
      if "d \<in> set cs" "collect_stmt l old d = Some (api, rt, c')" "bnames (provides old) \<subseteq> own" for d old api rt c'
      by (rule NS_Sequence.IH[OF that(1,2) _ _ that(3)]) (use NS_Sequence.prems(2,3) that(1) in \<open>auto simp: well_labelled_seq_iff\<close>)
  qed
  then show ?case unfolding cs'(2) by (intro phase_form_collapse) (simp add: phase_form_Sequence)
qed simp_all

section \<open>Cleaning keeps the form\<close>

lemma remove_unused_reads: "reads (remove_unused ts s) = reads s"
proof (induction s)
  case (SS_Let b s)
  then show ?case by (cases b) simp
next
  case (SS_LetRemote b s)
  then show ?case by (cases b) simp
qed simp_all

lemma remove_unused_writes: "writes (remove_unused ts s) = writes s"
proof (induction s)
  case (SS_Let b s)
  then show ?case by (cases b) simp
next
  case (SS_LetRemote b s)
  then show ?case by (cases b) simp
qed simp_all

lemma remove_unused_conds: "cond_names (remove_unused ts s) = cond_names s"
  by (induction s) simp_all

lemma remove_unused_each: "each_names (remove_unused ts s) = each_names s"
  by (induction s) simp_all

lemma remove_unused_steps: "steps (remove_unused ts s) \<subseteq> steps s"
  by (induction s) auto

lemma remove_unused_local: "local_stmt s \<Longrightarrow> local_stmt (remove_unused ts s)"
  by (induction s rule: local_stmt.induct) auto

lemma remove_unused_form: "phase_form R own L s \<Longrightarrow> phase_form R own L (remove_unused ts s)"
  using remove_unused_steps[of ts s]
  by (auto simp: phase_form_def remove_unused_reads remove_unused_writes remove_unused_conds
      remove_unused_each intro: remove_unused_local)

lemma set_fold_union: "set (fold List.union xss ys) = set ys \<union> (\<Union>xs \<in> set xss. set xs)"
  by (induction xss arbitrary: ys) auto

lemma collapse_subset:
  assumes "\<And>ss. f (SS_Sequence ss) = (\<Union>s \<in> set ss. f s)" "(\<Union>s \<in> set ss. f s) \<subseteq> X"
  shows "f (collapse ss) \<subseteq> X"
proof -
  have "\<forall>t \<in> set (collapse_seq ss). f t \<subseteq> X"
    by (rule collapse_all(2)[of "\<lambda>s. f s \<subseteq> X"]) (use assms in auto)
  then show ?thesis by (auto simp: collapse_def assms(1))
qed

lemma phase_form_Let:
  "phase_form R own L (SS_Let (SBinding l y v e) s) \<longleftrightarrow>
   pure_expr e \<and> evars e \<subseteq> R \<union> own \<and> v \<in> own \<and> phase_form R own L s"
  unfolding phase_form_def by auto

lemma phase_form_If:
  "phase_form R own L (SS_If c t e) \<longleftrightarrow>
   pure_expr c \<and> evars c \<subseteq> R \<union> own \<and> set (expr_requires c) \<inter> L = {} \<and> phase_form R own L t \<and> phase_form R own L e"
  unfolding phase_form_def by (simp add: Int_Un_distrib2) blast

lemma phase_form_While:
  "phase_form R own L (SS_While c t n) \<longleftrightarrow>
   pure_expr c \<and> evars c \<subseteq> R \<union> own \<and> n \<in> own \<and> phase_form R own L t"
  unfolding phase_form_def by auto

lemma phase_form_ForEach:
  "phase_form R own L (SS_ForEach t n) \<longleftrightarrow> n \<in> R \<union> own \<and> n \<in> L \<and> phase_form R own L t"
  unfolding phase_form_def by auto

lemmas phase_form_iffs =
  phase_form_Let phase_form_If phase_form_While phase_form_ForEach phase_form_Sequence

lemma clear_form: "phase_form R own L s \<Longrightarrow> phase_form R own L (cl_ast (clear_empty_statements s))"
proof (induction s rule: clear_empty_statements.induct)
  case (2 l y v e body)
  then show ?case by (simp add: phase_form_def)
next
  case (15 ss)
  then have "\<forall>s \<in> set ss. phase_form R own L (cl_ast (clear_empty_statements s))"
    by (simp add: phase_form_Sequence)
  then show ?case
    by (simp add: Let_def phase_form_collapse phase_form_Sequence)
qed (auto simp: phase_form_iffs Let_def cleared_leaf_def)

text \<open>What the cleared statement reads is still required, counters of loops apart.\<close>

lemma clear_reads:
  "reads (cl_ast (clear_empty_statements s)) \<subseteq> set (still_require (clear_empty_statements s)) \<union> each_names s"
proof (induction s rule: clear_empty_statements.induct)
  case (15 ss)
  show ?case
    unfolding clear_empty_statements.simps Let_def cleared.simps
    by (rule collapse_subset) (use 15 in \<open>auto simp: set_fold_union\<close>)
qed (auto simp: Let_def cleared_leaf_def evars_def set_fold_union)

lemma clear_removed: "set (remove_from_require (clear_empty_statements s)) \<subseteq> cond_names s"
  by (induction s rule: clear_empty_statements.induct)
    (auto simp: Let_def cleared_leaf_def set_fold_union)

end
