(* ===== verification/Interp.thy ===== *)
theory Interp
  imports SplitPhase Runtime
begin

text \<open>
  Running a transaction: one attempt of a phase with its commit (\<open>run_phase1\<close>, \<open>commit_phase\<close>,
  \<open>common_interp_loop\<close>), the attempts of a phase (\<open>common_interp\<close>, all in \<open>mtl/run_phase.hpp\<close>),
  the phases of a transaction run in this process (\<open>dispatch_to_runner\<close>, \<open>mtl/interp.hpp\<close>), and
  the store they share (\<open>all_store\<close>, \<open>mtl/runnable_transaction.hpp\<close>).

  \<^term>\<open>None\<close> is an exception, of which the attempts of a phase catch the serialization failures; a
  failed assertion, which ends the process, is also \<^term>\<open>None\<close>.
\<close>

section \<open>One phase\<close>

text \<open>The result must be what the type of the phase says: a value or none.\<close>

definition run_phase1 :: "nat \<Rightarrow> 'r remote_ops \<Rightarrow> phase \<Rightarrow> 'r mstate \<Rightarrow> (mvalue option \<times> 'r mstate) option" where
  "run_phase1 k ops p st = do {
     (ret, st) \<leftarrow> run_stmt k ops (phase_ast p) st;
     require ((phase_returns p = None) = (ret = None));
     Some (ret, st) }"

text \<open>An attempt works on a copy of the store, which replaces the store when the commit has succeeded.\<close>

definition common_interp_loop :: "nat \<Rightarrow> 'r remote_ops \<Rightarrow> ('r \<Rightarrow> 'r option) \<Rightarrow> phase \<Rightarrow> mstore \<Rightarrow> 'r \<Rightarrow>
    (mvalue option \<times> mstore) option" where
  "common_interp_loop k ops store_commit p s r = do {
     (ret, (s', r)) \<leftarrow> run_phase1 k ops p (begin_phase s, r);
     r \<leftarrow> store_commit r;
     Some (ret, s') }"

text \<open>\<open>common_interp\<close>: the list holds the state in which each attempt finds the data stores.  The back-off
  between two attempts is left out.  The exception is not told from others: an attempt that fails for
  another reason than a serialization failure is also repeated here, while the code gives up.  In
  the theorems on splitting the first attempt of every phase succeeds.\<close>

fun common_interp :: "nat \<Rightarrow> 'r remote_ops \<Rightarrow> ('r \<Rightarrow> 'r option) \<Rightarrow> phase \<Rightarrow> mstore \<Rightarrow> 'r list \<Rightarrow>
    (mvalue option \<times> mstore) option" where
  "common_interp k ops store_commit p s [] = None"
| "common_interp k ops store_commit p s (r # rs) =
     (case common_interp_loop k ops store_commit p s r of
        Some res \<Rightarrow> Some res
      | None \<Rightarrow> do {
          t \<leftarrow> traits (phase_label p);
          if can_abort t then None else common_interp k ops store_commit p s rs })"

section \<open>A transaction\<close>

text \<open>\<open>dispatch_to_runner\<close>: the value is that of the last phase.\<close>

fun run_transaction :: "nat \<Rightarrow> 'r remote_ops \<Rightarrow> ('r \<Rightarrow> 'r option) \<Rightarrow> phase list \<Rightarrow> 'r list list \<Rightarrow> mstore \<Rightarrow>
    (mvalue option \<times> mstore) option" where
  "run_transaction k ops store_commit [p] [rs] s = common_interp k ops store_commit p s rs"
| "run_transaction k ops store_commit (p # q # ps) (rs # rss) s = do {
     (_, s) \<leftarrow> common_interp k ops store_commit p s rs;
     run_transaction k ops store_commit (q # ps) rss s }"
| "run_transaction k ops store_commit _ _ s = None"

text \<open>The holder of a binding, and that of a variable that only its own phase uses (\<open>holder_to_value\<close>).\<close>

fun binding_holder :: "vbinding \<Rightarrow> holder" where
  "binding_holder (TypeBinding n y l False) = TypeHolder new_type_holder"
| "binding_holder (TypeBinding n y l True) = RemoteHolder y [] (-1)"
| "binding_holder (WhileBinding n) = ValueHolder None"

fun owned_holder :: "vbinding \<Rightarrow> holder" where
  "owned_holder (TypeBinding n y l False) = ValueHolder None"
| "owned_holder b = binding_holder b"

text \<open>What makes two holders the same type: the name, the type and whether the variable is remote.  The label is no
  part of it.\<close>

fun holder_type :: "vbinding \<Rightarrow> name \<times> (ytype \<times> bool) option" where
  "holder_type (TypeBinding n y l remote) = (n, Some (y, remote))"
| "holder_type (WhileBinding n) = (n, None)"

text \<open>The holders of a transaction without arguments: for what a phase provides to another one or all
  phases require, and for what a phase owns.\<close>

definition all_store :: "phase list \<Rightarrow> mstore" where
  "all_store ps =
     (let provided = concat (map phase_provides ps) @
            filter (\<lambda>b. \<forall>p \<in> set ps. holder_type b \<in> holder_type ` set (requirements p)) (concat (map requirements ps));
          owns = concat (map owned ps);
          remotes = map (\<lambda>b. case b of TypeBinding n y l True \<Rightarrow> Some y | _ \<Rightarrow> None) (provided @ owns)
      in \<lparr>holders = (\<lambda>n.
            (case find (\<lambda>b. vbinding_name b = n) provided of
               Some b \<Rightarrow> Some (binding_holder b)
             | None \<Rightarrow> map_option owned_holder (find (\<lambda>b. vbinding_name b = n) owns))),
          remote_maps = (\<lambda>y. if Some y \<in> set remotes then Some (\<lambda>_. new_type_holder) else None)\<rparr>)"

section \<open>Attempts\<close>

text \<open>A failed attempt leaves nothing behind: the outcome is that of one attempt, made on the original store,
  and all attempts before it failed.\<close>

lemma common_interp_cases:
  "common_interp k ops store_commit p s rs = Some res \<Longrightarrow>
   \<exists>pre r post. rs = pre @ r # post \<and> common_interp_loop k ops store_commit p s r = Some res \<and>
     (\<forall>q \<in> set pre. common_interp_loop k ops store_commit p s q = None) \<and>
     (pre \<noteq> [] \<longrightarrow> (\<exists>t. traits (phase_label p) = Some t \<and> \<not> can_abort t))"
proof (induction rs)
  case (Cons r rs)
  show ?case
  proof (cases "common_interp_loop k ops store_commit p s r")
    case None
    with Cons.prems obtain t where t: "traits (phase_label p) = Some t" "\<not> can_abort t"
      and rs: "common_interp k ops store_commit p s rs = Some res"
      by (auto simp: bind_Some_iff split: if_splits)
    from Cons.IH[OF rs] obtain pre r' post where
      "rs = pre @ r' # post" "common_interp_loop k ops store_commit p s r' = Some res"
      "\<forall>q \<in> set pre. common_interp_loop k ops store_commit p s q = None" by blast
    with None t show ?thesis by (intro exI[of _ "r # pre"] exI[of _ r'] exI[of _ post]) auto
  next
    case (Some x)
    with Cons.prems show ?thesis by (intro exI[of _ "[]"] exI[of _ r] exI[of _ rs]) auto
  qed
qed simp

end
