(* ===== verification/SplitCorrect.thy ===== *)
theory SplitCorrect
  imports PhaseForm Interp
begin

text \<open>
  The phases of a program together: each phase of \<open>split_phases\<close> does its part (\<open>extracted_phase_runs\<close>),
  and the transaction does what the program says (\<open>transaction_replays\<close>).
\<close>

section \<open>An extracted phase\<close>

lemma tracks_not_remote: "tracks lam isloop V l F B H s \<Longrightarrow> holders s x \<noteq> Some (RemoteHolder y hs p)"
  unfolding tracks_def slot_def loop_holder_def var_holder_def
  by (metis holder.distinct(3,5) option.sel)

lemma agree_trans: "agree A s t \<Longrightarrow> agree A t u \<Longrightarrow> agree A s u"
  by (simp add: agree_def)

lemma agree_subset: "agree A s t \<Longrightarrow> B \<subseteq> A \<Longrightarrow> agree B s t"
  by (auto simp: agree_def)

lemma bnames_filter: "bnames (filter P bs) = vbinding_name ` {b \<in> set bs. P b}"
  by (auto simp: bnames_def)

lemma bnames_remdups [simp]: "bnames (remdups bs) = bnames bs"
  by (simp add: bnames_def)

lemma extract_phase_parts:
  assumes "extract_phase a inh l = Some (p, nxt)"
  obtains api rt c s1 gone where
    "collect_stmt l \<lparr>requires = [], provides = [], inherits = inh\<rparr> a = Some (api, rt, c)"
    "s1 = remove_unused (requires api) c"
    "gone = filter (\<lambda>v. v \<notin> set (still_require (clear_empty_statements s1))) (remove_from_require (clear_empty_statements s1))"
    "pre_requires p = filter (\<lambda>b. vbinding_name b \<notin> set gone) (remdups (requires api))"
    "ast p = remove_unused (pre_requires p) (cl_ast (clear_empty_statements s1))"
    "returns p = rt" "level p = l"
  using assms by (auto simp: extract_phase_def Let_def bind_Some_iff)

lemma extracted_phase_runs:
  assumes ext: "extract_phase a inh l = Some (p, nxt)" and ok: "well_labelled lam isloop a"
    and steady: "steady isloop F" and src: "src_stmt k a (\<lambda>_. []) = Some (ret, F)" and k: "k \<le> k'"
    and own: "own = own_names lam (written a) l" and A: "A = bnames (pre_requires p) \<union> own"
    and tr: "tracks lam isloop V l F Map.empty (\<lambda>_. []) s" and ag: "agree A s t"
  shows "\<exists>s' t'. run_stmt k' ops (ast p) (t, r) = Some (phase_result l ret, (t', r)) \<and>
    tracks lam isloop V l F Map.empty F s' \<and> agree A s' t' \<and> same_outside A t t'"
proof -
  obtain api rt c s1 gone where col: "collect_stmt l \<lparr>requires = [], provides = [], inherits = inh\<rparr> a = Some (api, rt, c)"
    and s1: "s1 = remove_unused (requires api) c"
    and gone: "gone = filter (\<lambda>v. v \<notin> set (still_require (clear_empty_statements s1))) (remove_from_require (clear_empty_statements s1))"
    and reqs: "pre_requires p = filter (\<lambda>b. vbinding_name b \<notin> set gone) (remdups (requires api))"
    and ast: "ast p = remove_unused (pre_requires p) (cl_ast (clear_empty_statements s1))"
    by (rule extract_phase_parts[OF ext])
  let ?K = "bnames (requires api)" and ?c2 = "cl_ast (clear_empty_statements s1)" and ?L = "loop_set isloop"
  let ?A1 = "?K \<union> own"
  have form: "phase_form ?K own ?L c"
    by (rule collect_form[OF own refl col ok subset_refl]) simp
  have form1: "phase_form ?K own ?L s1" unfolding s1 by (rule remove_unused_form[OF form])
  have form2: "phase_form ?K own ?L ?c2" by (rule clear_form[OF form1])
  have reads2: "reads ?c2 \<subseteq> A"
  proof
    fix x assume x: "x \<in> reads ?c2"
    show "x \<in> A"
    proof (cases "x \<in> own")
      case False
      with x form2 have K: "x \<in> ?K" by (auto simp: phase_form_def)
      have "x \<notin> set gone"
      proof
        assume g: "x \<in> set gone"
        then have "x \<in> cond_names s1" using clear_removed[of s1] gone by auto
        then have "x \<notin> ?L" using form1 by (auto simp: phase_form_def)
        moreover have "each_names s1 \<subseteq> ?L" using form1 by (simp add: phase_form_def)
        ultimately show False using clear_reads[of s1] x g gone by auto
      qed
      with K show ?thesis unfolding A reqs by (auto simp: bnames_def)
    qed (simp add: A)
  qed
  obtain u where u: "run_stmt k' ops c (s, r) = Some (phase_result l ret, (u, r))"
    and tru: "tracks lam isloop V l F Map.empty F u"
    using replaysD[OF phase_replays[OF steady ok, of V l ops] src col prefix_order.refl tr _ k, of r]
    by (auto simp: replay_of_def)
  have ag1: "agree ?A1 s s" using tracks_not_remote[OF tr] by (simp add: agree_def)
  have mim1: "mimics ?A1 ops c s1" unfolding s1
    by (rule remove_unused_mimics) (use form in \<open>auto simp: phase_form_def contains_var_of_name_bnames\<close>)
  obtain u1 where u1: "run_stmt k' ops s1 (s, r) = Some (phase_result l ret, (u1, r))" "agree ?A1 u u1"
    by (rule ends_likeE[OF mimicsD[OF mim1 u ag1]])
  have u2: "run_stmt k' ops ?c2 (s, r) = Some (phase_result l ret, (u1, r))"
    by (rule refinesD[OF clear_refines u1(1)]) (use form1 in \<open>simp add: phase_form_def local_pure_conditions\<close>)
  have mim2: "mimics A ops ?c2 (ast p)" unfolding ast
  proof (rule remove_unused_mimics)
    show "local_stmt ?c2" using form2 by (simp add: phase_form_def)
    show "reads ?c2 \<union> writes ?c2 \<subseteq> A" using reads2 form2 A by (auto simp: phase_form_def)
    show "\<forall>x \<in> steps ?c2. contains_var_of_name x (pre_requires p) \<longleftrightarrow> x \<in> A"
      using form2 A by (auto simp: phase_form_def contains_var_of_name_bnames)
  qed
  obtain t' where t': "run_stmt k' ops (ast p) (t, r) = Some (phase_result l ret, (t', r))"
    "agree A u1 t'" "same_outside A t t'"
    by (rule ends_likeE[OF mimicsD[OF mim2 u2 ag]])
  have "A \<subseteq> ?A1" unfolding A reqs by (auto simp: bnames_def)
  then have "agree A u t'" using agree_trans[OF agree_subset[OF u1(2)] t'(2)] by blast
  with t' tru show ?thesis by blast
qed

section \<open>What a phase returns\<close>

lemma collect_stmts_returns:
  assumes "\<And>c old api rt c'. c \<in> set cs \<Longrightarrow> collect_stmt l old c = Some (api, rt, c') \<Longrightarrow> (rt = None) = (l \<noteq> Bottom \<or> no_return c)"
  shows "collect_stmts l old cs = Some (api, rt, cs') \<Longrightarrow> (rt = None) = (l \<noteq> Bottom \<or> (\<forall>c \<in> set cs. no_return c))"
  using assms
proof (induction cs arbitrary: api rt cs')
  case (Cons c cs)
  obtain a r1 c1 b r2 cs1 where c1: "collect_stmt l old c = Some (a, r1, c1)"
    and cs1: "collect_stmts l old cs = Some (b, r2, cs1)" and j: "join_returns r1 r2 = Some rt"
    using Cons.prems(1) by (simp add: bind_Some_iff split_paired_Ex) blast
  have "(r1 = None) = (l \<noteq> Bottom \<or> no_return c)" by (rule Cons.prems(2)[OF _ c1]) simp
  moreover have "(r2 = None) = (l \<noteq> Bottom \<or> (\<forall>c \<in> set cs. no_return c))"
  proof (rule Cons.IH[OF cs1])
    show "(rt = None) = (l \<noteq> Bottom \<or> no_return d)"
      if "d \<in> set cs" "collect_stmt l old d = Some (api, rt, c')" for d old api rt c'
      by (rule Cons.prems(2)[OF _ that(2)]) (simp add: that(1))
  qed
  ultimately show ?case using j by (auto simp: join_returns_def split: if_splits)
qed auto

lemma collect_returns:
  "collect_stmt l old c = Some (api, rt, c') \<Longrightarrow> well_labelled lam isloop c \<Longrightarrow>
   (rt = None) = (l \<noteq> Bottom \<or> no_return c)"
proof (induction c arbitrary: old api rt c')
  case (NS_Let l2 b body)
  obtain bl y n e where b: "b = LBinding bl y n e" by (cases b)
  have ok: "vars_ok lam isloop e" "well_labelled lam isloop body" using NS_Let.prems(2) b by auto
  show ?case
  proof (cases "l2 = l")
    case True
    obtain inner ap c1 where "collect_stmt l inner body = Some (ap, rt, c1)"
      using collect_Let_own[OF NS_Let.prems(1)[unfolded b True] ok(1)] by blast
    from NS_Let.IH[OF this ok(2)] show ?thesis by simp
  next
    case False
    obtain c1 where "collect_stmt l old body = Some (api, rt, c1)"
      using collect_Let_other[OF NS_Let.prems(1)[unfolded b] False] by blast
    from NS_Let.IH[OF this ok(2)] show ?thesis by simp
  qed
next
  case (NS_Assignment l2 v e)
  then show ?case by (cases "l2 = l") (auto simp: bind_Some_iff)
next
  case (NS_Return e)
  then show ?case by (cases "l = Bottom") (auto simp: bind_Some_iff nothing_def)
next
  case (NS_If l2 c t e)
  show ?case
  proof (cases "flows l2 l")
    case True
    obtain ta tr t1 ea er e1 where t1: "collect_stmt l old t = Some (ta, tr, t1)"
      and e1: "collect_stmt l old e = Some (ea, er, e1)" and j: "join_returns tr er = Some rt"
      using NS_If.prems(1) True by (simp add: bind_Some_iff split_paired_Ex) blast
    have "tr = None" "er = None" using NS_If.IH(1)[OF t1] NS_If.IH(2)[OF e1] NS_If.prems(2) by simp_all
    with j NS_If.prems(2) show ?thesis by (simp add: join_returns_def)
  next
    case False
    with NS_If.prems show ?thesis by (auto simp: bind_Some_iff nothing_def)
  qed
next
  case (NS_While l2 c body n)
  have ok: "well_labelled lam isloop body" "no_return body" using NS_While.prems(2) by simp_all
  show ?case
  proof (cases "l2 = l")
    case True
    obtain ba s1 where "collect_stmt l old body = Some (ba, rt, s1)"
      using collect_While_own[OF NS_While.prems(1)[unfolded True]] by blast
    from NS_While.IH[OF this ok(1)] show ?thesis using ok(2) by simp
  next
    case other: False
    show ?thesis
    proof (cases "flows l2 l")
      case True
      obtain ba s1 where "collect_stmt l old body = Some (ba, rt, s1)"
        using collect_While_known[OF NS_While.prems(1) other True] by blast
      from NS_While.IH[OF this ok(1)] show ?thesis using ok(2) by simp
    next
      case False
      with NS_While.prems(1) other ok(2) show ?thesis by (auto simp: bind_Some_iff nothing_def)
    qed
  qed
next
  case (NS_Sequence l2 cs)
  obtain cs' where cs': "collect_stmts l old cs = Some (api, rt, cs')"
    using collect_Sequence[OF NS_Sequence.prems(1)] by blast
  have "(rt = None) = (l \<noteq> Bottom \<or> (\<forall>c \<in> set cs. no_return c))"
  proof (rule collect_stmts_returns[OF _ cs'])
    show "(rt = None) = (l \<noteq> Bottom \<or> no_return d)"
      if "d \<in> set cs" "collect_stmt l old d = Some (api, rt, c')" for d old api rt c'
      by (rule NS_Sequence.IH[OF that]) (use NS_Sequence.prems(2) that(1) in \<open>simp add: well_labelled_seq_iff\<close>)
  qed
  then show ?case by simp
qed simp_all

lemma src_returns:
  "src_stmt k c H = Some (ret, H') \<Longrightarrow> well_labelled lam isloop c \<Longrightarrow> (ret = None) = no_return c"
proof (induction c arbitrary: k H ret H')
  case (NS_Let l b body)
  then show ?case by (cases b) (auto simp: bind_Some_iff)
next
  case (NS_If l c t e)
  from NS_If.prems(1)[unfolded src_If_iff] NS_If.IH NS_If.prems(2) show ?case
    by (auto split: if_splits dest: no_return_result)
next
  case (NS_Sequence l cs)
  have "src_stmts k cs H = Some (ret, H') \<Longrightarrow> well_labelled_seq lam isloop cs \<Longrightarrow>
      (\<And>c k H ret H'. c \<in> set cs \<Longrightarrow> src_stmt k c H = Some (ret, H') \<Longrightarrow> (ret = None) = no_return c) \<Longrightarrow>
      (ret = None) = (\<forall>c \<in> set cs. no_return c)" for k H cs
  proof (induction cs arbitrary: H)
    case (Cons c cs)
    have c: "(ret = None) = no_return c" if "src_stmt k c H = Some (ret, H')" for k H ret H'
      by (rule Cons.prems(3)[OF _ that]) simp
    have cs: "(ret = None) = (\<forall>c \<in> set cs. no_return c)" if "src_stmts k cs H1 = Some (ret, H')" for H1
    proof (rule Cons.IH[OF that])
      show "(ret = None) = no_return d" if "d \<in> set cs" "src_stmt k d H = Some (ret, H')" for d k H ret H'
        by (rule Cons.prems(3)[OF _ that(2)]) (simp add: that(1))
    qed (use Cons.prems(2) in simp)
    from Cons.prems(1)[unfolded src_stmts_Cons_iff] show ?case
      using c cs by (elim disjE exE conjE) force+
  qed simp
  from this[of k cs H] NS_Sequence show ?case by (simp add: well_labelled_seq_iff)
qed (auto simp: bind_Some_iff)

section \<open>From phase to phase\<close>

text \<open>
  The store between phases, when those of the labels \<open>D\<close> are over: their variables have all the
  values the program gave them, the others have none.  \<open>V\<close> are the variables that keep only their last
  value.
\<close>

definition done_slot :: "(name \<Rightarrow> label) \<Rightarrow> (name \<Rightarrow> bool) \<Rightarrow> name set \<Rightarrow> label set \<Rightarrow> hist \<Rightarrow> name \<Rightarrow> holder \<Rightarrow> bool" where
  "done_slot lam isloop V D F x h \<longleftrightarrow>
     (if isloop x then \<exists>v. h = ValueHolder v \<and> (lam x \<in> D \<longrightarrow> F x \<noteq> [] \<longrightarrow> v = Some (last (F x)))
      else if x \<in> V then h = ValueHolder (if lam x \<in> D \<and> F x \<noteq> [] then Some (last (F x)) else None)
      else \<exists>th. h = TypeHolder th \<and> th_t th = (if lam x \<in> D then F x else []))"

definition done_store :: "(name \<Rightarrow> label) \<Rightarrow> (name \<Rightarrow> bool) \<Rightarrow> name set \<Rightarrow> name set \<Rightarrow> label set \<Rightarrow> hist \<Rightarrow> mstore \<Rightarrow> bool" where
  "done_store lam isloop V P D F s \<longleftrightarrow>
     (\<forall>x \<in> P. holders s x \<noteq> None \<and> done_slot lam isloop V D F x (the (holders s x)))"

lemma done_slot_begin_phase:
  "done_slot lam isloop V D F x h \<Longrightarrow> done_slot lam isloop V D F x (holder_begin_phase h)"
  by (cases h) (auto simp: done_slot_def th_reset_index_def split: if_splits)

lemma done_store_begin_phase:
  "done_store lam isloop V P D F s \<Longrightarrow> done_store lam isloop V P D F (begin_phase s)"
  unfolding done_store_def
proof
  fix x assume "\<forall>x \<in> P. holders s x \<noteq> None \<and> done_slot lam isloop V D F x (the (holders s x))" "x \<in> P"
  then show "holders (begin_phase s) x \<noteq> None \<and> done_slot lam isloop V D F x (the (holders (begin_phase s) x))"
    by (cases "holders s x") (auto simp: begin_phase_def done_slot_begin_phase)
qed

lemma begin_phase_pos: "holders (begin_phase s) x = Some (TypeHolder th) \<Longrightarrow> curr_pos th = - 1"
  by (auto simp: begin_phase_def th_reset_index_def elim!: holder_begin_phase.elims)

text \<open>How the labels of a program lie to the phase of \<open>l\<close>: those that flow to it are over.\<close>

definition labels_between :: "label set \<Rightarrow> label \<Rightarrow> (name \<Rightarrow> label) \<Rightarrow> hist \<Rightarrow> bool" where
  "labels_between D l lam F \<longleftrightarrow> l \<notin> D \<and> (\<forall>d \<in> D. flows d l) \<and>
     (\<forall>x. F x \<noteq> [] \<longrightarrow> flows (lam x) l \<longrightarrow> lam x = l \<or> lam x \<in> D)"

text \<open>The store that the simulation of a phase starts from, for a store between phases.\<close>

definition phase_start :: "(name \<Rightarrow> label) \<Rightarrow> (name \<Rightarrow> bool) \<Rightarrow> name set \<Rightarrow> label \<Rightarrow> hist \<Rightarrow> name set \<Rightarrow> mstore \<Rightarrow> mstore" where
  "phase_start lam isloop V l F A t = t\<lparr>holders := (\<lambda>x.
     if x \<in> A then holders t x
     else if isloop x then Some (ValueHolder (if F x = [] then None else Some (last (F x))))
     else if lam x = l \<and> x \<in> V then Some (ValueHolder None)
     else if lam x \<noteq> l \<and> flows (lam x) l then Some (TypeHolder \<lparr>th_t = F x, curr_pos = -1, th_bound = False\<rparr>)
     else Some (TypeHolder \<lparr>th_t = [], curr_pos = -1, th_bound = False\<rparr>))\<rparr>"

lemma phase_start_tracks:
  assumes don: "done_store lam isloop V P D F t" and btw: "labels_between D l lam F"
    and A: "A \<subseteq> P" "\<And>x. x \<in> A \<Longrightarrow> x \<in> V \<Longrightarrow> isloop x \<or> lam x = l"
    and pos: "\<And>x th. holders t x = Some (TypeHolder th) \<Longrightarrow> curr_pos th = -1"
  shows "tracks lam isloop V l F Map.empty (\<lambda>_. []) (phase_start lam isloop V l F A t)"
  unfolding tracks_def
proof
  fix x
  let ?s = "phase_start lam isloop V l F A t"
  show "holders ?s x \<noteq> None \<and> slot lam isloop V l F Map.empty (\<lambda>_. []) x (the (holders ?s x))"
  proof (cases "x \<in> A")
    case True
    then obtain h where h: "holders t x = Some h" "done_slot lam isloop V D F x h"
      using don A(1) by (force simp: done_store_def)
    have D: "lam x \<in> D \<Longrightarrow> flows (lam x) l \<and> lam x \<noteq> l" using btw by (auto simp: labels_between_def)
    have F: "F x \<noteq> [] \<Longrightarrow> flows (lam x) l \<Longrightarrow> lam x \<noteq> l \<Longrightarrow> lam x \<in> D" using btw by (auto simp: labels_between_def)
    have "slot lam isloop V l F Map.empty (\<lambda>_. []) x h"
    proof (cases "isloop x")
      case True
      with h(2) F show ?thesis by (auto simp: done_slot_def slot_def loop_holder_def)
    next
      case loop: False
      show ?thesis
      proof (cases "x \<in> V")
        case True
        then have "lam x = l" using A(2)[OF \<open>x \<in> A\<close>] loop by simp
        with h(2) loop True D show ?thesis by (auto simp: done_slot_def slot_def var_holder_def)
      next
        case False
        then obtain th where th: "h = TypeHolder th" "th_t th = (if lam x \<in> D then F x else [])"
          using h(2) loop by (auto simp: done_slot_def)
        moreover have "curr_pos th = -1" using pos h(1) th(1) by simp
        ultimately show ?thesis using loop False D F
          by (cases "F x = []") (auto simp: slot_def var_holder_def at_def)
      qed
    qed
    with True h(1) show ?thesis by (simp add: phase_start_def)
  next
    case False
    then show ?thesis
      by (auto simp: phase_start_def slot_def loop_holder_def var_holder_def at_def)
  qed
qed

lemma phase_start_agree:
  assumes "done_store lam isloop V P D F t" "A \<subseteq> P"
  shows "agree A (phase_start lam isloop V l F A t) t"
  unfolding agree_def
proof
  fix x assume x: "x \<in> A"
  then obtain h where h: "holders t x = Some h" "done_slot lam isloop V D F x h"
    using assms by (force simp: done_store_def)
  with x show "holders t x = holders (phase_start lam isloop V l F A t) x \<and>
      (\<forall>y hs p. holders (phase_start lam isloop V l F A t) x \<noteq> Some (RemoteHolder y hs p))"
    by (auto simp: phase_start_def done_slot_def split: if_splits)
qed

lemma done_store_next:
  assumes don: "done_store lam isloop V P D F t" and btw: "labels_between D l lam F"
    and own: "\<And>x. lam x = l \<Longrightarrow> F x \<noteq> [] \<Longrightarrow> x \<in> A"
    and A: "\<And>x. x \<in> A \<Longrightarrow> x \<in> V \<Longrightarrow> isloop x \<or> lam x = l"
    and tr: "tracks lam isloop V l F Map.empty F s'" and ag: "agree A s' t'" and out: "same_outside A t t'"
  shows "done_store lam isloop V P (insert l D) F t'"
  unfolding done_store_def
proof
  fix x assume x: "x \<in> P"
  have D: "lam x \<in> D \<Longrightarrow> flows (lam x) l \<and> lam x \<noteq> l" using btw by (auto simp: labels_between_def)
  have F: "F x \<noteq> [] \<Longrightarrow> flows (lam x) l \<Longrightarrow> lam x \<noteq> l \<Longrightarrow> lam x \<in> D" using btw by (auto simp: labels_between_def)
  show "holders t' x \<noteq> None \<and> done_slot lam isloop V (insert l D) F x (the (holders t' x))"
  proof (cases "x \<in> A")
    case True
    obtain h where h: "holders s' x = Some h" "slot lam isloop V l F Map.empty F x h"
      using tracks_slot[OF tr] .
    have "holders t' x = Some h" using ag True h(1) by (simp add: agree_def)
    moreover have "done_slot lam isloop V (insert l D) F x h"
    proof (cases "isloop x")
      case True
      with h(2) D show ?thesis by (auto simp: done_slot_def slot_def loop_holder_def)
    next
      case loop: False
      show ?thesis
      proof (cases "x \<in> V")
        case True
        then have "lam x = l" using A[OF \<open>x \<in> A\<close>] loop by simp
        with h(2) loop True show ?thesis by (simp add: done_slot_def slot_def var_holder_def)
      next
        case False
        with h(2) loop D F show ?thesis
          by (cases "F x = []") (auto simp: done_slot_def slot_def var_holder_def at_def split: if_splits)
      qed
    qed
    ultimately show ?thesis by simp
  next
    case False
    then have "holders t' x = holders t x" using out by (simp add: same_outside_def)
    moreover have "lam x = l \<Longrightarrow> F x = []" using own False by blast
    ultimately show ?thesis using don x by (auto simp: done_store_def done_slot_def split: if_splits)
  qed
qed

section \<open>The whole transaction\<close>

lemma attempt_of_phase:
  assumes ext: "extract_phase a inh l = Some (p, nxt)" and ok: "well_labelled lam isloop a"
    and steady: "steady isloop F" and src: "src_stmt k a (\<lambda>_. []) = Some (ret, F)" and k: "k \<le> k'"
    and q: "phase_ast q = ast p" "phase_returns q = returns p"
    and don: "done_store lam isloop V P D F t" and btw: "labels_between D l lam F"
    and P: "bnames (pre_requires p) \<union> written a \<subseteq> P" and V: "\<And>x. x \<in> bnames (pre_requires p) \<Longrightarrow> x \<in> V \<Longrightarrow> isloop x"
    and commit: "store_commit r \<noteq> None"
  shows "\<exists>t'. common_interp k' ops store_commit q t (r # rs) = Some (phase_result l ret, t') \<and>
    done_store lam isloop V P (insert l D) F t'"
proof -
  let ?own = "own_names lam (written a) l" and ?t = "begin_phase t"
  let ?A = "bnames (pre_requires p) \<union> ?own"
  let ?s = "phase_start lam isloop V l F ?A ?t"
  have don1: "done_store lam isloop V P D F ?t" by (rule done_store_begin_phase[OF don])
  have AP: "?A \<subseteq> P" using P by (auto simp: own_names_def)
  have AV: "isloop x \<or> lam x = l" if "x \<in> ?A" "x \<in> V" for x
    using that V by (auto simp: own_names_def)
  have tr: "tracks lam isloop V l F Map.empty (\<lambda>_. []) ?s"
    by (rule phase_start_tracks[OF don1 btw AP AV begin_phase_pos])
  obtain s' t' where run: "run_stmt k' ops (ast p) (?t, r) = Some (phase_result l ret, (t', r))"
    and fin: "tracks lam isloop V l F Map.empty F s'" "agree ?A s' t'" "same_outside ?A ?t t'"
    using extracted_phase_runs[OF ext ok steady src k refl refl tr phase_start_agree[OF don1 AP], of ops r]
    by (elim exE conjE) (rule that)
  have "x \<in> ?A" if "lam x = l" "F x \<noteq> []" for x
    using src_stmt_frame[OF src, of x] that by (auto simp: own_names_def)
  from done_store_next[OF don1 btw this AV fin] have don2: "done_store lam isloop V P (insert l D) F t'" .
  have "(returns p = None) = (phase_result l ret = None)"
  proof -
    obtain api rt c where "collect_stmt l \<lparr>requires = [], provides = [], inherits = inh\<rparr> a = Some (api, rt, c)" "returns p = rt"
      by (rule extract_phase_parts[OF ext])
    with collect_returns[OF _ ok] src_returns[OF src ok] show ?thesis by (auto simp: phase_result_def)
  qed
  then have "common_interp_loop k' ops store_commit q t r = Some (phase_result l ret, t')"
    using run q commit by (auto simp: common_interp_loop_def run_phase1_def)
  with don2 show ?thesis by simp
qed

lemma split_phases_length: "split_phases a inh ls = Some ps \<Longrightarrow> length ps = length ls"
  by (induction ls arbitrary: inh ps) (auto simp: bind_Some_iff)

lemma run_transaction_Cons:
  assumes "common_interp k ops store_commit q t rs = Some (res, t1)" "qs \<noteq> []"
  shows "run_transaction k ops store_commit (q # qs) (rs # rss) t = run_transaction k ops store_commit qs rss t1"
  using assms by (cases qs) simp_all

lemma processed_Cons:
  "\<exists>q. processed (p # ps) = q # processed ps \<and> phase_ast q = ast p \<and> phase_returns q = returns p \<and>
    bnames (pre_requires p) \<subseteq> bnames (requirements q) \<union> bnames (phase_provides q)"
  by (auto simp: Let_def bnames_def)

text \<open>The names that a phase takes from or gives to others.\<close>

definition needed :: "phase list \<Rightarrow> name set" where
  "needed qs = (\<Union>q \<in> set qs. bnames (requirements q) \<union> bnames (phase_provides q))"

lemma split_phases_run:
  assumes ok: "well_labelled lam isloop a" and steady: "steady isloop F"
    and src: "src_stmt k a (\<lambda>_. []) = Some (ret, F)" and k: "k \<le> k'"
  shows "split_phases a inh ls = Some ps \<Longrightarrow> ls \<noteq> [] \<Longrightarrow> distinct (ds @ ls) \<Longrightarrow> sorted_wrt flows (ds @ ls) \<Longrightarrow>
    (\<And>x. F x \<noteq> [] \<Longrightarrow> lam x \<in> set (ds @ ls)) \<Longrightarrow> done_store lam isloop V P (set ds) F t \<Longrightarrow>
    needed (processed ps) \<union> written a \<subseteq> P \<Longrightarrow> (\<And>x. x \<in> needed (processed ps) \<Longrightarrow> x \<in> V \<Longrightarrow> isloop x) \<Longrightarrow>
    length rss = length ls \<Longrightarrow> (\<And>rs. rs \<in> set rss \<Longrightarrow> rs \<noteq> [] \<and> store_commit (hd rs) \<noteq> None) \<Longrightarrow>
    \<exists>t'. run_transaction k' ops store_commit (processed ps) rss t = Some (phase_result (last ls) ret, t') \<and>
      done_store lam isloop V P (set (ds @ ls)) F t'"
proof (induction ls arbitrary: inh ps ds t rss)
  case (Cons l ls)
  obtain p nxt qs where p: "extract_phase a inh l = Some (p, nxt)" and qs: "split_phases a nxt ls = Some qs"
    and ps: "ps = p # qs"
    using Cons.prems(1) by (auto simp: bind_Some_iff)
  obtain q where q: "processed ps = q # processed qs" "phase_ast q = ast p" "phase_returns q = returns p"
    and need: "bnames (pre_requires p) \<subseteq> bnames (requirements q) \<union> bnames (phase_provides q)"
    using processed_Cons[of p qs] ps by blast
  obtain rs0 rss' where rss0: "rss = rs0 # rss'" using Cons.prems(9) by (cases rss) auto
  then have rs0: "rs0 \<noteq> [] \<and> store_commit (hd rs0) \<noteq> None" using Cons.prems(10)[of rs0] by simp
  then obtain r rs where r: "rs0 = r # rs" by (cases rs0) auto
  have rss: "rss = (r # rs) # rss'" and commit: "store_commit r \<noteq> None" using rss0 rs0 r by simp_all
  have btw: "labels_between (set ds) l lam F"
    unfolding labels_between_def
  proof (intro conjI allI impI)
    show "l \<notin> set ds" using Cons.prems(3) by auto
    show "\<forall>d \<in> set ds. flows d l" using Cons.prems(4) by (simp add: sorted_wrt_append)
    fix x assume "F x \<noteq> []" "flows (lam x) l"
    with Cons.prems(5)[of x] Cons.prems(4) label_flows_antisym show "lam x = l \<or> lam x \<in> set ds"
      by (auto simp: sorted_wrt_append)
  qed
  have nq: "bnames (pre_requires p) \<subseteq> needed (processed ps)" using need q(1) by (auto simp: needed_def)
  obtain t1 where t1: "common_interp k' ops store_commit q t (r # rs) = Some (phase_result l ret, t1)"
    and don: "done_store lam isloop V P (insert l (set ds)) F t1"
  proof -
    have P: "bnames (pre_requires p) \<union> written a \<subseteq> P" using Cons.prems(7) nq by blast
    have V: "isloop x" if "x \<in> bnames (pre_requires p)" "x \<in> V" for x
      using Cons.prems(8) nq that by blast
    show ?thesis
      using attempt_of_phase[OF p ok steady src k q(2,3) Cons.prems(6) btw P V, where store_commit = store_commit and r = r and ops = ops and rs = rs] commit that
      by blast
  qed
  show ?case
  proof (cases "ls = []")
    case True
    then have "qs = []" "rss' = []" using qs Cons.prems(9) rss by simp_all
    with t1 don q(1) rss True show ?thesis by simp
  next
    case False
    have n: "needed (processed qs) \<subseteq> needed (processed ps)" using q(1) by (auto simp: needed_def)
    have "\<exists>t'. run_transaction k' ops store_commit (processed qs) rss' t1 = Some (phase_result (last ls) ret, t') \<and>
      done_store lam isloop V P (set ((ds @ [l]) @ ls)) F t'"
    proof (rule Cons.IH[OF qs False])
      show "distinct ((ds @ [l]) @ ls)" "sorted_wrt flows ((ds @ [l]) @ ls)" using Cons.prems(3,4) by simp_all
      show "\<And>x. F x \<noteq> [] \<Longrightarrow> lam x \<in> set ((ds @ [l]) @ ls)" using Cons.prems(5) by simp
      show "done_store lam isloop V P (set (ds @ [l])) F t1" using don by simp
      show "needed (processed qs) \<union> written a \<subseteq> P" using n Cons.prems(7) by blast
      show "\<And>x. x \<in> needed (processed qs) \<Longrightarrow> x \<in> V \<Longrightarrow> isloop x" using n Cons.prems(8) by blast
      show "length rss' = length ls" using Cons.prems(9) rss by simp
      show "\<And>rs. rs \<in> set rss' \<Longrightarrow> rs \<noteq> [] \<and> store_commit (hd rs) \<noteq> None" using Cons.prems(10) rss by simp
    qed
    moreover have "processed qs \<noteq> []"
      using split_phases_length[OF qs] False by (cases qs) (auto simp: Let_def)
    ultimately show ?thesis
      using run_transaction_Cons[OF t1] q(1) rss False by simp
  qed
qed simp

lemma no_return_Bottom: "\<not> no_return c \<Longrightarrow> Bottom \<in> stmt_labels c"
  by (induction c) auto

text \<open>The labels of the phases fit the program.\<close>

definition sound_labels :: "(name \<Rightarrow> label) \<Rightarrow> (name \<Rightarrow> bool) \<Rightarrow> nstmt \<Rightarrow> label list \<Rightarrow> bool" where
  "sound_labels lam isloop a ls \<longleftrightarrow> well_labelled lam isloop a \<and> ls \<noteq> [] \<and> distinct ls \<and> sorted_wrt flows ls \<and>
     stmt_labels a \<subseteq> set ls"

text \<open>A store in which no variable has a value yet; those in \<open>V\<close> will keep only the last one.\<close>

definition fresh_store :: "(name \<Rightarrow> bool) \<Rightarrow> name set \<Rightarrow> name set \<Rightarrow> mstore \<Rightarrow> bool" where
  "fresh_store isloop V P s \<longleftrightarrow>
     (\<forall>x \<in> P. holders s x = Some (if isloop x \<or> x \<in> V then ValueHolder None else TypeHolder new_type_holder))"

text \<open>What the store has of a variable after the transaction: all its values, or the last.\<close>

definition stored :: "mstore \<Rightarrow> name \<Rightarrow> mvalue list option" where
  "stored s x = (case holders s x of
     Some (TypeHolder th) \<Rightarrow> Some (th_t th)
   | Some (ValueHolder v) \<Rightarrow> Some (case v of None \<Rightarrow> [] | Some w \<Rightarrow> [w])
   | _ \<Rightarrow> None)"

definition last_only :: "mvalue list \<Rightarrow> mvalue list" where
  "last_only vs = (if vs = [] then [] else [last vs])"

lemma split_transaction_runs:
  assumes split: "split_computation srt c bs = Some qs" and easy: "easy_processing_pass c = Some a"
    and labels: "sound_labels lam isloop a (rev (collect_proper_labels srt c))"
    and src: "src_stmt k a (\<lambda>_. []) = Some (ret, F)" and steady: "steady isloop F" and k: "k \<le> k'"
    and fresh: "fresh_store isloop V (needed qs \<union> written a) s" and V: "\<forall>x \<in> needed qs \<inter> V. isloop x"
    and commits: "list_all2 (\<lambda>rs q. rs \<noteq> [] \<and> store_commit (hd rs) \<noteq> None) rss qs"
  shows "\<exists>t. run_transaction k' ops store_commit qs rss s = Some (ret, t) \<and>
    (\<forall>x \<in> written a. \<not> isloop x \<longrightarrow> stored t x = Some (if x \<in> V then last_only (F x) else F x))"
proof -
  let ?ls = "rev (collect_proper_labels srt c)" and ?P = "needed qs \<union> written a"
  obtain ps where ps: "split_phases a bs ?ls = Some ps" and qs: "qs = processed ps"
    using split easy by (auto simp: split_computation_def bind_Some_iff)
  have ok: "well_labelled lam isloop a" and ls: "?ls \<noteq> []" "distinct ?ls" "sorted_wrt flows ?ls" "stmt_labels a \<subseteq> set ?ls"
    using labels by (simp_all add: sound_labels_def)
  have "length (processed ps) = length ps" by (induction ps) (simp_all add: Let_def)
  then have len: "length rss = length ?ls"
    using split_phases_length[OF ps] list_all2_lengthD[OF commits] qs by simp
  have lamF: "lam x \<in> set ?ls" if "F x \<noteq> []" for x
    using src_stmt_unlabelled[OF src ok, of x] that ls(4) by auto
  have don: "done_store lam isloop V ?P (set []) F s"
    using fresh by (auto simp: fresh_store_def done_store_def done_slot_def new_type_holder_def)
  have "\<exists>t. run_transaction k' ops store_commit (processed ps) rss s = Some (phase_result (last ?ls) ret, t) \<and>
      done_store lam isloop V ?P (set ([] @ ?ls)) F t"
  proof (rule split_phases_run[OF ok steady src k ps ls(1) _ _ _ don _ _ len])
    show "rs \<noteq> [] \<and> store_commit (hd rs) \<noteq> None" if "rs \<in> set rss" for rs
      using commits that by (auto simp: list_all2_conv_all_nth in_set_conv_nth)
  qed (use ls(2,3) lamF V qs in auto)
  then obtain t where t: "run_transaction k' ops store_commit qs rss s = Some (phase_result (last ?ls) ret, t)"
    and fin: "done_store lam isloop V ?P (set ?ls) F t" using qs by auto
  have "phase_result (last ?ls) ret = ret"
  proof (cases "no_return a")
    case True
    then show ?thesis using src_returns[OF src ok] by simp
  next
    case False
    then have B: "Bottom \<in> set ?ls" using no_return_Bottom ls(4) by blast
    have "last ?ls = Bottom"
    proof (rule ccontr)
      assume n: "last ?ls \<noteq> Bottom"
      have "?ls = butlast ?ls @ [last ?ls]" using append_butlast_last_id[OF ls(1)] by (rule sym)
      then obtain xs where xs: "?ls = xs @ [last ?ls]" by blast
      have "Bottom \<in> set xs" using B n by (subst (asm) xs) simp
      moreover have "\<forall>x \<in> set xs. flows x (last ?ls)"
        using ls(3) by (subst (asm) xs) (simp add: sorted_wrt_append)
      ultimately have "flows Bottom (last ?ls)" by blast
      then show False using n by (simp add: flows_to_defs)
    qed
    then show ?thesis by (simp add: phase_result_def)
  qed
  moreover have "stored t x = Some (if x \<in> V then last_only (F x) else F x)" if "x \<in> written a" "\<not> isloop x" for x
  proof -
    have "holders t x \<noteq> None \<and> done_slot lam isloop V (set ?ls) F x (the (holders t x))"
      using fin that(1) unfolding done_store_def by blast
    then obtain h where "holders t x = Some h" "done_slot lam isloop V (set ?ls) F x h" by auto
    with that(2) lamF[of x] show ?thesis
      by (cases "F x = []") (auto simp: stored_def done_slot_def last_only_def split: if_splits)
  qed
  ultimately show ?thesis using t by auto
qed

text \<open>C5: splitting preserves the meaning of programs.  Let the labels of a program over local
  variables fit (one label per variable, loop and branch labels that flow to what they guard, the
  phases in descending order), and let the run of the unsplit program end with result \<open>ret\<close> and
  histories \<open>F\<close>, in which a loop that runs several times always has the same number of iterations.
  Then the phases that \<open>split_computation\<close> makes of it, with unused steps and empty conditionals
  removed, run one after another on a fresh store, return \<open>ret\<close>, and leave for every variable
  exactly the values of \<open>F\<close> (the last of them where the store keeps one), whatever the data stores
  do, as long as the first commit of each phase succeeds.\<close>

theorem transaction_replays:
  assumes "split_computation srt c bs = Some qs" and "easy_processing_pass c = Some a"
    and "sound_labels lam isloop a (rev (collect_proper_labels srt c))"
    and "src_stmt k a (\<lambda>_. []) = Some (ret, F)" and "steady isloop F" and "k \<le> k'"
    and "fresh_store isloop V (needed qs \<union> written a) s" and "\<forall>x \<in> needed qs \<inter> V. isloop x"
    and "list_all2 (\<lambda>rs q. rs \<noteq> [] \<and> store_commit (hd rs) \<noteq> None) rss qs"
  shows "\<exists>t. run_transaction k' ops store_commit qs rss s = Some (ret, t) \<and>
    (\<forall>x \<in> written a. \<not> isloop x \<longrightarrow> stored t x = Some (if x \<in> V then last_only (F x) else F x))"
  using assms by (rule split_transaction_runs)

end
