(* ===== verification/SplitTermination.thy ===== *)
theory SplitTermination
  imports SplitCorrect
begin

text \<open>
  A phase ends unless a loop of its own label does not: the interpreter of \<open>Runtime\<close> needs no fuel for
  the loops that a phase only replays.
\<close>

section \<open>Replaying ends\<close>

text \<open>Only loops of the phase's own label have a condition; the others have their count.\<close>

fun no_while :: "sstmt \<Rightarrow> bool" where
  "no_while (SS_Let b s) = no_while s"
| "no_while (SS_LetRemote b s) = no_while s"
| "no_while (SS_If c t e) = (no_while t \<and> no_while e)"
| "no_while (SS_While c t n) = False"
| "no_while (SS_ForEach t n) = no_while t"
| "no_while (SS_Sequence ss) = (\<forall>s \<in> set ss. no_while s)"
| "no_while _ = True"

fun loop_labels :: "nstmt \<Rightarrow> label set" where
  "loop_labels (NS_Let l b s) = loop_labels s"
| "loop_labels (NS_LetRemote l b s) = loop_labels s"
| "loop_labels (NS_If l c t e) = loop_labels t \<union> loop_labels e"
| "loop_labels (NS_While l c s n) = insert l (loop_labels s)"
| "loop_labels (NS_Sequence l ss) = (\<Union>s \<in> set ss. loop_labels s)"
| "loop_labels _ = {}"

lemma run_no_while: "no_while c \<Longrightarrow> run_stmt k ops c st = run_stmt 0 ops c st"
proof (induction c arbitrary: st)
  case (SS_Let b c)
  then have "run_stmt k ops c = run_stmt 0 ops c" by (intro ext) simp
  then show ?case by (simp only: run_stmt.simps)
next
  case (SS_LetRemote b c)
  then have "run_stmt k ops c = run_stmt 0 ops c" by (intro ext) simp
  then show ?case by (simp only: run_stmt.simps)
next
  case (SS_If e c d)
  then have "\<And>st. run_stmt k ops c st = run_stmt 0 ops c st" "\<And>st. run_stmt k ops d st = run_stmt 0 ops d st"
    by simp_all
  then show ?case by (simp only: run_stmt.simps)
next
  case (SS_ForEach c n)
  have "run_for_each k ops c j st = run_for_each 0 ops c j st" for j st
  proof (induction j arbitrary: st)
    case (Suc j)
    have "\<And>st. run_stmt k ops c st = run_stmt 0 ops c st" using SS_ForEach by simp
    with Suc.IH show ?case by (simp only: run_for_each.simps)
  qed simp
  then show ?case by (simp only: run_stmt.simps)
next
  case (SS_Sequence cs)
  have "run_stmts k ops ds st = run_stmts 0 ops ds st" if "set ds \<subseteq> set cs" for ds st
    using that
  proof (induction ds arbitrary: st)
    case (Cons d ds)
    then have "\<And>st. run_stmt k ops d st = run_stmt 0 ops d st" "\<And>st. run_stmts k ops ds st = run_stmts 0 ops ds st"
      using SS_Sequence by auto
    then show ?case by (simp only: run_stmts.simps)
  qed simp
  then show ?case by simp
qed (simp_all cong: sexpr.case_cong)

lemma collapse_no_while: "\<forall>s \<in> set ss. no_while s \<Longrightarrow> no_while (collapse ss)"
  unfolding collapse_def no_while.simps by (rule collapse_all(2)[of no_while]) simp_all

lemma remove_unused_no_while: "no_while s \<Longrightarrow> no_while (remove_unused ts s)"
  by (induction s) simp_all

lemma clear_no_while: "no_while s \<Longrightarrow> no_while (cl_ast (clear_empty_statements s))"
  by (induction s rule: clear_empty_statements.induct)
    (auto simp: Let_def cleared_leaf_def intro!: collapse_no_while)

lemma refresh_no_while: "refresh h = Some c \<Longrightarrow> no_while c"
  by (induction h rule: refresh.induct) auto

lemma let_ast_no_while: "let_ast_if_operation l old basic e = Some c \<Longrightarrow> no_while basic \<Longrightarrow> no_while c"
  by (cases e) (auto simp: bind_Some_iff dest: refresh_no_while)

lemma collect_no_while:
  "collect_stmt l old c = Some (api, rt, c') \<Longrightarrow> l \<notin> loop_labels c \<Longrightarrow> no_while c'"
proof (induction c arbitrary: old api rt c')
  case (NS_Let l2 b body)
  show ?case
  proof (cases "l2 = l")
    case True
    with NS_Let.prems(1) obtain b' inner ap r1 c1 where c1: "collect_stmt l inner body = Some (ap, r1, c1)"
      and "(case b of LBinding bl y v e \<Rightarrow> let_ast_if_operation l old (SS_Let b' c1) e) = Some c'"
      by (simp add: bind_Some_iff split_paired_Ex) blast
    moreover have "no_while c1" using NS_Let.IH[OF c1] NS_Let.prems(2) by simp
    ultimately show ?thesis by (cases b) (auto intro: let_ast_no_while)
  next
    case False
    with NS_Let.prems(1) obtain c1 v where c1: "collect_stmt l old body = Some (api, rt, c1)"
      and "c' = SS_Sequence [SS_IncrementOccurance v, c1]"
      by (cases b) (simp add: bind_Some_iff split_paired_Ex, blast)
    with NS_Let.IH[OF c1] NS_Let.prems(2) show ?thesis by simp
  qed
next
  case (NS_LetRemote l2 b body)
  show ?case
  proof (cases "l2 = l")
    case True
    with NS_LetRemote.prems(1) obtain b' inner ap r1 c1 where c1: "collect_stmt l inner body = Some (ap, r1, c1)"
      and "c' = SS_LetRemote b' c1"
      by (simp add: bind_Some_iff split_paired_Ex) blast
    with NS_LetRemote.IH[OF c1] NS_LetRemote.prems(2) show ?thesis by simp
  next
    case False
    with NS_LetRemote.prems(1) obtain ap r1 c1 where c1: "collect_stmt l old body = Some (ap, r1, c1)"
      and "\<exists>v. c' = SS_Sequence [SS_IncrementRemoteOccurance v, c1] \<or> c' = c1"
      by (cases b; cases "expr_yield (case b of LBinding l y v e \<Rightarrow> e)")
         (auto simp: bind_Some_iff split_paired_Ex split: if_splits)
    with NS_LetRemote.IH[OF c1] NS_LetRemote.prems(2) show ?thesis by auto
  qed
next
  case (NS_Sequence l2 cs)
  have "no_while c'" if "collect_stmts l old ds = Some (a, r, cs')" "set ds \<subseteq> set cs" "c' \<in> set cs'" for ds a r cs' c'
    using that
  proof (induction ds arbitrary: a r cs')
    case (Cons d ds)
    from Cons.prems(1) obtain a1 r1 d' a2 r2 ds' where d: "collect_stmt l old d = Some (a1, r1, d')"
      "collect_stmts l old ds = Some (a2, r2, ds')" "cs' = d' # ds'"
      by (simp add: bind_Some_iff split_paired_Ex) blast
    have "no_while d'" by (rule NS_Sequence.IH[OF _ d(1)]) (use Cons.prems(2) NS_Sequence.prems(2) in auto)
    with Cons.IH[OF d(2)] Cons.prems(2,3) d(3) show ?case by auto
  qed simp
  with collect_Sequence[OF NS_Sequence.prems(1)] show ?case by (auto intro: collapse_no_while)
next
  case (NS_If l2 c t e)
  show ?case
  proof (cases "flows l2 l")
    case True
    obtain ca c1 ta tr t1 ea er e1 where t1: "collect_stmt l old t = Some (ta, tr, t1)"
      and e1: "collect_stmt l old e = Some (ea, er, e1)" and c': "c' = SS_If c1 t1 e1"
      using collect_If_known[OF NS_If.prems(1) True] by blast
    with NS_If.IH(1)[OF t1] NS_If.IH(2)[OF e1] NS_If.prems(2) show ?thesis by simp
  next
    case False
    with collect_If_unknown[OF NS_If.prems(1)] show ?thesis by simp
  qed
next
  case (NS_While l2 c body n)
  then have l2: "l2 \<noteq> l" by auto
  show ?case
  proof (cases "flows l2 l")
    case True
    obtain ba s1 where s1: "collect_stmt l old body = Some (ba, rt, s1)" "c' = SS_ForEach s1 n"
      using collect_While_known[OF NS_While.prems(1) l2 True] by blast
    with NS_While.IH[OF s1(1)] NS_While.prems(2) show ?thesis by simp
  next
    case False
    with collect_While_unknown[OF NS_While.prems(1) l2] show ?thesis by simp
  qed
qed (auto simp: bind_Some_iff nothing_def split: if_splits dest: refresh_no_while)

text \<open>C17: a phase can only fail to end in a loop of its own label.  If no loop of the program has the
  label of a phase, the fuel of the interpreter plays no role in the phase: it runs with none, in
  any store and with any data stores, because the loops of other labels are replayed with the counts
  that their own phases found.\<close>

theorem replay_terminates:
  assumes "extract_phase a inh l = Some (p, nxt)" "l \<notin> loop_labels a"
  shows "run_stmt k ops (ast p) st = run_stmt 0 ops (ast p) st"
proof (rule run_no_while)
  obtain api rt c s1 gone where c: "collect_stmt l \<lparr>requires = [], provides = [], inherits = inh\<rparr> a = Some (api, rt, c)"
    and s1: "s1 = remove_unused (requires api) c"
    and ast: "ast p = remove_unused (pre_requires p) (cl_ast (clear_empty_statements s1))"
    by (rule extract_phase_parts[OF assms(1)])
  have "no_while c" by (rule collect_no_while[OF c assms(2)])
  then show "no_while (ast p)"
    unfolding ast s1 by (intro remove_unused_no_while clear_no_while)
qed

text \<open>A strong loop that never ends: the causal phase replays the count that it is given.\<close>

definition endless_loop :: nstmt where
  "endless_loop = NS_While Strong (LE_VarReference Top Y_bool ''true'') (NS_Sequence Strong []) ''n''"

theorem replay_terminates_witness:
  "let p = fst (the (extract_phase endless_loop [WhileBinding ''n''] Causal));
       st = (\<lparr>holders = [''n'' \<mapsto> ValueHolder (Some (V_size 3))], remote_maps = \<lambda>_. None\<rparr>, ())
   in ast p = SS_ForEach (SS_Sequence []) ''n'' \<and> run_stmt 7 no_store (ast p) st = Some (None, st)"
proof -
  let ?e = "the (extract_phase endless_loop [WhileBinding ''n''] Causal)"
  have e: "extract_phase endless_loop [WhileBinding ''n''] Causal = Some (fst ?e, snd ?e)" by code_simp
  have a: "ast (fst ?e) = SS_ForEach (SS_Sequence []) ''n''" by code_simp
  have "Causal \<notin> loop_labels endless_loop" by (simp add: endless_loop_def)
  from replay_terminates[OF e this, of 7 no_store] a show ?thesis
    by (simp add: store_get_def numeral_3_eq_3 Let_def)
qed

end
