(* ===== verification/SplitExamples.thy ===== *)
theory SplitExamples
  imports SplitCorrect LabelInference
begin

text \<open>
  Splitting on concrete programs: a program with a loop for which the theorem of \<open>SplitCorrect\<close> applies,
  and programs that show where its hypotheses are needed.  The counter of a loop is one value, so a
  loop that runs several times is replayed with the count of its last run, and two loops can get the
  same counter.
\<close>

section \<open>A sum\<close>

text \<open>Flattened statements: an assignment takes its value from a variable.\<close>

abbreviation int_var :: "label \<Rightarrow> name \<Rightarrow> lexpr" where
  "int_var l n \<equiv> LE_VarReference l Y_int n"

definition assign_sum :: "label \<Rightarrow> name \<Rightarrow> name \<Rightarrow> label \<Rightarrow> name \<Rightarrow> lstmt" where
  "assign_sum l tmp x m y = LS_Let l (LBinding l Y_int tmp (LE_BinOp l Y_int CHR ''+'' (int_var l x) (int_var m y)))
     (LS_Assignment l (int_var l x) (int_var l tmp))"

definition compare :: "name \<Rightarrow> name \<Rightarrow> lexpr" where
  "compare x y = LE_BinOp Strong Y_bool CHR ''<'' (int_var Strong x) (int_var Strong y)"

definition assign_compare :: "name \<Rightarrow> name \<Rightarrow> name \<Rightarrow> name \<Rightarrow> lstmt" where
  "assign_compare tmp c x y = LS_Let Strong (LBinding Strong Y_bool tmp (compare x y))
     (LS_Assignment Strong (LE_VarReference Strong Y_bool c) (LE_VarReference Strong Y_bool tmp))"

definition strong_int :: "name \<Rightarrow> int \<Rightarrow> lstmt \<Rightarrow> lstmt" where
  "strong_int n i body = LS_Let Strong (LBinding Strong Y_int n (LE_Constant i)) body"

text \<open>\<open>x = 0; s = 0; while (x < 2) \{ x = x + 1; s = s + x \}; return s\<close>, with \<open>x\<close> strong and \<open>s\<close> causal.\<close>

definition sum_program :: lstmt where
  "sum_program =
     strong_int ''one'' 1 (strong_int ''two'' 2 (strong_int ''x'' 0
      (LS_Let Causal (LBinding Causal Y_int ''s'' (LE_Constant 0))
       (LS_Let Strong (LBinding Strong Y_bool ''c'' (compare ''x'' ''two''))
        (LS_Sequence Bottom
          [LS_While Strong (LE_VarReference Strong Y_bool ''c'')
             (LS_Sequence Causal
               [assign_sum Strong ''anorm_t'' ''x'' Strong ''one'',
                assign_sum Causal ''anorm_u'' ''s'' Strong ''x'',
                assign_compare ''anorm_d'' ''c'' ''x'' ''two'']),
           LS_Return (int_var Causal ''s'')])))))"

definition sum_nstmt :: nstmt where
  "sum_nstmt = the (easy_processing_pass sum_program)"

definition sum_phases :: "phase list" where
  "sum_phases = the (split_computation label_sort sum_program [])"

definition sum_label :: "name \<Rightarrow> label" where
  "sum_label n = (if n \<in> {''s'', ''anorm_u''} then Causal else Strong)"

definition loop_name :: "name \<Rightarrow> bool" where
  "loop_name n \<longleftrightarrow> (case n of c # _ \<Rightarrow> c = CHR 0x01 | [] \<Rightarrow> False)"

lemma sum_nstmt_eq: "sum_nstmt =
    NS_Let Strong (LBinding Strong Y_int ''one'' (LE_Constant 1))
  (NS_Let Strong (LBinding Strong Y_int ''two'' (LE_Constant 2))
    (NS_Let Strong (LBinding Strong Y_int ''x'' (LE_Constant 0))
      (NS_Let Causal (LBinding Causal Y_int ''s'' (LE_Constant 0))
        (NS_Let Strong
          (LBinding Strong Y_bool ''c''
            (LE_BinOp Strong Y_bool CHR ''<'' (int_var Strong ''x'')
              (int_var Strong ''two'')))
          (NS_Sequence Bottom
            [NS_While Strong (LE_VarReference Strong Y_bool ''c'')
              (NS_Sequence Causal
                [NS_Let Strong
                  (LBinding Strong Y_int ''anorm_t''
                    (LE_BinOp Strong Y_int CHR ''+'' (int_var Strong ''x'')
                      (int_var Strong ''one'')))
                  (NS_Assignment Strong (int_var Strong ''x'')
                    (int_var Strong ''anorm_t'')),
                 NS_Let Causal
                  (LBinding Causal Y_int ''anorm_u''
                    (LE_BinOp Causal Y_int CHR ''+'' (int_var Causal ''s'')
                      (int_var Strong ''x'')))
                  (NS_Assignment Causal (int_var Causal ''s'')
                    (int_var Causal ''anorm_u'')),
                 NS_Let Strong
                  (LBinding Strong Y_bool ''anorm_d''
                    (LE_BinOp Strong Y_bool CHR ''<'' (int_var Strong ''x'')
                      (int_var Strong ''two'')))
                  (NS_Assignment Strong
                    (LE_VarReference Strong Y_bool ''c'')
                    (LE_VarReference Strong Y_bool ''anorm_d''))])
              [CHR 0x01, CHR 0x02, CHR 0x01],
             NS_Return (int_var Causal ''s'')])))))"
  by code_simp

definition sum_hist :: hist where
  "sum_hist = (\<lambda>_. [])
     (''one'' := [V_int 1], ''two'' := [V_int 2], ''x'' := [V_int 0, V_int 1, V_int 2],
      ''s'' := [V_int 0, V_int 1, V_int 3], ''c'' := [V_bool True, V_bool True, V_bool False],
      ''anorm_t'' := [V_int 1, V_int 2], ''anorm_u'' := [V_int 1, V_int 3], ''anorm_d'' := [V_bool True, V_bool False],
      [CHR 0x01, CHR 0x02, CHR 0x01] := [V_size (Suc (Suc 0))])"

lemma sum_run: "src_stmt 3 sum_nstmt (\<lambda>_. []) = Some (Some (V_int 3), sum_hist)"
  by (simp add: sum_nstmt_eq append_hist_def src_get_def src_assignment_def decided_def int_result_def binop_value_def
      int_binop_def counter_fits_def sum_hist_def fun_upd_twist numeral_3_eq_3)

lemma sum_split: "split_computation label_sort sum_program [] = Some sum_phases"
  by code_simp

lemma sum_easy: "easy_processing_pass sum_program = Some sum_nstmt"
  by code_simp

lemma sum_labels: "sound_labels sum_label loop_name sum_nstmt (rev (collect_proper_labels label_sort sum_program))"
  by code_simp

lemma sum_steady: "steady loop_name sum_hist"
  by (auto simp: steady_def sum_hist_def loop_name_def)

definition sum_vars :: "name set" where
  "sum_vars = {''one'', ''two'', ''x'', ''s'', ''c'', ''anorm_t'', ''anorm_u'', ''anorm_d'', [CHR 0x01, CHR 0x02, CHR 0x01]}"

text \<open>The variables that only their own phase uses: the store keeps one value of them.\<close>

definition sum_owned :: "name set" where
  "sum_owned = {''one'', ''two'', ''c'', ''anorm_t'', ''anorm_u'', ''anorm_d''}"

lemma sum_names: "needed sum_phases \<union> written sum_nstmt = sum_vars"
  by code_simp

lemma sum_store: "fresh_store loop_name sum_owned sum_vars (all_store sum_phases)"
  by code_simp

lemma sum_needed: "\<forall>x \<in> needed sum_phases \<inter> sum_owned. loop_name x"
  by code_simp

lemma sum_phases_length: "length sum_phases = 4"
  by code_simp

text \<open>The phases of the sum, on the store that the code builds for them.\<close>

theorem transaction_replays_witness:
  "\<exists>t. run_transaction 3 no_store Some sum_phases [[()], [()], [()], [()]] (all_store sum_phases) =
      Some (Some (V_int 3), t) \<and>
    stored t ''s'' = Some [V_int 0, V_int 1, V_int 3] \<and> stored t ''anorm_u'' = Some [V_int 3]"
proof -
  have commits: "list_all2 (\<lambda>rs q. rs \<noteq> [] \<and> Some (hd rs) \<noteq> None) [[()], [()], [()], [()]] sum_phases"
    using sum_phases_length by (auto simp: list_all2_conv_all_nth less_Suc_eq numeral_eq_Suc)
  have "\<exists>t. run_transaction 3 no_store Some sum_phases [[()], [()], [()], [()]] (all_store sum_phases) =
      Some (Some (V_int 3), t) \<and>
    (\<forall>x \<in> written sum_nstmt. \<not> loop_name x \<longrightarrow>
       stored t x = Some (if x \<in> sum_owned then last_only (sum_hist x) else sum_hist x))"
    by (rule transaction_replays[OF sum_split sum_easy sum_labels sum_run sum_steady _ _ sum_needed commits])
      (simp_all add: sum_names sum_store)
  moreover have "{''s'', ''anorm_u''} \<subseteq> written sum_nstmt" "\<not> loop_name ''s''" "\<not> loop_name ''anorm_u''" by code_simp+
  ultimately show ?thesis by (auto simp: sum_hist_def sum_owned_def last_only_def)
qed

section \<open>Loops that are replayed with a wrong count\<close>

text \<open>The inner loop runs once in the first iteration of the outer one, and twice in the second.\<close>

definition nested_program :: lstmt where
  "nested_program =
     strong_int ''zero'' 0 (strong_int ''one'' 1 (strong_int ''two'' 2 (strong_int ''x'' 0 (strong_int ''y'' 0
      (LS_Let Causal (LBinding Causal Y_int ''s'' (LE_Constant 0))
       (LS_Let Strong (LBinding Strong Y_bool ''c'' (compare ''x'' ''two''))
        (LS_Sequence Bottom
          [LS_While Strong (LE_VarReference Strong Y_bool ''c'')
             (LS_Sequence Causal
               [assign_sum Strong ''anorm_t'' ''x'' Strong ''one'',
                LS_Assignment Strong (int_var Strong ''y'') (int_var Strong ''zero''),
                LS_Let Strong (LBinding Strong Y_bool ''d'' (compare ''y'' ''x''))
                 (LS_While Strong (LE_VarReference Strong Y_bool ''d'')
                   (LS_Sequence Causal
                     [assign_sum Strong ''anorm_t1'' ''y'' Strong ''one'',
                      assign_sum Causal ''anorm_u'' ''s'' Strong ''one'',
                      assign_compare ''anorm_d1'' ''d'' ''y'' ''x''])),
                assign_compare ''anorm_d2'' ''c'' ''x'' ''two'']),
           LS_Return (int_var Causal ''s'')])))))))"

text \<open>The count of a loop is a \<open>value_holder\<close> (\<open>while_binding\<close>,
  \<open>split_phase_impl_utils.hpp\<close>), of which only the last value is left when a later phase replays the
  loop.  A program with a nested loop, well labelled and otherwise within \<open>transaction_replays\<close>,
  returns 3 when it is run as it is written and 4 when its phases are run.\<close>

lemma nested_loop_replayed_wrong:
  "(\<exists>a ps. easy_processing_pass nested_program = Some a \<and>
      sound_labels sum_label loop_name a (rev (collect_proper_labels label_sort nested_program)) \<and>
      map_option fst (src_stmt 6 a (\<lambda>_. [])) = Some (Some (V_int 3)) \<and>
      split_computation label_sort nested_program [] = Some ps \<and>
      map_option fst (run_transaction 6 no_store Some ps [[()], [()], [()], [()]] (all_store ps)) =
        Some (Some (V_int 4)))"
proof -
  have "sound_labels sum_label loop_name (the (easy_processing_pass nested_program))
      (rev (collect_proper_labels label_sort nested_program))" by code_simp
  moreover have "map_option fst (src_stmt 6 (the (easy_processing_pass nested_program)) (\<lambda>_. [])) = Some (Some (V_int 3))"
    by code_simp
  moreover have "map_option fst (run_transaction 6 no_store Some (the (split_computation label_sort nested_program []))
      [[()], [()], [()], [()]] (all_store (the (split_computation label_sort nested_program [])))) = Some (Some (V_int 4))"
    by code_simp
  moreover have "easy_processing_pass nested_program \<noteq> None" by code_simp
  moreover have "split_computation label_sort nested_program [] \<noteq> None" by code_simp
  ultimately show ?thesis by (metis option.exhaust_sel)
qed

text \<open>The counter of a loop is named after the number of statements passed in the enclosing
  sequences and the depth of the loop (\<open>easy_processing\<close>, \<open>name_while.hpp\<close>), and the statements inside a
  branch do not count.  A loop in a sequence inside a conditional gets the name of the loop that
  follows the conditional, and the two overwrite each other's count.\<close>

theorem loops_share_counter:
  assumes "easy_processing_pass (LS_Sequence l [LS_If l1 c (LS_Sequence l2 [LS_While l3 c1 b1]) e, LS_While l4 c2 b2]) = Some a"
  shows "\<exists>e' b1' b2' n. a = NS_Sequence l [NS_If l1 c (NS_Sequence l2 [NS_While l3 c1 b1' n]) e', NS_While l4 c2 b2' n]"
  using assms by (auto simp: easy_processing_pass_def bind_Some_iff split: if_splits)

theorem loops_share_counter_witness:
  "\<exists>e' b1' b2' n. easy_processing_pass (LS_Sequence Strong
       [LS_If Strong (LE_Constant 1) (LS_Sequence Strong [LS_While Strong (LE_Constant 0) (LS_Sequence Strong [])])
          (LS_Sequence Strong []),
        LS_While Strong (LE_Constant 0) (LS_Sequence Strong [])]) =
     Some (NS_Sequence Strong
       [NS_If Strong (LE_Constant 1) (NS_Sequence Strong [NS_While Strong (LE_Constant 0) b1' n]) e',
        NS_While Strong (LE_Constant 0) b2' n])"
proof -
  have "easy_processing_pass (LS_Sequence Strong
       [LS_If Strong (LE_Constant 1) (LS_Sequence Strong [LS_While Strong (LE_Constant 0) (LS_Sequence Strong [])])
          (LS_Sequence Strong []),
        LS_While Strong (LE_Constant 0) (LS_Sequence Strong [])]) \<noteq> None" by code_simp
  then obtain a where a: "easy_processing_pass (LS_Sequence Strong
       [LS_If Strong (LE_Constant 1) (LS_Sequence Strong [LS_While Strong (LE_Constant 0) (LS_Sequence Strong [])])
          (LS_Sequence Strong []),
        LS_While Strong (LE_Constant 0) (LS_Sequence Strong [])]) = Some a" by auto
  from loops_share_counter[OF a] a show ?thesis by auto
qed

end
