(* ===== verification/Typecheck.thy ===== *)
theory Typecheck
  imports OldAst SplitAst
begin

text \<open>
  The type checker, \<open>mtl/typecheck_and_label_impl.hpp\<close>: a flattened program of \<open>parse_phase\<close> becomes a
  typed tree, labelled with the labels that are known and a temporary label for every variable.

  A type of \<open>typecheck_phase\<close> is complete only for what its partial specialisations allow
  (\<open>mtl/AST_typecheck.hpp\<close>): operands, conditions and assigned values are variables, the two sides of an
  assignment have the same type.  A result that would be incomplete is \<^term>\<open>None\<close>, as is a failed
  \<open>static_assert\<close>.

  The C++ types of a program are a parameter, the record \<open>type_facts\<close>: the fields of its structs, the
  operations of its handles, and its overloaded operators.
\<close>

section \<open>Types and environments\<close>

record type_facts =
  struct_fields :: "ytype \<Rightarrow> (name \<times> ytype) list option"
  operation_type :: "ytype \<Rightarrow> name \<Rightarrow> (ytype option \<times> ytype list) option"
  other_binop :: "char \<Rightarrow> ytype \<Rightarrow> ytype \<Rightarrow> ytype option"

text \<open>The labels that have a name in the source, as \<open>Label<String<...>>\<close>.\<close>

definition named_label :: "name \<Rightarrow> label option" where
  "named_label n = map_of [(''top'', Top), (''bottom'', Bottom), (''strong'', Strong), (''causal'', Causal), (''mid'', Mid)] n"

record type_env =
  pc_label :: label
  env_bindings :: "vbinding list"

text \<open>\<open>get_binding\<close>, for a variable that is bound once: \<open>find_match\<close> of \<open>mutils\<close> finds that binding.  What it
  does with several is not modelled.\<close>

definition get_binding :: "name \<Rightarrow> vbinding list \<Rightarrow> vbinding option" where
  "get_binding n bs = (case filter (\<lambda>b. vbinding_name b = n) bs of [b] \<Rightarrow> Some b | _ \<Rightarrow> None)"

definition decide_type_label :: "label \<Rightarrow> label \<Rightarrow> label option" where
  "decide_type_label l r =
     (if is_pre_endorsed l \<and> is_pre_endorsed r then None
      else if is_pre_endorsed l \<or> is_pre_endorsed r then resolved_label_min (PreEndorse_notop l) (PreEndorse_notop r)
      else resolved_label_min l r)"

text \<open>\<open>type\<close> and \<open>label\<close> of a \<open>type_binding\<close>; for a remote one the type of the target of the handle.\<close>

fun binding_type :: "vbinding \<Rightarrow> (ytype \<times> label) option" where
  "binding_type (TypeBinding n y l False) = Some (y, l)"
| "binding_type (TypeBinding n y l True) =
     (case y of Y_Handle hl t ops \<Rightarrow> map_option (Pair t) (decide_type_label l hl) | _ \<Rightarrow> None)"
| "binding_type (WhileBinding n) = None"

definition extend_env :: "label \<Rightarrow> vbinding \<Rightarrow> type_env \<Rightarrow> type_env" where
  "extend_env pc b env = \<lparr>pc_label = pc, env_bindings = env_bindings env @ [b]\<rparr>"

definition true_binding :: vbinding where
  "true_binding = TypeBinding ''true'' Y_bool Top False"

definition false_binding :: vbinding where
  "false_binding = TypeBinding ''false'' Y_bool Top False"

definition list_binding :: vbinding where
  "list_binding = TypeBinding ''default list'' Y_ListStub Bottom False"

text \<open>The environment of a transaction, with its arguments (\<open>pre_transaction_str::typecheck\<close>,
  \<open>mtl/transaction.hpp\<close>).\<close>

definition start_env :: "vbinding list \<Rightarrow> type_env" where
  "start_env args = \<lparr>pc_label = Top, env_bindings = [true_binding, false_binding, list_binding] @ args\<rparr>"

section \<open>Expressions\<close>

fun lexpr_is_var :: "lexpr \<Rightarrow> bool" where
  "lexpr_is_var (LE_VarReference l y v) = True"
| "lexpr_is_var _ = False"

text \<open>The type of an operator, \<open>BinOp<op,...>::yield\<close>, with the conversions of C++ between \<open>int\<close> and \<open>bool\<close>.\<close>

definition binop_yield :: "type_facts \<Rightarrow> char \<Rightarrow> ytype \<Rightarrow> ytype \<Rightarrow> ytype option" where
  "binop_yield T op y z =
     (if op \<notin> set binops then None
      else if {y, z} \<subseteq> {Y_int, Y_bool} then Some (if op \<in> set ''+*-/'' then Y_int else Y_bool)
      else other_binop T op y z)"

definition typecheck_var :: "type_env \<Rightarrow> name \<Rightarrow> lexpr option" where
  "typecheck_var env v = do {
     b \<leftarrow> get_binding v (env_bindings env); (y, l) \<leftarrow> binding_type b; Some (LE_VarReference l y v) }"

text \<open>\<open>ensure\<close> gives an expression another label.  A constant is always labelled \<open>top\<close>, and \<open>endorse\<close> keeps its own
  label.\<close>

fun relabel_expr :: "label \<Rightarrow> lexpr \<Rightarrow> lexpr option" where
  "relabel_expr l (LE_FieldReference l' y s f) = Some (LE_FieldReference l y s f)"
| "relabel_expr l (LE_VarReference l' y v) = Some (LE_VarReference l y v)"
| "relabel_expr l (LE_Constant i) = (if l = Top then Some (LE_Constant i) else None)"
| "relabel_expr l (LE_BinOp l' y op a b) = Some (LE_BinOp l y op a b)"
| "relabel_expr l (LE_GenerateTombstone l') = Some (LE_GenerateTombstone l)"
| "relabel_expr l (LE_IsValid l' h) = Some (LE_IsValid l h)"
| "relabel_expr l (LE_Endorse l' y h) = (if l = l' then Some (LE_Endorse l y h) else None)"
| "relabel_expr l (LE_Operation l' y n h as) = Some (LE_Operation l y n h as)"

text \<open>
  An operation on a handle that is checked already: its arguments, its label, and what it returns (\<^term>\<open>None\<close>
  for \<open>void\<close>).  The operations \<open>new\<close>, \<open>push_back\<close> and \<open>nulled\<close> are built in (\<open>MYRIA_SPECIAL_OPERATIONS\<close>),
  the others are those of the type of the handle.
\<close>

definition operation_result :: "type_facts \<Rightarrow> name \<Rightarrow> ytype \<Rightarrow> ytype list \<Rightarrow> (label \<times> ytype option) option" where
  "operation_result T n y args =
     (if n = ''push_back'' then (if y = Y_ListStub then Some (Bottom, None) else None)
      else if n = ''new'' \<or> n = ''nulled'' then do { hl \<leftarrow> handle_label_of y; Some (hl, Some y) }
      else do {
        (ret, as) \<leftarrow> operation_type T y n;
        hl \<leftarrow> handle_label_of y;
        if is_handle y \<and> as = args then Some (hl, ret) else None })"

definition typecheck_operation ::
  "type_facts \<Rightarrow> type_env \<Rightarrow> name \<Rightarrow> lexpr \<Rightarrow> name list \<Rightarrow> (label \<times> ytype option \<times> lexpr list) option" where
  "typecheck_operation T env n h vars = do {
     as \<leftarrow> those (map (typecheck_var env) vars);
     (hl, ret) \<leftarrow> operation_result T n (expr_yield h) (map expr_yield as);
     args_min \<leftarrow> resolved_label_min_vararg (hl # hl # map expr_label as);
     pc_min \<leftarrow> resolved_label_min (pc_label env) args_min;
     l \<leftarrow> resolved_label_min (expr_label h) pc_min;
     Some (l, ret, as) }"

text \<open>The sequence number and the depth play no role in expressions and are left out.  An operation that returns
  nothing has no use as an expression: every construct around it rejects \<open>void\<close>.\<close>

fun typecheck_expr :: "type_facts \<Rightarrow> type_env \<Rightarrow> expr \<Rightarrow> lexpr option" where
  "typecheck_expr T env (E_FieldReference s f) = do {
     s \<leftarrow> typecheck_expr T env s;
     fs \<leftarrow> struct_fields T (expr_yield s);
     y \<leftarrow> map_of fs f;
     if lexpr_is_var s then Some (LE_FieldReference (expr_label s) y s f) else None }"
| "typecheck_expr T env (E_VarReference v) = typecheck_var env v"
| "typecheck_expr T env (E_Constant i) = Some (LE_Constant (int i))"
| "typecheck_expr T env (E_BinOp op a b) = do {
     a \<leftarrow> typecheck_expr T env a;
     b \<leftarrow> typecheck_expr T env b;
     l \<leftarrow> resolved_label_min (expr_label a) (expr_label b);
     y \<leftarrow> binop_yield T op (expr_yield a) (expr_yield b);
     if lexpr_is_var a \<and> lexpr_is_var b then Some (LE_BinOp l y op a b) else None }"
| "typecheck_expr T env (E_IsValid h) = do {
     h \<leftarrow> typecheck_expr T env h;
     hl \<leftarrow> handle_label_of (expr_yield h);
     l \<leftarrow> resolved_label_min (pc_label env) (expr_label h);
     l \<leftarrow> resolved_label_min l hl;
     if is_handle (expr_yield h) \<and> lexpr_is_var h then Some (LE_IsValid l h) else None }"
| "typecheck_expr T env (E_Endorse n e) = do {
     l \<leftarrow> named_label n;
     e \<leftarrow> typecheck_expr T env e;
     if lexpr_is_var e then Some (LE_Endorse l (expr_yield e) e) else None }"
| "typecheck_expr T env (E_Ensure n e) = do {
     l \<leftarrow> named_label n; e \<leftarrow> typecheck_expr T env e; relabel_expr l e }"
| "typecheck_expr T env (E_Operation n h es vars) =
     (if es \<noteq> [] then None
      else do {
        h \<leftarrow> typecheck_expr T env h;
        (l, ret, as) \<leftarrow> typecheck_operation T env n h vars;
        y \<leftarrow> ret;
        Some (LE_Operation l y n h as) })"
| "typecheck_expr T env (E_FieldPointerReference e f) = None"
| "typecheck_expr T env (E_Dereference e) = None"

section \<open>Statements\<close>

definition is_condition :: "lexpr \<Rightarrow> bool" where
  "is_condition c \<longleftrightarrow> lexpr_is_var c \<and> expr_yield c = Y_bool"

text \<open>\<open>typecheck<seqnum,depth>\<close>.  A conditional and a loop check what they guard with a lower program counter.\<close>

fun typecheck_stmt :: "type_facts \<Rightarrow> type_env \<Rightarrow> int \<Rightarrow> int \<Rightarrow> stmt \<Rightarrow> lstmt option"
  and typecheck_seq :: "type_facts \<Rightarrow> type_env \<Rightarrow> int \<Rightarrow> int \<Rightarrow> stmt list \<Rightarrow> lstmt list option" where
  "typecheck_stmt T env s d (S_Let n e body) = do {
     e \<leftarrow> typecheck_expr T env e;
     body \<leftarrow> typecheck_stmt T
       (extend_env (pc_label env) (TypeBinding n (expr_yield e) (Temp s d) False) env) (s + 1) (d + 1) body;
     l \<leftarrow> resolved_label_min (expr_label e) (pc_label env);
     Some (LS_Let l (LBinding (Temp s d) (expr_yield e) n e) body) }"
| "typecheck_stmt T env s d (S_LetRemote n e body) = do {
     e \<leftarrow> typecheck_expr T env e;
     (case expr_yield e of
        Y_Handle hl t ops \<Rightarrow> do {
          pc \<leftarrow> resolved_label_min (pc_label env) (expr_label e);
          bl \<leftarrow> resolved_label_min (expr_label e) hl;
          body \<leftarrow> typecheck_stmt T (extend_env pc (TypeBinding n (expr_yield e) bl True) env) (s + 1) (d + 1) body;
          l \<leftarrow> resolved_label_min (pc_label env) hl;
          if lexpr_is_var e then Some (LS_LetRemote l (LBinding (Temp s d) t n e) body) else None }
      | _ \<Rightarrow> None) }"
| "typecheck_stmt T env s d (S_Operation n h es vars) =
     (if es \<noteq> [] then None
      else do {
        h \<leftarrow> typecheck_expr T env h;
        (l, ret, as) \<leftarrow> typecheck_operation T env n h vars;
        Some (LS_Operation l n h as) })"
| "typecheck_stmt T env s d (S_Assignment v e) = do {
     v \<leftarrow> typecheck_expr T env v;
     e \<leftarrow> typecheck_expr T env e;
     l \<leftarrow> resolved_label_min (expr_label e) (expr_label v);
     l \<leftarrow> resolved_label_min l (pc_label env);
     if expr_yield v = expr_yield e \<and> lexpr_is_var e then Some (LS_Assignment l v e) else None }"
| "typecheck_stmt T env s d (S_Return e) = do { e \<leftarrow> typecheck_expr T env e; Some (LS_Return e) }"
| "typecheck_stmt T env s d (S_If c t e) = do {
     c \<leftarrow> typecheck_expr T env c;
     pc \<leftarrow> resolved_label_min (expr_label c) (pc_label env);
     t \<leftarrow> typecheck_stmt T (env\<lparr>pc_label := pc\<rparr>) (s + 1) (d + 1) t;
     e \<leftarrow> typecheck_stmt T (env\<lparr>pc_label := pc\<rparr>) (s + 2) (d + 1) e;
     l \<leftarrow> resolved_label_min (pc_label env) (expr_label c);
     if is_condition c then Some (LS_If l c t e) else None }"
| "typecheck_stmt T env s d (S_While c body) = do {
     c \<leftarrow> typecheck_expr T env c;
     pc \<leftarrow> resolved_label_min (expr_label c) (pc_label env);
     body \<leftarrow> typecheck_stmt T (env\<lparr>pc_label := pc\<rparr>) (s + 1) (d + 1) body;
     l \<leftarrow> resolved_label_min (pc_label env) (expr_label c);
     if is_condition c then Some (LS_While l c body) else None }"
| "typecheck_stmt T env s d (S_Sequence ss) = do {
     ss \<leftarrow> typecheck_seq T env s d ss; Some (LS_Sequence (pc_label env) ss) }"
| "typecheck_seq T env s d [] = Some []"
| "typecheck_seq T env s d (st # ss) = do {
     st \<leftarrow> typecheck_stmt T env s d st;
     ss \<leftarrow> typecheck_seq T env (s + 1) d ss;
     Some (st # ss) }"

definition typecheck_transaction :: "type_facts \<Rightarrow> vbinding list \<Rightarrow> stmt \<Rightarrow> lstmt option" where
  "typecheck_transaction T args p = typecheck_stmt T (start_env args) 1 1 p"

end
