(* ===== verification/TypeSafety.thy ===== *)
theory TypeSafety
  imports Typecheck Source LabelInference
begin

text \<open>
  What type checking guarantees for runs.  A program that type checks is \<open>typed\<close>: with respect to one
  type for each of its variables, every expression has the type it says.  Label inference and the
  naming of loops keep this, and a run of a typed program only gives its variables values of their
  types.
\<close>

section \<open>Types of values\<close>

fun has_type :: "type_facts \<Rightarrow> mvalue \<Rightarrow> ytype \<Rightarrow> bool" where
  "has_type T (V_int w) y = (y = Y_int)"
| "has_type T (V_bool b) y = (y = Y_bool)"
| "has_type T (V_tombstone t) y = (y = Y_Tombstone)"
| "has_type T V_list y = (y = Y_ListStub)"
| "has_type T (V_handle h) y = is_handle y"
| "has_type T (V_struct fs) y =
     (case struct_fields T y of
        Some ts \<Rightarrow> map fst fs = map fst ts \<and>
          (\<forall>(f, v) \<in> set fs. case map_of ts f of Some t \<Rightarrow> has_type T v t | None \<Rightarrow> False)
      | None \<Rightarrow> False)"
| "has_type T (V_size n) y = False"
| "has_type T (V_other m) y = (\<exists>n. y = Y_other n \<and> struct_fields T y = None)"

lemma has_type_bool: "has_type T v Y_bool \<Longrightarrow> struct_fields T Y_bool = None \<Longrightarrow> \<exists>b. v = V_bool b"
  by (cases v) auto

lemma has_type_struct:
  "has_type T (V_struct fs) y \<longleftrightarrow>
     (\<exists>ts. struct_fields T y = Some ts \<and> map fst fs = map fst ts \<and>
       (\<forall>f v. (f, v) \<in> set fs \<longrightarrow> (\<exists>t. map_of ts f = Some t \<and> has_type T v t)))"
  by (fastforce split: option.splits)

lemma field_has_type:
  assumes "has_type T v y" "struct_fields T y = Some ts" "struct_field f v = Some x" "map_of ts f = Some t"
  shows "has_type T x t"
proof -
  obtain fs where v: "v = V_struct fs" "(f, x) \<in> set fs"
    using assms(3) by (cases v) (auto dest: map_of_SomeD)
  then show ?thesis using assms(1,2,4) unfolding v(1) has_type_struct by fastforce
qed

lemma set_field_has_type:
  assumes "has_type T v y" "struct_fields T y = Some ts" "map_of ts f = Some t" "has_type T x t"
    and "set_field f x v = Some w"
  shows "has_type T w y"
proof -
  obtain fs where v: "v = V_struct fs" and w: "w = V_struct (map (\<lambda>(g, u). if g = f then (g, x) else (g, u)) fs)"
    using assms(5) by (cases v) (auto simp: set_field_def split: if_splits)
  have "map fst (map (\<lambda>(g, u). if g = f then (g, x) else (g, u)) fs) = map fst fs"
    by (induction fs) auto
  then show ?thesis
    using assms(1-4) unfolding v w has_type_struct by (fastforce split: if_splits)
qed

section \<open>Typed programs\<close>

text \<open>\<open>tau\<close> is the type of each variable.\<close>

fun var_type :: "(name \<Rightarrow> ytype option) \<Rightarrow> name \<Rightarrow> ytype option" where
  "var_type tau n =
     (if n = ''true'' \<or> n = ''false'' then Some Y_bool
      else if n = ''default list'' then Some Y_ListStub
      else tau n)"

fun typed_expr :: "type_facts \<Rightarrow> (name \<Rightarrow> ytype option) \<Rightarrow> lexpr \<Rightarrow> bool" where
  "typed_expr T tau (LE_FieldReference l y s f) =
     (typed_expr T tau s \<and> lexpr_is_var s \<and>
      (\<exists>ts. struct_fields T (expr_yield s) = Some ts \<and> map_of ts f = Some y))"
| "typed_expr T tau (LE_VarReference l y v) = (var_type tau v = Some y)"
| "typed_expr T tau (LE_Constant i) = True"
| "typed_expr T tau (LE_BinOp l y op a b) =
     (typed_expr T tau a \<and> typed_expr T tau b \<and> lexpr_is_var a \<and> lexpr_is_var b \<and>
      binop_yield T op (expr_yield a) (expr_yield b) = Some y)"
| "typed_expr T tau (LE_GenerateTombstone l) = True"
| "typed_expr T tau (LE_IsValid l h) = (typed_expr T tau h \<and> is_handle (expr_yield h))"
| "typed_expr T tau (LE_Endorse l y h) = (typed_expr T tau h \<and> expr_yield h = y)"
| "typed_expr T tau (LE_Operation l y n h as) =
     (typed_expr T tau h \<and> (\<forall>a \<in> set as. typed_expr T tau a) \<and>
      (\<exists>hl. operation_result T n (expr_yield h) (map expr_yield as) = Some (hl, Some y)))"

fun typed_stmt :: "type_facts \<Rightarrow> (name \<Rightarrow> ytype option) \<Rightarrow> lstmt \<Rightarrow> bool" where
  "typed_stmt T tau (LS_Let l (LBinding bl y n e) s) =
     (typed_expr T tau e \<and> expr_yield e = y \<and> var_type tau n = Some y \<and> typed_stmt T tau s)"
| "typed_stmt T tau (LS_LetRemote l (LBinding bl y n e) s) =
     (typed_expr T tau e \<and> (\<exists>hl ops. expr_yield e = Y_Handle hl y ops) \<and> var_type tau n = Some y \<and> typed_stmt T tau s)"
| "typed_stmt T tau (LS_Operation l n h as) =
     (typed_expr T tau h \<and> (\<forall>a \<in> set as. typed_expr T tau a) \<and>
      operation_result T n (expr_yield h) (map expr_yield as) \<noteq> None)"
| "typed_stmt T tau (LS_Assignment l v e) =
     (typed_expr T tau v \<and> typed_expr T tau e \<and> expr_yield v = expr_yield e)"
| "typed_stmt T tau (LS_Return e) = typed_expr T tau e"
| "typed_stmt T tau (LS_WriteTombstone l e) = typed_expr T tau e"
| "typed_stmt T tau (LS_AccompanyWrite l e) = typed_expr T tau e"
| "typed_stmt T tau (LS_If l c t e) =
     (typed_expr T tau c \<and> expr_yield c = Y_bool \<and> typed_stmt T tau t \<and> typed_stmt T tau e)"
| "typed_stmt T tau (LS_While l c s) = (typed_expr T tau c \<and> expr_yield c = Y_bool \<and> typed_stmt T tau s)"
| "typed_stmt T tau (LS_Sequence l ss) = (\<forall>s \<in> set ss. typed_stmt T tau s)"

text \<open>The variables that a program binds, with their types, and what it may return.\<close>

fun bound_types :: "lstmt \<Rightarrow> (name \<times> ytype) list" where
  "bound_types (LS_Let l (LBinding bl y n e) s) = (n, y) # bound_types s"
| "bound_types (LS_LetRemote l (LBinding bl y n e) s) = (n, y) # bound_types s"
| "bound_types (LS_If l c t e) = bound_types t @ bound_types e"
| "bound_types (LS_While l c s) = bound_types s"
| "bound_types (LS_Sequence l ss) = concat (map bound_types ss)"
| "bound_types _ = []"

fun return_types :: "lstmt \<Rightarrow> ytype list" where
  "return_types (LS_Let l b s) = return_types s"
| "return_types (LS_LetRemote l b s) = return_types s"
| "return_types (LS_If l c t e) = return_types t @ return_types e"
| "return_types (LS_While l c s) = return_types s"
| "return_types (LS_Sequence l ss) = concat (map return_types ss)"
| "return_types (LS_Return e) = [expr_yield e]"
| "return_types _ = []"

section \<open>The type checker produces typed programs\<close>

definition env_typed :: "(name \<Rightarrow> ytype option) \<Rightarrow> type_env \<Rightarrow> bool" where
  "env_typed tau env \<longleftrightarrow>
     (\<forall>b \<in> set (env_bindings env). \<forall>y l. binding_type b = Some (y, l) \<longrightarrow> var_type tau (vbinding_name b) = Some y)"

definition binders_typed :: "(name \<Rightarrow> ytype option) \<Rightarrow> lstmt \<Rightarrow> bool" where
  "binders_typed tau s \<longleftrightarrow> (\<forall>(n, y) \<in> set (bound_types s). var_type tau n = Some y)"

lemma env_typed_pc [simp]: "env_typed tau (env\<lparr>pc_label := l\<rparr>) = env_typed tau env"
  by (simp add: env_typed_def)

lemma env_typed_extend:
  "env_typed tau (extend_env pc b env) \<longleftrightarrow>
     env_typed tau env \<and> (\<forall>y l. binding_type b = Some (y, l) \<longrightarrow> var_type tau (vbinding_name b) = Some y)"
  by (auto simp: env_typed_def extend_env_def)

lemma typecheck_var_typed:
  assumes "typecheck_var env v = Some e" "env_typed tau env"
  shows "typed_expr T tau e" "lexpr_is_var e"
proof -
  obtain b y l where b: "get_binding v (env_bindings env) = Some b" "binding_type b = Some (y, l)"
    and e: "e = LE_VarReference l y v"
    using assms(1) by (auto simp: typecheck_var_def bind_Some_iff)
  have "filter (\<lambda>b. vbinding_name b = v) (env_bindings env) = [b]"
    using b(1) by (auto simp: get_binding_def split: list.splits)
  then have "b \<in> set (env_bindings env)" "vbinding_name b = v"
    by (auto simp: filter_eq_Cons_iff)
  then show "typed_expr T tau e" "lexpr_is_var e"
    using assms(2) b(2) e by (auto simp: env_typed_def simp del: var_type.simps)
qed

lemma relabel_expr_typed:
  "relabel_expr l e = Some e' \<Longrightarrow> typed_expr T tau e' = typed_expr T tau e \<and> expr_yield e' = expr_yield e"
  by (cases e) (auto split: if_splits)

lemma typecheck_operation_typed:
  assumes "typecheck_operation T env n h vars = Some (l, ret, as)" "env_typed tau env"
  shows "\<exists>hl. operation_result T n (expr_yield h) (map expr_yield as) = Some (hl, ret)"
    "\<forall>a \<in> set as. typed_expr T tau a"
proof -
  obtain hl where as: "those (map (typecheck_var env) vars) = Some as"
    and op: "operation_result T n (expr_yield h) (map expr_yield as) = Some (hl, ret)"
    using assms(1) by (auto simp: typecheck_operation_def bind_Some_iff)
  show "\<exists>hl. operation_result T n (expr_yield h) (map expr_yield as) = Some (hl, ret)" using op ..
  have "map (typecheck_var env) vars = map Some as" using as by (simp add: those_Some_iff)
  then have "\<exists>v. typecheck_var env v = Some a" if "a \<in> set as" for a
  proof -
    have "Some a \<in> set (map (typecheck_var env) vars)"
      unfolding \<open>map (typecheck_var env) vars = map Some as\<close> using that by simp
    then show ?thesis by auto
  qed
  then show "\<forall>a \<in> set as. typed_expr T tau a" using typecheck_var_typed(1) assms(2) by blast
qed

lemma typecheck_expr_typed:
  "typecheck_expr T env e = Some le \<Longrightarrow> env_typed tau env \<Longrightarrow> typed_expr T tau le"
proof (induction T env e arbitrary: le rule: typecheck_expr.induct)
  case (7 T env n e)
  then show ?case by (auto simp: bind_Some_iff dest: relabel_expr_typed)
next
  case (8 T env n h es vars)
  then obtain h' l y as where h: "typecheck_expr T env h = Some h'" and "es = []"
    and op: "typecheck_operation T env n h' vars = Some (l, Some y, as)" and le: "le = LE_Operation l y n h' as"
    by (auto simp: bind_Some_iff split: if_splits)
  then show ?case using 8 typecheck_operation_typed[OF op] by (auto simp del: var_type.simps)
qed (auto simp: bind_Some_iff typecheck_var_typed(1) simp del: var_type.simps split: if_splits)

lemma typecheck_stmt_typed:
  "typecheck_stmt T env s d st = Some ls \<Longrightarrow> env_typed tau env \<Longrightarrow> binders_typed tau ls \<Longrightarrow> typed_stmt T tau ls"
  "typecheck_seq T env s d ss = Some lss \<Longrightarrow> env_typed tau env \<Longrightarrow> \<forall>l \<in> set lss. binders_typed tau l \<Longrightarrow>
     \<forall>l \<in> set lss. typed_stmt T tau l"
proof (induction T env s d st and T env s d ss arbitrary: ls and lss rule: typecheck_stmt_typecheck_seq.induct)
  case (1 T env s d n e body)
  then obtain e' b' l where e: "typecheck_expr T env e = Some e'"
    and b: "typecheck_stmt T (extend_env (pc_label env) (TypeBinding n (expr_yield e') (Temp s d) False) env) (s + 1) (d + 1) body = Some b'"
    and ls: "ls = LS_Let l (LBinding (Temp s d) (expr_yield e') n e') b'"
    by (auto simp: bind_Some_iff)
  have n: "var_type tau n = Some (expr_yield e')" "binders_typed tau b'"
    using 1(4) ls by (auto simp: binders_typed_def simp del: var_type.simps)
  show ?case using 1(1)[OF e b _ n(2)] typecheck_expr_typed[OF e 1(3)] n 1(3) ls
    by (auto simp: env_typed_extend simp del: var_type.simps)
next
  case (2 T env s d n e body)
  then obtain e' where e: "typecheck_expr T env e = Some e'" by (auto simp: bind_Some_iff)
  obtain hl t ops where y: "expr_yield e' = Y_Handle hl t ops"
    using 2(2) e by (cases "expr_yield e'") simp_all
  obtain pc bl b' l where pc: "resolved_label_min (pc_label env) (expr_label e') = Some pc"
      "resolved_label_min (expr_label e') hl = Some bl"
    and b: "typecheck_stmt T (extend_env pc (TypeBinding n (expr_yield e') bl True) env) (s + 1) (d + 1) body = Some b'"
    and ls: "ls = LS_LetRemote l (LBinding (Temp s d) t n e') b'"
    using 2(2) e y by (auto simp: bind_Some_iff split: if_splits)
  have n: "var_type tau n = Some t" "binders_typed tau b'"
    using 2(4) ls by (auto simp: binders_typed_def simp del: var_type.simps)
  show ?case using 2(1)[OF e y pc b _ n(2)] typecheck_expr_typed[OF e 2(3)] n 2(3) ls y
    by (auto simp: env_typed_extend simp del: var_type.simps)
next
  case (3 T env s d n h es vars)
  then obtain h' l ret as where h: "typecheck_expr T env h = Some h'"
    and op: "typecheck_operation T env n h' vars = Some (l, ret, as)" and "ls = LS_Operation l n h' as"
    by (auto simp: bind_Some_iff split: if_splits)
  then show ?case using typecheck_operation_typed[OF op 3(2)] typecheck_expr_typed[OF h 3(2)] by auto
next
  case (4 T env s d v e)
  then show ?case by (auto simp: bind_Some_iff typecheck_expr_typed split: if_splits)
next
  case (5 T env s d e)
  then show ?case by (auto simp: bind_Some_iff typecheck_expr_typed)
next
  case (6 T env s d c t e)
  then show ?case
    by (auto simp: bind_Some_iff typecheck_expr_typed is_condition_def binders_typed_def ball_Un split: if_splits)
next
  case (7 T env s d c body)
  then show ?case
    by (auto simp: bind_Some_iff typecheck_expr_typed is_condition_def binders_typed_def split: if_splits)
next
  case (8 T env s d ss)
  then show ?case by (auto simp: bind_Some_iff binders_typed_def)
qed (auto simp: bind_Some_iff)

section \<open>Later passes keep types\<close>

lemma replace_expr_typed:
  "replace_expr a b n e = Some e' \<Longrightarrow>
     typed_expr T tau e' = typed_expr T tau e \<and> expr_yield e' = expr_yield e \<and> lexpr_is_var e' = lexpr_is_var e"
  "replace_exprs a b n es = Some es' \<Longrightarrow>
     (\<forall>x \<in> set es'. typed_expr T tau x) = (\<forall>x \<in> set es. typed_expr T tau x) \<and>
     map expr_yield es' = map expr_yield es"
proof (induction e and es arbitrary: e' and es' rule: replace_expr_replace_exprs.induct)
qed (auto simp: bind_Some_iff simp del: var_type.simps split: if_splits)

lemma replace_stmt_typed:
  "replace_stmt a b n s = Some s' \<Longrightarrow>
     typed_stmt T tau s' = typed_stmt T tau s \<and> return_types s' = return_types s"
  "replace_stmts a b n ss = Some ss' \<Longrightarrow>
     (\<forall>x \<in> set ss'. typed_stmt T tau x) = (\<forall>x \<in> set ss. typed_stmt T tau x) \<and>
     map return_types ss' = map return_types ss"
proof (induction s and ss arbitrary: s' and ss' rule: replace_stmt_replace_stmts.induct)
  case (4 a b n l bi s)
  obtain bl y v e where bi: "bi = LBinding bl y v e" by (cases bi)
  with 4(2) obtain l' bl' e' s1 where "replace_expr a b n e = Some e'" "replace_stmt a b n s = Some s1"
    "label_replace a b n l = Some l'" "label_replace a b n bl = Some bl'" "s' = LS_Let l' (LBinding bl' y v e') s1"
    by (auto simp: bind_Some_iff)
  with 4(1) bi replace_expr_typed(1)[of a b n e e' T tau] show ?case by simp
next
  case (5 a b n l bi s)
  obtain bl y v e where bi: "bi = LBinding bl y v e" by (cases bi)
  with 5(2) obtain l' bl' e' s1 where "replace_expr a b n e = Some e'" "replace_stmt a b n s = Some s1"
    "label_replace a b n l = Some l'" "label_replace a b n bl = Some bl'" "s' = LS_LetRemote l' (LBinding bl' y v e') s1"
    by (auto simp: bind_Some_iff)
  with 5(1) bi replace_expr_typed(1)[of a b n e e' T tau] show ?case by simp
next
  case (6 a b n l c t e)
  obtain l' c' t' e' where "label_replace a b n l = Some l'" "replace_expr a b n c = Some c'"
    "replace_stmt a b n t = Some t'" "replace_stmt a b n e = Some e'" "s' = LS_If l' c' t' e'"
    using 6(3) by (auto simp: bind_Some_iff)
  with 6(1,2) replace_expr_typed(1)[of a b n c c' T tau] show ?case by simp
next
  case (7 a b n l c s)
  obtain l' c' s1 where "label_replace a b n l = Some l'" "replace_expr a b n c = Some c'"
    "replace_stmt a b n s = Some s1" "s' = LS_While l' c' s1"
    using 7(2) by (auto simp: bind_Some_iff)
  with 7(1) replace_expr_typed(1)[of a b n c c' T tau] show ?case by simp
qed (auto simp: bind_Some_iff dest!: replace_expr_typed(1)[where T = T and tau = tau]
      replace_expr_typed(2)[where T = T and tau = tau] simp del: var_type.simps)

lemma apply_substs_typed:
  "apply_substs ss s = Some s' \<Longrightarrow> typed_stmt T tau s' = typed_stmt T tau s \<and> return_types s' = return_types s"
proof (induction ss arbitrary: s')
  case (Cons x ss)
  obtain n a b where x: "x = (n, a, b)" by (cases x)
  obtain s1 where "apply_substs ss s = Some s1" "replace_stmt a b n s1 = Some s'"
    using Cons.prems x by (auto simp: apply_substs_def bind_Some_iff)
  then show ?case using Cons.IH replace_stmt_typed(1) by metis
qed simp

lemma helper_substs:
  "infer_labels_helper1 csort dedupe ls p cs = Some (p', rest) \<Longrightarrow> \<exists>ss. apply_substs ss p = Some p'"
proof (induction ls arbitrary: p cs)
  case Nil
  then show ?case by (auto intro: exI[of _ "[]"])
next
  case (Cons l ls)
  obtain r where r: "replace_all_less_than (length cs) csort dedupe l p (csort cs) = Some r"
    and "infer_labels_helper1 csort dedupe ls (ret_ast r) (ret_constraints r) = Some (p', rest)"
    using Cons.prems by (auto simp: bind_Some_iff)
  then obtain ss where "apply_substs ss (ret_ast r) = Some p'" using Cons.IH by blast
  with replace_all_ast[OF r] have "apply_substs (ss @ ret_substitutions r) p = Some p'"
    by (simp add: apply_substs_append)
  then show ?case ..
qed

lemma infer_labels_typed:
  assumes "infer_labels csort dedupe srt c = Some i"
  shows "typed_stmt T tau i = typed_stmt T tau c" "return_types i = return_types c"
proof -
  obtain ss where "apply_substs ss c = Some i"
    using assms by (auto simp: infer_labels_def Let_def bind_Some_iff dest: helper_substs)
  from apply_substs_typed[OF this]
  show "typed_stmt T tau i = typed_stmt T tau c" "return_types i = return_types c" by simp_all
qed

text \<open>Naming the loops changes nothing else.\<close>

fun erase :: "nstmt \<Rightarrow> lstmt" where
  "erase (NS_Let l b s) = LS_Let l b (erase s)"
| "erase (NS_LetRemote l b s) = LS_LetRemote l b (erase s)"
| "erase (NS_Operation l n h as) = LS_Operation l n h as"
| "erase (NS_Assignment l v e) = LS_Assignment l v e"
| "erase (NS_Return e) = LS_Return e"
| "erase (NS_WriteTombstone l e) = LS_WriteTombstone l e"
| "erase (NS_AccompanyWrite l e) = LS_AccompanyWrite l e"
| "erase (NS_If l c t e) = LS_If l c (erase t) (erase e)"
| "erase (NS_While l c s n) = LS_While l c (erase s)"
| "erase (NS_Sequence l ss) = LS_Sequence l (map erase ss)"

lemma easy_processing_erase:
  "easy_processing sq d r s = Some a \<Longrightarrow> erase a = s"
  "easy_processing_stmts sq d r ss = Some as \<Longrightarrow> map erase as = ss"
proof (induction sq d r s and sq d r ss arbitrary: a and as rule: easy_processing_easy_processing_stmts.induct)
  case (12 sq d r s ss)
  then show ?case
    by (cases s) (auto simp: bind_Some_iff simp del: easy_processing.simps split: if_splits)
qed (auto simp: bind_Some_iff split: if_splits)

section \<open>Runs keep types\<close>

definition no_overloads :: "type_facts \<Rightarrow> bool" where
  "no_overloads T \<longleftrightarrow> other_binop T = (\<lambda>op y z. None)"

definition hist_typed :: "type_facts \<Rightarrow> (name \<Rightarrow> ytype option) \<Rightarrow> hist \<Rightarrow> bool" where
  "hist_typed T tau H \<longleftrightarrow> (\<forall>n y. var_type tau n = Some y \<longrightarrow> (\<forall>v \<in> set (H n). has_type T v y))"

lemma hist_typed_append:
  "hist_typed T tau H \<Longrightarrow> (\<And>y. var_type tau n = Some y \<Longrightarrow> has_type T v y) \<Longrightarrow> hist_typed T tau (append_hist n v H)"
  by (simp add: hist_typed_def append_hist_def del: var_type.simps)

lemma binop_value_typed:
  assumes "no_overloads T" "binop_yield T op y z = Some t" "has_type T v y"
  shows "decided op v = Some w \<Longrightarrow> has_type T w t"
    and "has_type T u z \<Longrightarrow> binop_value op v u = Some w \<Longrightarrow> has_type T w t"
  using assms
  by (auto simp: no_overloads_def binop_yield_def binops_def decided_def binop_value_def int_binop_def
      int_result_def bind_Some_iff split: if_splits)

lemma src_expr_typed:
  assumes "no_overloads T" "hist_typed T tau H"
  shows "src_expr e H = Some v \<Longrightarrow> typed_expr T tau e \<Longrightarrow> has_type T v (expr_yield e)"
proof (induction e arbitrary: v)
  case (LE_FieldReference l y s f)
  then show ?case by (auto simp: bind_Some_iff intro: field_has_type)
next
  case (LE_VarReference l y n)
  show ?case
  proof (cases "n \<in> {''true'', ''false'', ''default list''}")
    case True
    then show ?thesis using LE_VarReference by (auto simp: src_get_def)
  next
    case False
    then have "v \<in> set (H n)" using LE_VarReference(1) by (auto simp: src_get_def split: if_splits)
    then show ?thesis using assms(2) LE_VarReference(2) by (simp add: hist_typed_def del: var_type.simps)
  qed
next
  case (LE_BinOp l y op a b)
  obtain x where x: "src_expr a H = Some x"
    and v: "decided op x = Some v \<or> (\<exists>z. src_expr b H = Some z \<and> binop_value op x z = Some v)"
    using LE_BinOp.prems(1) by (cases "decided op (the (src_expr a H))") (auto simp: bind_Some_iff)
  have t: "typed_expr T tau a" "typed_expr T tau b" "binop_yield T op (expr_yield a) (expr_yield b) = Some y"
    using LE_BinOp.prems(2) by simp_all
  have "has_type T x (expr_yield a)" by (rule LE_BinOp.IH(1)[OF x t(1)])
  with v binop_value_typed[OF assms(1) t(3)] LE_BinOp.IH(2)[OF _ t(2)] show ?case by auto
qed auto

lemma src_assignment_typed:
  assumes "no_overloads T" "hist_typed T tau H" "src_assignment v e H = Some H'"
    and "typed_expr T tau v" "typed_expr T tau e" "expr_yield v = expr_yield e"
  shows "hist_typed T tau H'"
proof -
  obtain x where x: "src_expr e H = Some x"
    using assms(3) by (auto simp: src_assignment_def bind_Some_iff split: lexpr.splits if_splits)
  have xt: "has_type T x (expr_yield v)" using src_expr_typed[OF assms(1,2) x assms(5)] assms(6) by simp
  consider l y n where "v = LE_VarReference l y n" "H' = append_hist n x H"
    | l1 y1 l2 y2 n f w where "v = LE_FieldReference l1 y1 (LE_VarReference l2 y2 n) f"
      "H n \<noteq> []" "set_field f x (last (H n)) = Some w" "H' = append_hist n w H"
    using assms(3) x by (auto simp: src_assignment_def bind_Some_iff split: lexpr.splits if_splits)
  then show ?thesis
  proof cases
    case 1
    then show ?thesis using assms(2,4) xt by (auto intro!: hist_typed_append simp del: var_type.simps)
  next
    case 2
    then obtain ts where ts: "struct_fields T y2 = Some ts" "map_of ts f = Some y1" and n: "var_type tau n = Some y2"
      using assms(4) by (auto simp del: var_type.simps)
    have "has_type T (last (H n)) y2" using assms(2) n 2(2) by (simp add: hist_typed_def del: var_type.simps)
    from set_field_has_type[OF this ts _ 2(3)] xt 2(1) have "has_type T w y2" by simp
    then show ?thesis using assms(2) n 2(4) by (auto intro!: hist_typed_append simp del: var_type.simps)
  qed
qed

text \<open>What a run guarantees: typed histories, and a result of one of the types that the program returns.\<close>

definition result_typed :: "type_facts \<Rightarrow> (name \<Rightarrow> ytype option) \<Rightarrow> ytype list \<Rightarrow> mvalue option \<times> hist \<Rightarrow> bool" where
  "result_typed T tau ys res \<longleftrightarrow>
     hist_typed T tau (snd res) \<and> (\<forall>v. fst res = Some v \<longrightarrow> (\<exists>y \<in> set ys. has_type T v y))"

lemma result_typed_mono: "result_typed T tau ys res \<Longrightarrow> set ys \<subseteq> set zs \<Longrightarrow> result_typed T tau zs res"
  unfolding result_typed_def by blast

definition keeps_types :: "type_facts \<Rightarrow> (name \<Rightarrow> ytype option) \<Rightarrow> nstmt \<Rightarrow> bool" where
  "keeps_types T tau a \<longleftrightarrow>
     (\<forall>k H res. src_stmt k a H = Some res \<longrightarrow> hist_typed T tau H \<longrightarrow> result_typed T tau (return_types (erase a)) res)"

lemma keeps_typesD:
  "keeps_types T tau a \<Longrightarrow> src_stmt k a H = Some (ret, H') \<Longrightarrow> hist_typed T tau H \<Longrightarrow>
     hist_typed T tau H' \<and> (\<forall>v. ret = Some v \<longrightarrow> (\<exists>y \<in> set (return_types (erase a)). has_type T v y))"
  by (auto simp: keeps_types_def result_typed_def)

lemma src_stmts_typed:
  "src_stmts k ss H = Some res \<Longrightarrow> \<forall>s \<in> set ss. keeps_types T tau s \<Longrightarrow> hist_typed T tau H \<Longrightarrow>
     result_typed T tau (concat (map (return_types \<circ> erase) ss)) res"
proof (induction ss arbitrary: H)
  case (Cons s ss)
  have s: "keeps_types T tau s" using Cons.prems(2) by simp
  from Cons.prems(1) consider
      H1 where "src_stmt k s H = Some (None, H1)" "src_stmts k ss H1 = Some res"
    | v H1 where "src_stmt k s H = Some (Some v, H1)" "res = (Some v, H1)"
    unfolding src_stmts_Cons_iff by blast
  then show ?case
  proof cases
    case 1
    have "hist_typed T tau H1" using keeps_typesD[OF s 1(1) Cons.prems(3)] by simp
    from Cons.IH[OF 1(2) _ this] Cons.prems(2) show ?thesis by (auto intro: result_typed_mono)
  next
    case 2
    then show ?thesis using keeps_typesD[OF s 2(1) Cons.prems(3)] by (auto simp: result_typed_def)
  qed
qed (auto simp: result_typed_def)

lemma src_stmt_typed:
  assumes "no_overloads T"
  shows "typed_stmt T tau (erase a) \<Longrightarrow> \<forall>n \<in> loop_names a. var_type tau n = None \<Longrightarrow> keeps_types T tau a"
proof (induction a)
  case (NS_Let l b s)
  obtain bl y n e where b: "b = LBinding bl y n e" by (cases b)
  have t: "typed_expr T tau e" "expr_yield e = y" "var_type tau n = Some y" "keeps_types T tau s"
    using NS_Let b by (auto simp del: var_type.simps)
  show ?case unfolding keeps_types_def
  proof (intro allI impI)
    fix k H res assume "src_stmt k (NS_Let l b s) H = Some res" and H: "hist_typed T tau H"
    then obtain v where v: "src_expr e H = Some v" and r: "src_stmt k s (append_hist n v H) = Some res"
      using b by (auto simp: bind_Some_iff)
    have "hist_typed T tau (append_hist n v H)"
      using src_expr_typed[OF assms H v t(1)] t(2,3) H by (auto intro!: hist_typed_append simp del: var_type.simps)
    with t(4) r have "result_typed T tau (return_types (erase s)) res"
      unfolding keeps_types_def by blast
    then show "result_typed T tau (return_types (erase (NS_Let l b s))) res" by simp
  qed
next
  case (NS_Assignment l v e)
  then show ?case
    by (auto simp: keeps_types_def result_typed_def bind_Some_iff dest: src_assignment_typed[OF assms])
next
  case (NS_Return e)
  then show ?case
    by (auto simp: keeps_types_def result_typed_def bind_Some_iff dest: src_expr_typed[OF assms])
next
  case (NS_If l c t e)
  then have t: "keeps_types T tau t" "keeps_types T tau e" by (auto simp del: var_type.simps)
  show ?case unfolding keeps_types_def src_If_iff
  proof (intro allI impI, elim exE conjE)
    fix k H res b assume "src_stmt k (if b then t else e) H = Some res" and H: "hist_typed T tau H"
    moreover have "keeps_types T tau (if b then t else e)" using t by simp
    ultimately have "result_typed T tau (return_types (erase (if b then t else e))) res"
      unfolding keeps_types_def by blast
    then show "result_typed T tau (return_types (erase (NS_If l c t e))) res"
      by (auto intro: result_typed_mono split: if_splits)
  qed
next
  case (NS_While l c s n)
  have s: "keeps_types T tau s" and n: "var_type tau n = None"
    using NS_While by (auto simp del: var_type.simps)
  show ?case unfolding keeps_types_def src_While_iff
  proof (intro allI impI, elim exE conjE)
    fix k H i H1 and res :: "mvalue option \<times> hist" assume w: "src_while k c s 0 H = Some (i, H1)" and H: "hist_typed T tau H"
      and res: "res = (None, append_hist n (V_size i) H1)"
    have "hist_typed T tau H \<longrightarrow> hist_typed T tau H1"
      by (rule src_while_induct[OF _ _ _ w, where R = "\<lambda>H H'. hist_typed T tau H \<longrightarrow> hist_typed T tau H'"])
        (use keeps_typesD[OF s] in blast)+
    with H n have "hist_typed T tau (append_hist n (V_size i) H1)"
      by (auto intro!: hist_typed_append simp del: var_type.simps)
    then show "result_typed T tau (return_types (erase (NS_While l c s n))) res"
      using res by (simp add: result_typed_def)
  qed
next
  case (NS_Sequence l ss)
  then have "\<forall>s \<in> set ss. keeps_types T tau s" by (auto simp del: var_type.simps)
  from src_stmts_typed[OF _ this] have "keeps_types T tau (NS_Sequence l ss)"
    unfolding keeps_types_def by (simp del: split_paired_All)
  then show ?case .
qed (simp_all add: keeps_types_def)

text \<open>C8: what the type checker accepts keeps its types when it runs.  Let a program type check, let
  its labels be inferred and its loops named, and let \<open>tau\<close> be one type for each variable, for those
  the program binds and for its arguments.  Then a run that starts from arguments of their types
  gives every variable values of its type only, and returns a value of a type that the program
  returns.  (Operators are those of \<open>int\<close> and \<open>bool\<close>.)\<close>

theorem typecheck_sound:
  assumes "typecheck_transaction T args p = Some c" "infer_labels csort dedupe srt c = Some i"
    and "easy_processing_pass i = Some a" "no_overloads T"
    and "env_typed tau (start_env args)" "binders_typed tau c" "\<forall>n \<in> loop_names a. var_type tau n = None"
    and "hist_typed T tau H" "src_stmt k a H = Some (ret, F)"
  shows "hist_typed T tau F \<and> (\<forall>v. ret = Some v \<longrightarrow> (\<exists>y \<in> set (return_types c). has_type T v y))"
proof -
  have "typed_stmt T tau c"
    using assms(1,5,6) typecheck_stmt_typed(1) by (auto simp: typecheck_transaction_def)
  moreover have a: "erase a = i" using assms(3) easy_processing_erase(1) by (auto simp: easy_processing_pass_def)
  ultimately have "keeps_types T tau a"
    using src_stmt_typed[OF assms(4) _ assms(7)] infer_labels_typed(1)[OF assms(2)] by simp
  from keeps_typesD[OF this assms(9,8)] show ?thesis using a infer_labels_typed(2)[OF assms(2)] by simp
qed

text \<open>\<open>while (b) \{ x = x + x; b = x < n \}; return x\<close>, for arguments \<open>b\<close>, \<open>x\<close> and \<open>n\<close>.\<close>

definition doubling :: stmt where
  "doubling = S_Sequence
     [S_While (E_VarReference ''b'')
        (S_Sequence
          [S_Let ''t'' (E_BinOp CHR ''+'' (E_VarReference ''x'') (E_VarReference ''x''))
             (S_Assignment (E_VarReference ''x'') (E_VarReference ''t'')),
           S_Let ''u'' (E_BinOp CHR ''<'' (E_VarReference ''x'') (E_VarReference ''n''))
             (S_Assignment (E_VarReference ''b'') (E_VarReference ''u''))]),
      S_Return (E_VarReference ''x'')]"

definition doubling_args :: "vbinding list" where
  "doubling_args = [TypeBinding ''b'' Y_bool Top False, TypeBinding ''x'' Y_int Top False, TypeBinding ''n'' Y_int Top False]"

definition doubling_types :: "name \<Rightarrow> ytype option" where
  "doubling_types = map_of [(''b'', Y_bool), (''x'', Y_int), (''n'', Y_int), (''t'', Y_int), (''u'', Y_bool)]"

definition plain_types :: type_facts where
  "plain_types = \<lparr>struct_fields = (\<lambda>y. None), operation_type = (\<lambda>y n. None), other_binop = (\<lambda>op y z. None)\<rparr>"

definition doubling_start :: hist where
  "doubling_start = (\<lambda>_. [])(''b'' := [V_bool True], ''x'' := [V_int 1], ''n'' := [V_int 4])"

definition doubling_checked :: lstmt where
  "doubling_checked = the (typecheck_transaction plain_types doubling_args doubling)"

definition doubling_inferred :: lstmt where
  "doubling_inferred = the (infer_labels (sort_by lte) remdups label_sort doubling_checked)"

definition doubling_named :: nstmt where
  "doubling_named = the (easy_processing_pass doubling_inferred)"

theorem typecheck_sound_witness:
  "\<exists>ret F. src_stmt 3 doubling_named doubling_start = Some (ret, F) \<and> ret = Some (V_int 4) \<and>
     hist_typed plain_types doubling_types F \<and> return_types doubling_checked = [Y_int]"
proof -
  let ?r = "the (src_stmt 3 doubling_named doubling_start)"
  have c: "typecheck_transaction plain_types doubling_args doubling = Some doubling_checked" by code_simp
  have i: "infer_labels (sort_by lte) remdups label_sort doubling_checked = Some doubling_inferred" by code_simp
  have a: "easy_processing_pass doubling_inferred = Some doubling_named" by code_simp
  have "src_stmt 3 doubling_named doubling_start \<noteq> None" by code_simp
  then have r: "src_stmt 3 doubling_named doubling_start = Some (fst ?r, snd ?r)" by auto
  have ret: "fst ?r = Some (V_int 4)" by code_simp
  have types: "return_types doubling_checked = [Y_int]" by code_simp
  have env: "env_typed doubling_types (start_env doubling_args)"
    by (simp add: env_typed_def start_env_def doubling_args_def doubling_types_def true_binding_def
        false_binding_def list_binding_def)
  have binders: "binders_typed doubling_types doubling_checked" by code_simp
  have loops: "\<forall>n \<in> loop_names doubling_named. var_type doubling_types n = None" by code_simp
  have start: "hist_typed plain_types doubling_types doubling_start"
    by (simp add: hist_typed_def doubling_start_def doubling_types_def)
  have "no_overloads plain_types" by (simp add: no_overloads_def plain_types_def)
  from typecheck_sound[OF c i a this env binders loops start r] ret types r show ?thesis by auto
qed

end
