(* ===== verification/TypeExamples.thy ===== *)
theory TypeExamples
  imports Typecheck LabelInference
begin

text \<open>
  The temporary of a variable is made of the sequence number and the depth at which it is bound, and two
  variables can have the same.  Type checking and label inference on programs where they do.
\<close>

section \<open>Which variables share a temporary\<close>

lemma typecheck_seq_nth:
  assumes "typecheck_seq T env s d ss = Some cs" "i < length ss"
  shows "i < length cs" "typecheck_stmt T env (s + int i) d (ss ! i) = Some (cs ! i)"
proof -
  have "i < length cs \<and> typecheck_stmt T env (s + int i) d (ss ! i) = Some (cs ! i)"
    using assms
  proof (induction ss arbitrary: s cs i)
    case (Cons st ss)
    then show ?case by (cases i) (force simp: bind_Some_iff algebra_simps)+
  qed simp
  then show "i < length cs" "typecheck_stmt T env (s + int i) d (ss ! i) = Some (cs ! i)" by simp_all
qed

lemma typecheck_let_temp:
  assumes "typecheck_stmt T env s d (S_Let x e body) = Some c"
  shows "\<exists>l y e1 b. c = LS_Let l (LBinding (Temp s d) y x e1) b"
  using assms by (auto simp: bind_Some_iff)

section \<open>Programs\<close>

definition strong_int_handle :: ytype where
  "strong_int_handle = Y_Handle Strong Y_int []"

definition causal_int_handle :: ytype where
  "causal_int_handle = Y_Handle Causal Y_int []"

definition handle_args :: "vbinding list" where
  "handle_args = [TypeBinding ''hs'' strong_int_handle Top False, TypeBinding ''hc'' causal_int_handle Top False]"

definition no_types :: type_facts where
  "no_types = \<lparr>struct_fields = (\<lambda>y. None), operation_type = (\<lambda>y n. None), other_binop = (\<lambda>op y z. None)\<rparr>"

definition accepted :: "stmt list \<Rightarrow> bool" where
  "accepted ss \<longleftrightarrow>
     (case typecheck_transaction no_types handle_args (S_Sequence ss) of
        Some c \<Rightarrow> infer_labels (sort_by lte) remdups label_sort c \<noteq> None
      | None \<Rightarrow> False)"

text \<open>\<open>a = 1; (skip; remote c = hc; skip)\<close>\<close>

definition reads_causal :: stmt where
  "reads_causal = S_Let ''a'' (E_Constant 1)
     (S_Sequence [S_Sequence [], S_LetRemote ''c'' (E_VarReference ''hc'') (S_Sequence [])])"

text \<open>\<open>b = 1; y = 0; remote r = hs; r = y\<close>\<close>

definition writes_strong :: stmt where
  "writes_strong = S_Let ''b'' (E_Constant 1) (S_Let ''y'' (E_Constant 0)
     (S_LetRemote ''r'' (E_VarReference ''hs'') (S_Assignment (E_VarReference ''r'') (E_VarReference ''y''))))"

text \<open>C23: two variables share a temporary label (\<open>temp_label<seqnum,depth>\<close>) when the first is
  bound by the \<open>j\<close>th statement of a sequence that is itself the \<open>i\<close>th statement of a sequence, and the
  second by the statement \<open>i + j\<close> of the outer one, whatever is bound and wherever it is used: the
  statements of the inner sequence are numbered from the position of the sequence, at the same depth.\<close>

theorem temporaries_shared:
  assumes "typecheck_stmt T env s d (S_Sequence ss) = Some (LS_Sequence pc cs)"
    and "i + j < length ss" "0 < j" "ss ! i = S_Sequence ts" "j < length ts"
    and "ts ! j = S_Let x e body" "ss ! (i + j) = S_Let x' e' body'"
  shows "\<exists>l cs' l1 y1 e1 b1 l2 y2 e2 b2. cs ! i = LS_Sequence l cs' \<and>
     cs' ! j = LS_Let l1 (LBinding (Temp (s + int (i + j)) d) y1 x e1) b1 \<and>
     cs ! (i + j) = LS_Let l2 (LBinding (Temp (s + int (i + j)) d) y2 x' e2) b2"
proof -
  have cs: "typecheck_seq T env s d ss = Some cs" using assms(1) by (auto simp: bind_Some_iff)
  have inner: "typecheck_stmt T env (s + int i) d (S_Sequence ts) = Some (cs ! i)"
    and outer: "typecheck_stmt T env (s + int (i + j)) d (S_Let x' e' body') = Some (cs ! (i + j))"
    using typecheck_seq_nth(2)[OF cs, of i] typecheck_seq_nth(2)[OF cs, of "i + j"] assms by auto
  from inner obtain cs' where cs': "typecheck_seq T env (s + int i) d ts = Some cs'" "cs ! i = LS_Sequence (pc_label env) cs'"
    by (auto simp: bind_Some_iff)
  have "typecheck_stmt T env (s + int (i + j)) d (S_Let x e body) = Some (cs' ! j)"
    using typecheck_seq_nth(2)[OF cs'(1), of j] assms by (simp add: algebra_simps)
  from typecheck_let_temp[OF this] typecheck_let_temp[OF outer] cs'(2) show ?thesis by blast
qed

text \<open>\<open>a = 1\<close> before a causal read and \<open>b = 1\<close> before a strong write have one temporary.\<close>

theorem temporaries_shared_witness:
  "\<exists>cs l cs' l1 y1 e1 b1 l2 y2 e2 b2.
     typecheck_transaction no_types handle_args (S_Sequence [S_Sequence [S_Sequence [], reads_causal], writes_strong]) =
       Some (LS_Sequence Top cs) \<and> cs ! 0 = LS_Sequence l cs' \<and>
     cs' ! 1 = LS_Let l1 (LBinding (Temp 2 1) y1 ''a'' e1) b1 \<and> cs ! 1 = LS_Let l2 (LBinding (Temp 2 1) y2 ''b'' e2) b2"
proof -
  let ?p = "S_Sequence [S_Sequence [S_Sequence [], reads_causal], writes_strong]"
  have "typecheck_stmt no_types (start_env handle_args) 1 1 ?p \<noteq> None" by code_simp
  then obtain cs where cs: "typecheck_stmt no_types (start_env handle_args) 1 1 ?p = Some (LS_Sequence Top cs)"
    by (auto simp: bind_Some_iff start_env_def)
  have "\<exists>l cs' l1 y1 e1 b1 l2 y2 e2 b2. cs ! 0 = LS_Sequence l cs' \<and>
      cs' ! 1 = LS_Let l1 (LBinding (Temp (1 + int (0 + 1)) 1) y1 ''a'' e1) b1 \<and>
      cs ! (0 + 1) = LS_Let l2 (LBinding (Temp (1 + int (0 + 1)) 1) y2 ''b'' e2) b2"
    by (rule temporaries_shared[OF cs, where ts = "[S_Sequence [], reads_causal]"]) (simp_all add: reads_causal_def writes_strong_def)
  then have "\<exists>l cs' l1 y1 e1 b1 l2 y2 e2 b2. cs ! 0 = LS_Sequence l cs' \<and>
      cs' ! 1 = LS_Let l1 (LBinding (Temp 2 1) y1 ''a'' e1) b1 \<and>
      cs ! 1 = LS_Let l2 (LBinding (Temp 2 1) y2 ''b'' e2) b2" by simp
  with cs show ?thesis unfolding typecheck_transaction_def by blast
qed

text \<open>Inference gives both variables the same label.  A statement that reads a causal object followed by one that
  writes a strong object is rejected for it, although each of them is accepted on its own, and both are in
  the other order.\<close>

lemma shared_temporary_rejected:
  "accepted [reads_causal] \<and> accepted [writes_strong] \<and> accepted [writes_strong, reads_causal] \<and>
   \<not> accepted [reads_causal, writes_strong]"
  by code_simp

end
