(* ===== verification/InsertTracking.thy ===== *)
theory InsertTracking
  imports LabelInference Runtime
begin

text \<open>
  The pass that makes a transaction announce its strong writes to causal readers:
  \<open>mtl/insert_tracking.hpp\<close> and \<open>mtl/writes_remote.hpp\<close>.  The program is put under a new tombstone, which
  is written at every label that takes part in tracking, and every write of a remote variable at a
  strong label is accompanied.

  A set of types of \<open>mutils\<close> is the list that it is read back as; the parameter \<open>as_set\<close> makes such a
  list of the elements in the order in which they are added.
\<close>

section \<open>Which labels track which\<close>

text \<open>A \<open>tracking_pair\<close>: the strong labels and the weak ones.\<close>

type_synonym tracking_pair = "label list \<times> label list"

text \<open>Two labels that track against each other match two overloads.\<close>

definition needs_tracking :: "label \<Rightarrow> label \<Rightarrow> tracking_pair option" where
  "needs_tracking l1 l2 = do {
     a \<leftarrow> tracks_against l1 l2;
     b \<leftarrow> tracks_against l2 l1;
     (if a \<and> b then None
      else if a then Some ([l2], [l1])
      else if b then Some ([l1], [l2])
      else Some ([], [])) }"

fun tracked_labels :: "(label list \<Rightarrow> label list) \<Rightarrow> label list \<Rightarrow> tracking_pair option" where
  "tracked_labels as_set [] = Some ([], [])"
| "tracked_labels as_set (l1 # ls) = do {
     (strongs, weaks) \<leftarrow> tracked_labels as_set ls;
     ps \<leftarrow> those (map (needs_tracking l1) ls);
     Some (as_set (concat (map fst ps) @ strongs), as_set (concat (map snd ps) @ weaks)) }"

fun any_pair_tracks :: "label list \<Rightarrow> bool option" where
  "any_pair_tracks [] = Some False"
| "any_pair_tracks (l1 # ls) = do {
     bs \<leftarrow> those (map (tracks_against l1) ls);
     rest \<leftarrow> any_pair_tracks ls;
     Some (True \<in> set bs \<or> rest) }"

section \<open>Remote writes\<close>

text \<open>\<open>is_remote_bound\<close>, and \<open>bottoms_out_at_remote\<close>, which is the same: is the variable at the bottom of a
  target a remote one?\<close>

fun is_remote_bound :: "name list \<Rightarrow> lexpr \<Rightarrow> bool option" where
  "is_remote_bound rs (LE_VarReference l y v) = Some (v \<in> set rs)"
| "is_remote_bound rs (LE_FieldReference l y s f) = is_remote_bound rs s"
| "is_remote_bound rs _ = None"

fun writes_remote :: "name list \<Rightarrow> lstmt \<Rightarrow> bool option"
  and writes_remote_seq :: "name list \<Rightarrow> lstmt list \<Rightarrow> bool option" where
  "writes_remote rs (LS_Let l b s) = writes_remote rs s"
| "writes_remote rs (LS_LetRemote l (LBinding bl y v e) s) = writes_remote (v # rs) s"
| "writes_remote rs (LS_Operation l n h as) = Some False"
| "writes_remote rs (LS_If l c t e) = do {
     a \<leftarrow> writes_remote rs t; b \<leftarrow> writes_remote rs e; Some (a \<or> b) }"
| "writes_remote rs (LS_While l c s) = writes_remote rs s"
| "writes_remote rs (LS_Assignment l v e) = is_remote_bound rs v"
| "writes_remote rs (LS_Return e) = Some False"
| "writes_remote rs (LS_Sequence l ss) = writes_remote_seq rs ss"
| "writes_remote rs (LS_WriteTombstone l e) = None"
| "writes_remote rs (LS_AccompanyWrite l e) = None"
| "writes_remote_seq rs [] = Some False"
| "writes_remote_seq rs (s # ss) = do {
     a \<leftarrow> writes_remote rs s; b \<leftarrow> writes_remote_seq rs ss; Some (a \<or> b) }"

definition begin_writes_remote :: "lstmt \<Rightarrow> bool option" where
  "begin_writes_remote s = writes_remote [] s"

section \<open>Inserting the statements\<close>

text \<open>An accompanied write has the label of its target.\<close>

fun insert_tracking :: "label list \<Rightarrow> name list \<Rightarrow> lstmt \<Rightarrow> lstmt option"
  and insert_tracking_seq :: "label list \<Rightarrow> name list \<Rightarrow> lstmt list \<Rightarrow> lstmt list option" where
  "insert_tracking strongs rs (LS_Assignment l v e) = do {
     remote \<leftarrow> is_remote_bound rs v;
     (if l \<in> set strongs \<and> remote
      then (if expr_label v = l
            then Some (LS_Sequence l [LS_Assignment l v e, LS_AccompanyWrite l v]) else None)
      else Some (LS_Assignment l v e)) }"
| "insert_tracking strongs rs (LS_Return e) = Some (LS_Return e)"
| "insert_tracking strongs rs (LS_Let l b s) = do {
     s \<leftarrow> insert_tracking strongs rs s; Some (LS_Let l b s) }"
| "insert_tracking strongs rs (LS_LetRemote l (LBinding bl y v e) s) = do {
     s \<leftarrow> insert_tracking strongs (v # rs) s; Some (LS_LetRemote l (LBinding bl y v e) s) }"
| "insert_tracking strongs rs (LS_Operation l n h as) = Some (LS_Operation l n h as)"
| "insert_tracking strongs rs (LS_If l c t e) = do {
     t \<leftarrow> insert_tracking strongs rs t; e \<leftarrow> insert_tracking strongs rs e; Some (LS_If l c t e) }"
| "insert_tracking strongs rs (LS_While l c s) = do {
     s \<leftarrow> insert_tracking strongs rs s; Some (LS_While l c s) }"
| "insert_tracking strongs rs (LS_Sequence l ss) = do {
     ss \<leftarrow> insert_tracking_seq strongs rs ss; Some (LS_Sequence l ss) }"
| "insert_tracking strongs rs (LS_WriteTombstone l e) = None"
| "insert_tracking strongs rs (LS_AccompanyWrite l e) = None"
| "insert_tracking_seq strongs rs [] = Some []"
| "insert_tracking_seq strongs rs (s # ss) = do {
     s \<leftarrow> insert_tracking strongs rs s; ss \<leftarrow> insert_tracking_seq strongs rs ss; Some (s # ss) }"

definition tombstone_var :: "label \<Rightarrow> lexpr" where
  "tombstone_var l = LE_VarReference l Y_Tombstone tombstone_str"

definition write_tombstones :: "label list \<Rightarrow> lstmt list" where
  "write_tombstones ls = map (\<lambda>l. LS_WriteTombstone l (tombstone_var l)) ls"

definition make_tracking_choice ::
  "(label list \<Rightarrow> label list) \<Rightarrow> lstmt \<Rightarrow> bool \<Rightarrow> label list \<Rightarrow> label list \<Rightarrow> label list \<Rightarrow> lstmt option" where
  "make_tracking_choice as_set a required labels extra_strong extra_weak =
     (if required then do {
        (strongs, weaks) \<leftarrow> tracked_labels as_set labels;
        let strongs = as_set (strongs @ extra_strong);
        let weaks = as_set (weaks @ extra_weak);
        a \<leftarrow> insert_tracking strongs [] a;
        Some (LS_Let Top (LBinding Top Y_Tombstone tombstone_str (LE_GenerateTombstone Top))
          (LS_Sequence Top [LS_Sequence Top (write_tombstones (as_set (weaks @ strongs))), a])) }
      else Some a)"

text \<open>The extra labels are those of a transaction that must be tracked whatever its own labels are
  (\<open>tombstone_enhanced_txn\<close>).\<close>

definition insert_tracking_begin ::
  "(label list \<Rightarrow> label list) \<Rightarrow> (label list \<Rightarrow> label list) \<Rightarrow> label list \<Rightarrow> lstmt \<Rightarrow> lstmt option" where
  "insert_tracking_begin as_set as_sorted_list extra a = do {
     let labels = collect_proper_labels as_sorted_list a @ extra;
     writes \<leftarrow> begin_writes_remote a;
     up \<leftarrow> any_pair_tracks labels;
     down \<leftarrow> any_pair_tracks (rev labels);
     ts \<leftarrow> those (map traits extra);
     make_tracking_choice as_set a (writes \<and> (up \<or> down \<or> extra \<noteq> [])) labels
       (as_set (map fst (filter (\<lambda>(l, t). \<not> might_track t) (zip extra ts))))
       (as_set (map fst (filter (\<lambda>(l, t). might_track t) (zip extra ts)))) }"

section \<open>What tracking guarantees\<close>

text \<open>Two places of the list whose labels track one against the other.\<close>

fun tracks_in :: "label list \<Rightarrow> label \<Rightarrow> label \<Rightarrow> bool" where
  "tracks_in [] l m = False"
| "tracks_in (k # ls) l m =
     (tracks_against l m = Some True \<and> (k = l \<and> m \<in> set ls \<or> k = m \<and> l \<in> set ls) \<or> tracks_in ls l m)"

text \<open>A label that another label of the transaction tracks_in against, and one that tracks_in against another.\<close>

definition strong_labels :: "label list \<Rightarrow> label set" where
  "strong_labels ls = {m. \<exists>l. tracks_in ls l m}"

definition weak_labels :: "label list \<Rightarrow> label set" where
  "weak_labels ls = {l. \<exists>m. tracks_in ls l m}"

lemma tracks_append:
  "tracks_in (ls @ ms) l m \<longleftrightarrow> tracks_in ls l m \<or> tracks_in ms l m \<or>
     tracks_against l m = Some True \<and> (l \<in> set ls \<and> m \<in> set ms \<or> m \<in> set ls \<and> l \<in> set ms)"
  by (induction ls) auto

lemma tracks_rev: "tracks_in (rev ls) l m = tracks_in ls l m"
  by (induction ls) (auto simp: tracks_append)

text \<open>Both directions of the list together find every pair.\<close>

lemma any_pair_tracks_sound: "any_pair_tracks ls = Some True \<Longrightarrow> \<exists>l m. tracks_in ls l m"
proof (induction ls)
  case (Cons k ls)
  then obtain bs rest where bs: "those (map (tracks_against k) ls) = Some bs"
    and rest: "any_pair_tracks ls = Some rest" "True \<in> set bs \<or> rest"
    by (auto simp: bind_Some_iff)
  show ?case
  proof (cases "True \<in> set bs")
    case True
    then obtain m where "m \<in> set ls" "tracks_against k m = Some True"
      using those_map_mem_back[OF bs] by blast
    then have "tracks_in (k # ls) k m" by simp
    then show ?thesis by blast
  next
    case False
    with rest Cons.IH obtain l m where "tracks_in ls l m" by auto
    then have "tracks_in (k # ls) l m" by simp
    then show ?thesis by blast
  qed
qed simp

fun tracks_down :: "label list \<Rightarrow> label \<Rightarrow> label \<Rightarrow> bool" where
  "tracks_down [] l m = False"
| "tracks_down (k # ls) l m =
     (tracks_against l m = Some True \<and> k = l \<and> m \<in> set ls \<or> tracks_down ls l m)"

lemma any_pair_tracks_complete: "any_pair_tracks ls = Some b \<Longrightarrow> tracks_down ls l m \<Longrightarrow> b"
  by (induction ls arbitrary: b) (auto simp: bind_Some_iff dest!: those_map_mem)

lemma tracks_down_append:
  "tracks_down (ls @ ms) l m \<longleftrightarrow> tracks_down ls l m \<or> tracks_down ms l m \<or>
     tracks_against l m = Some True \<and> l \<in> set ls \<and> m \<in> set ms"
  by (induction ls) auto

lemma tracks_directions: "tracks_in ls l m \<longleftrightarrow> tracks_down ls l m \<or> tracks_down (rev ls) l m"
  by (induction ls) (auto simp: tracks_down_append)

text \<open>The tracked labels are all of them.\<close>

lemma needs_tracking_tracks:
  assumes "needs_tracking k x = Some p" "tracks_against l m = Some True" "k = l \<and> x = m \<or> k = m \<and> x = l"
  shows "m \<in> set (fst p) \<and> l \<in> set (snd p)"
  using assms by (auto simp: needs_tracking_def bind_Some_iff split: if_splits)

lemma needs_tracking_sound:
  assumes "needs_tracking k x = Some p" "x \<in> set ls"
  shows "m \<in> set (fst p) \<Longrightarrow> \<exists>l. tracks_in (k # ls) l m" "l \<in> set (snd p) \<Longrightarrow> \<exists>m. tracks_in (k # ls) l m"
proof -
  have "set (fst p) \<union> set (snd p) = {} \<or>
      fst p = [x] \<and> snd p = [k] \<and> tracks_against k x = Some True \<or>
      fst p = [k] \<and> snd p = [x] \<and> tracks_against x k = Some True"
    using assms(1) by (auto simp: needs_tracking_def bind_Some_iff split: if_splits)
  with assms(2) show "m \<in> set (fst p) \<Longrightarrow> \<exists>l. tracks_in (k # ls) l m" "l \<in> set (snd p) \<Longrightarrow> \<exists>m. tracks_in (k # ls) l m"
    by auto
qed

lemma tracked_labels_exact:
  assumes "keeps_elements as_set"
  shows "tracked_labels as_set ls = Some (strongs, weaks) \<Longrightarrow> set strongs = strong_labels ls \<and> set weaks = weak_labels ls"
proof (induction ls arbitrary: strongs weaks)
  case Nil
  then show ?case by (simp add: strong_labels_def weak_labels_def)
next
  case (Cons k ls)
  obtain ss ws ps where rec: "tracked_labels as_set ls = Some (ss, ws)" and ps: "those (map (needs_tracking k) ls) = Some ps"
    and eq: "strongs = as_set (concat (map fst ps) @ ss)" "weaks = as_set (concat (map snd ps) @ ws)"
    using Cons.prems(1) by (auto simp: bind_Some_iff)
  have sets: "set strongs = (\<Union>p \<in> set ps. set (fst p)) \<union> strong_labels ls" "set weaks = (\<Union>p \<in> set ps. set (snd p)) \<union> weak_labels ls"
    using assms eq Cons.IH[OF rec] by (auto simp: keeps_elements_def)
  have up: "strong_labels ls \<subseteq> strong_labels (k # ls)" "weak_labels ls \<subseteq> weak_labels (k # ls)"
    by (auto simp: strong_labels_def weak_labels_def)
  have found: "m \<in> set strongs \<and> l \<in> set weaks" if tr: "tracks_in (k # ls) l m" for l m
  proof (cases "tracks_in ls l m")
    case True
    then show ?thesis using sets by (auto simp: strong_labels_def weak_labels_def)
  next
    case False
    then obtain x where t: "tracks_against l m = Some True" "x \<in> set ls" "k = l \<and> x = m \<or> k = m \<and> x = l"
      using tr by auto
    obtain p where "p \<in> set ps" "needs_tracking k x = Some p" using those_map_mem[OF ps t(2)] by blast
    then show ?thesis using needs_tracking_tracks[OF _ t(1,3)] sets by blast
  qed
  have sound: "set (fst p) \<subseteq> strong_labels (k # ls) \<and> set (snd p) \<subseteq> weak_labels (k # ls)" if p: "p \<in> set ps" for p
  proof -
    obtain x where x: "x \<in> set ls" "needs_tracking k x = Some p" using those_map_mem_back[OF ps p] by blast
    have "m \<in> set (fst p) \<Longrightarrow> m \<in> strong_labels (k # ls)" "m \<in> set (snd p) \<Longrightarrow> m \<in> weak_labels (k # ls)" for m
      using needs_tracking_sound[OF x(2,1), of m] by (simp_all add: strong_labels_def weak_labels_def del: tracks_in.simps)
    then show ?thesis by (simp add: subset_eq)
  qed
  have "set strongs \<subseteq> strong_labels (k # ls)" "set weaks \<subseteq> weak_labels (k # ls)"
    unfolding sets using up sound by (intro Un_least UN_least; simp)+
  moreover have "strong_labels (k # ls) \<subseteq> set strongs" "weak_labels (k # ls) \<subseteq> set weaks"
    using found by (auto simp: strong_labels_def weak_labels_def simp del: tracks_in.simps)
  ultimately show ?case by blast
qed

section \<open>What is inserted\<close>

text \<open>The program without its accompanied writes.\<close>

fun untrack :: "lstmt \<Rightarrow> lstmt" where
  "untrack (LS_Sequence l ss) =
     (case ss of
        [LS_Assignment l1 v e, LS_AccompanyWrite l2 v'] \<Rightarrow> LS_Assignment l1 v e
      | _ \<Rightarrow> LS_Sequence l (map untrack ss))"
| "untrack (LS_Let l b s) = LS_Let l b (untrack s)"
| "untrack (LS_LetRemote l b s) = LS_LetRemote l b (untrack s)"
| "untrack (LS_If l c t e) = LS_If l c (untrack t) (untrack e)"
| "untrack (LS_While l c s) = LS_While l c (untrack s)"
| "untrack s = s"

text \<open>The assignments to remote variables at labels of \<open>S\<close>, and no others, are followed by the statement that
  accompanies them.\<close>

fun is_AccompanyWrite :: "lstmt \<Rightarrow> bool" where
  "is_AccompanyWrite (LS_AccompanyWrite l v) = True"
| "is_AccompanyWrite _ = False"

fun accompanied :: "label set \<Rightarrow> name list \<Rightarrow> lstmt \<Rightarrow> bool"
  and accompanied_seq :: "label set \<Rightarrow> name list \<Rightarrow> lstmt list \<Rightarrow> bool" where
  "accompanied S rs (LS_Assignment l v e) \<longleftrightarrow> \<not> (l \<in> S \<and> is_remote_bound rs v = Some True)"
| "accompanied S rs (LS_AccompanyWrite l v) \<longleftrightarrow> False"
| "accompanied S rs (LS_Sequence l ss) \<longleftrightarrow> (case ss of
     [LS_Assignment l1 v e, LS_AccompanyWrite l2 v'] \<Rightarrow>
       l1 = l \<and> l2 = l \<and> v' = v \<and> l \<in> S \<and> is_remote_bound rs v = Some True
   | _ \<Rightarrow> accompanied_seq S rs ss)"
| "accompanied S rs (LS_Let l b s) \<longleftrightarrow> accompanied S rs s"
| "accompanied S rs (LS_LetRemote l (LBinding bl y n e) s) \<longleftrightarrow> accompanied S (n # rs) s"
| "accompanied S rs (LS_If l c t e) \<longleftrightarrow> accompanied S rs t \<and> accompanied S rs e"
| "accompanied S rs (LS_While l c s) \<longleftrightarrow> accompanied S rs s"
| "accompanied S rs (LS_Return e) \<longleftrightarrow> True"
| "accompanied S rs (LS_Operation l n h as) \<longleftrightarrow> True"
| "accompanied S rs (LS_WriteTombstone l e) \<longleftrightarrow> True"
| "accompanied_seq S rs [] \<longleftrightarrow> True"
| "accompanied_seq S rs (s # ss) \<longleftrightarrow> accompanied S rs s \<and> accompanied_seq S rs ss"

lemma insert_tracking_head:
  "insert_tracking strongs rs s = Some s' \<Longrightarrow> \<not> is_AccompanyWrite s'"
  by (cases "(strongs, rs, s)" rule: insert_tracking.cases) (auto simp: bind_Some_iff split: if_splits)

lemma insert_tracking_seq_heads:
  "insert_tracking_seq strongs rs ss = Some ss' \<Longrightarrow> s \<in> set ss' \<Longrightarrow> \<not> is_AccompanyWrite s"
  by (induction ss arbitrary: ss') (auto simp: bind_Some_iff dest: insert_tracking_head)

lemma untrack_sequence:
  "\<forall>s \<in> set ss. \<not> is_AccompanyWrite s \<Longrightarrow> untrack (LS_Sequence l ss) = LS_Sequence l (map untrack ss)"
  by (cases ss rule: remdups_adj.cases; cases "hd (tl ss)") (auto split: list.splits lstmt.splits)

lemma insert_tracking_untrack:
  "insert_tracking strongs rs s = Some s' \<Longrightarrow> untrack s' = s"
  "insert_tracking_seq strongs rs ss = Some ss' \<Longrightarrow> map untrack ss' = ss"
proof (induction strongs rs s and strongs rs ss arbitrary: s' and ss' rule: insert_tracking_insert_tracking_seq.induct)
  case (8 strongs rs l ss)
  then obtain ss' where ss': "insert_tracking_seq strongs rs ss = Some ss'" "s' = LS_Sequence l ss'"
    by (auto simp: bind_Some_iff)
  have "untrack s' = LS_Sequence l (map untrack ss')"
    unfolding ss'(2) using insert_tracking_seq_heads[OF ss'(1)] by (intro untrack_sequence) blast
  then show ?case using 8(1)[OF ss'(1)] by simp
qed (auto simp: bind_Some_iff split: if_splits)

lemma accompanied_sequence:
  assumes "\<forall>s \<in> set ss. \<not> is_AccompanyWrite s"
  shows "accompanied S rs (LS_Sequence l ss) = accompanied_seq S rs ss"
proof (cases ss rule: remdups_adj.cases)
  case (3 a b cs)
  with assms have "\<not> is_AccompanyWrite b" by simp
  then show ?thesis unfolding 3 accompanied.simps(3) by (cases b; cases a; cases cs) (simp_all only: list.case lstmt.case is_AccompanyWrite.simps not_True_eq_False)
next
  case (2 a)
  then show ?thesis unfolding 2 accompanied.simps(3) by (cases a) (simp_all only: list.case lstmt.case)
qed (simp only: accompanied.simps(3) list.case)

lemma insert_tracking_accompanied:
  "insert_tracking strongs rs s = Some s' \<Longrightarrow> accompanied (set strongs) rs s'"
  "insert_tracking_seq strongs rs ss = Some ss' \<Longrightarrow> accompanied_seq (set strongs) rs ss'"
proof (induction strongs rs s and strongs rs ss arbitrary: s' and ss' rule: insert_tracking_insert_tracking_seq.induct)
  case (8 strongs rs l ss)
  then obtain ss' where ss': "insert_tracking_seq strongs rs ss = Some ss'" "s' = LS_Sequence l ss'"
    by (auto simp: bind_Some_iff)
  have "\<forall>s \<in> set ss'. \<not> is_AccompanyWrite s" using insert_tracking_seq_heads[OF ss'(1)] by blast
  then show ?case unfolding ss'(2) using 8(1)[OF ss'(1)] by (simp add: accompanied_sequence del: accompanied.simps(3))
qed (auto simp: bind_Some_iff split: if_splits)

section \<open>Tracked programs\<close>

definition tracking_required :: "label list \<Rightarrow> label list \<Rightarrow> lstmt \<Rightarrow> bool" where
  "tracking_required labels extra a \<longleftrightarrow>
     writes_remote [] a = Some True \<and> (extra \<noteq> [] \<or> strong_labels labels \<noteq> {})"

definition tracked_program :: "label list \<Rightarrow> lstmt \<Rightarrow> lstmt" where
  "tracked_program ws body =
     LS_Let Top (LBinding Top Y_Tombstone tombstone_str (LE_GenerateTombstone Top))
       (LS_Sequence Top [LS_Sequence Top (map (\<lambda>l. LS_WriteTombstone l (tombstone_var l)) ws), body])"

text \<open>The labels that a client adds: those that are not tracked against are strong.\<close>

definition added_strong :: "label list \<Rightarrow> label set" where
  "added_strong extra = {l \<in> set extra. \<exists>t. traits l = Some t \<and> \<not> might_track t}"

definition added_weak :: "label list \<Rightarrow> label set" where
  "added_weak extra = {l \<in> set extra. \<exists>t. traits l = Some t \<and> might_track t}"

lemma added_labels:
  assumes "keeps_elements as_set" "those (map traits extra) = Some ts"
  shows "set (as_set (map fst (filter (\<lambda>(l, t). \<not> might_track t) (zip extra ts)))) = added_strong extra"
    "set (as_set (map fst (filter (\<lambda>(l, t). might_track t) (zip extra ts)))) = added_weak extra"
proof -
  from assms(2) have "map traits extra = map Some ts" by (simp add: those_Some_iff)
  then have "set (zip extra ts) = {(l, t). l \<in> set extra \<and> traits l = Some t}"
    by (induction extra arbitrary: ts) (auto simp: Cons_eq_map_conv)
  then have zs: "(l, t) \<in> set (zip extra ts) \<longleftrightarrow> l \<in> set extra \<and> traits l = Some t" for l t by simp
  have "set (map fst (filter (\<lambda>(l, t). Q t) (zip extra ts))) = {l \<in> set extra. \<exists>t. traits l = Some t \<and> Q t}" for Q
  proof (rule set_eqI)
    fix l
    have "l \<in> set (map fst (filter (\<lambda>(l, t). Q t) (zip extra ts))) \<longleftrightarrow> (\<exists>t. (l, t) \<in> set (zip extra ts) \<and> Q t)"
      by (auto simp: image_iff)
    then show "l \<in> set (map fst (filter (\<lambda>(l, t). Q t) (zip extra ts))) \<longleftrightarrow>
        l \<in> {l \<in> set extra. \<exists>t. traits l = Some t \<and> Q t}" by (simp add: zs)
  qed
  with assms(1) show "set (as_set (map fst (filter (\<lambda>(l, t). \<not> might_track t) (zip extra ts)))) = added_strong extra"
    "set (as_set (map fst (filter (\<lambda>(l, t). might_track t) (zip extra ts)))) = added_weak extra"
    by (simp_all only: keeps_elements_def added_strong_def added_weak_def)
qed

text \<open>C9: a transaction is tracked exactly if it writes a remote variable and two of its labels track
  one against the other, or tracking is asked for.  Then a new tombstone is written, before the program
  runs, at exactly the labels that take part in tracking; the assignments to remote variables at strong
  labels, and no others, are followed by the statement that leaves the tombstone with the written
  object; and the program is otherwise the same.\<close>

theorem tracking_complete:
  assumes "keeps_elements as_set" "insert_tracking_begin as_set srt extra a = Some t"
    and labels: "labels = collect_proper_labels srt a @ extra"
    and S: "S = strong_labels labels \<union> added_strong extra"
  shows "if tracking_required labels extra a
    then \<exists>ws body. t = tracked_program ws body \<and> untrack body = a \<and> accompanied S [] body \<and>
      set ws = S \<union> weak_labels labels \<union> added_weak extra
    else t = a"
proof -
  obtain writes up down ts es ew where writes: "writes_remote [] a = Some writes"
    and up: "any_pair_tracks labels = Some up" and down: "any_pair_tracks (rev labels) = Some down"
    and ts: "those (map traits extra) = Some ts"
    and es: "es = as_set (map fst (filter (\<lambda>(l, t). \<not> might_track t) (zip extra ts)))"
    and ew: "ew = as_set (map fst (filter (\<lambda>(l, t). might_track t) (zip extra ts)))"
    and t: "make_tracking_choice as_set a (writes \<and> (up \<or> down \<or> extra \<noteq> [])) labels es ew = Some t"
    using assms(2) labels by (auto simp: insert_tracking_begin_def begin_writes_remote_def Let_def bind_Some_iff)
  have "up \<or> down \<longleftrightarrow> strong_labels labels \<noteq> {}"
  proof
    assume "up \<or> down"
    then obtain l m where "tracks_in labels l m"
      using any_pair_tracks_sound[of labels] any_pair_tracks_sound[of "rev labels"] up down tracks_rev by auto
    then show "strong_labels labels \<noteq> {}" by (auto simp: strong_labels_def)
  next
    assume "strong_labels labels \<noteq> {}"
    then show "up \<or> down"
      using any_pair_tracks_complete[OF up] any_pair_tracks_complete[OF down]
      by (auto simp: strong_labels_def tracks_directions)
  qed
  then have req: "writes \<and> (up \<or> down \<or> extra \<noteq> []) \<longleftrightarrow> tracking_required labels extra a"
    using writes by (auto simp: tracking_required_def)
  show ?thesis
  proof (cases "tracking_required labels extra a")
    case True
    with t req obtain ss ws b where tl: "tracked_labels as_set labels = Some (ss, ws)"
      and b: "insert_tracking (as_set (ss @ es)) [] a = Some b"
      and t': "t = tracked_program (as_set (as_set (ws @ ew) @ as_set (ss @ es))) b"
      by (auto simp: make_tracking_choice_def tracked_program_def write_tombstones_def Let_def bind_Some_iff)
    have sets: "set es = added_strong extra" "set ew = added_weak extra"
      unfolding es ew using added_labels[OF assms(1) ts] by simp_all
    have "set (as_set (ss @ es)) = S"
      "set (as_set (as_set (ws @ ew) @ as_set (ss @ es))) = S \<union> weak_labels labels \<union> added_weak extra"
      using assms(1) tracked_labels_exact[OF assms(1) tl] sets S by (auto simp: keeps_elements_def)
    with insert_tracking_accompanied(1)[OF b] insert_tracking_untrack(1)[OF b] t' True
    show ?thesis by auto
  next
    case False
    with t req show ?thesis by (simp add: make_tracking_choice_def)
  qed
qed

text \<open>A program that writes a strong object and reads a causal one.\<close>

definition strong_write :: lstmt where
  "strong_write = LS_Assignment Strong (LE_VarReference Strong Y_int ''r'') (LE_VarReference Strong Y_int ''y'')"

definition tracking_sample :: lstmt where
  "tracking_sample =
     LS_Let Top (LBinding Strong Y_int ''y'' (LE_Constant 1))
       (LS_LetRemote Strong (LBinding Strong Y_int ''r'' (LE_VarReference Top (Y_Handle Strong Y_int []) ''hs''))
         (LS_Sequence Top
           [strong_write,
            LS_LetRemote Causal (LBinding Causal Y_int ''c'' (LE_VarReference Top (Y_Handle Causal Y_int []) ''hc''))
              (LS_Return (LE_VarReference Causal Y_int ''c''))]))"

theorem tracking_complete_witness:
  "\<exists>ws body. insert_tracking_begin remdups label_sort [] tracking_sample = Some (tracked_program ws body) \<and>
     untrack body = tracking_sample \<and> accompanied {Strong} [] body \<and> set ws = {Strong, Causal}"
proof -
  let ?t = "insert_tracking_begin remdups label_sort [] tracking_sample"
  let ?ls = "collect_proper_labels label_sort tracking_sample @ []"
  have "?t \<noteq> None" by code_simp
  then have t: "?t = Some (the ?t)" by simp
  have ls: "?ls = [Bottom, Causal, Strong, Top]" by code_simp
  have sets: "strong_labels ?ls = {Strong}" "weak_labels ?ls = {Causal}"
    unfolding strong_labels_def weak_labels_def ls by (auto intro: exI[of _ Causal])
  have none: "added_strong [] = {}" "added_weak [] = {}" by (simp_all add: added_strong_def added_weak_def)
  have "writes_remote [] tracking_sample = Some True" by code_simp
  then have "tracking_required ?ls [] tracking_sample" unfolding tracking_required_def sets by simp
  with tracking_complete[OF remdups_keeps_elements t refl refl] obtain ws body
    where "the ?t = tracked_program ws body" "untrack body = tracking_sample" "accompanied {Strong} [] body"
      "set ws = {Strong, Causal}"
    unfolding sets none by auto
  then show ?thesis using t by auto
qed

end
