(* ===== verification/Recollapse.thy ===== *)
theory Recollapse
  imports SplitCorrect
begin

text \<open>
  The last pass over the phases, \<open>mtl/recollapse.hpp\<close>: the temporaries that flattening introduced
  (\<open>anorm...\<close>) and that only one phase uses are put back into the expressions that use them, and lose
  their holders; and \<open>mtl/relabel.hpp\<close>, which gives the phases of endorsed labels the labels they
  stand for.

  The pass moves the evaluation of an expression from its binding to its use.  \<open>inlinable\<close> says when that
  is harmless, by following which temporaries still have the value of their expression.
\<close>

section \<open>The pass\<close>

definition anorm_str :: name where
  "anorm_str = ''anorm''"

definition begins_with :: "name \<Rightarrow> name \<Rightarrow> bool" where
  "begins_with n p \<longleftrightarrow> take (length p) n = p"

definition anorm_names :: "vbinding list \<Rightarrow> name list" where
  "anorm_names bs = filter (\<lambda>n. begins_with n anorm_str) (map vbinding_name bs)"

text \<open>The candidates play no role in expressions.\<close>

fun recollapse_expr :: "(name \<rightharpoonup> sexpr) \<Rightarrow> sexpr \<Rightarrow> sexpr" where
  "recollapse_expr m (SE_FieldReference y s f) = SE_FieldReference y (recollapse_expr m s) f"
| "recollapse_expr m (SE_VarReference y v) = (case m v of Some e \<Rightarrow> e | None \<Rightarrow> SE_VarReference y v)"
| "recollapse_expr m (SE_Constant i) = SE_Constant i"
| "recollapse_expr m SE_GenerateTombstone = SE_GenerateTombstone"
| "recollapse_expr m (SE_BinOp y op l r) = SE_BinOp y op (recollapse_expr m l) (recollapse_expr m r)"
| "recollapse_expr m (SE_IsValid h) = SE_IsValid (recollapse_expr m h)"
| "recollapse_expr m (SE_Operation y n h as) = SE_Operation y n (recollapse_expr m h) (map (recollapse_expr m) as)"

text \<open>\<open>recollapse_pack\<close>: the new expression, the map for the body, whether the binding goes, and the binding.\<close>

definition recollapse_binding ::
  "name list \<Rightarrow> (name \<rightharpoonup> sexpr) \<Rightarrow> sbinding \<Rightarrow> (name \<rightharpoonup> sexpr) \<times> bool \<times> sbinding" where
  "recollapse_binding cands m b = (case b of SBinding l y v e \<Rightarrow>
     (let new_e = recollapse_expr m e
      in (if v \<in> set cands then m(v \<mapsto> new_e) else m, v \<in> set cands, SBinding l y v new_e)))"

text \<open>A step of a candidate fails the assertion.  A \<open>LetRemote\<close> keeps its binding.\<close>

fun recollapse_stmt :: "name list \<Rightarrow> (name \<rightharpoonup> sexpr) \<Rightarrow> sstmt \<Rightarrow> sstmt option"
  and recollapse_stmts :: "name list \<Rightarrow> (name \<rightharpoonup> sexpr) \<Rightarrow> sstmt list \<Rightarrow> sstmt list option" where
  "recollapse_stmt cands m (SS_Let b body) =
     (case recollapse_binding cands m b of (new_map, remove, newb) \<Rightarrow> do {
        new_body \<leftarrow> recollapse_stmt cands new_map body;
        Some (if remove then new_body else SS_Let newb new_body) })"
| "recollapse_stmt cands m (SS_LetRemote b body) =
     (case recollapse_binding cands m b of (new_map, remove, newb) \<Rightarrow> do {
        new_body \<leftarrow> recollapse_stmt cands m body; Some (SS_LetRemote newb new_body) })"
| "recollapse_stmt cands m (SS_Operation n h as) =
     Some (SS_Operation n (recollapse_expr m h) (map (recollapse_expr m) as))"
| "recollapse_stmt cands m (SS_Assignment l r) = Some (SS_Assignment (recollapse_expr m l) (recollapse_expr m r))"
| "recollapse_stmt cands m (SS_Return r) = Some (SS_Return (recollapse_expr m r))"
| "recollapse_stmt cands m (SS_AccompanyWrite r) = Some (SS_AccompanyWrite (recollapse_expr m r))"
| "recollapse_stmt cands m (SS_WriteTombstone r) = Some (SS_WriteTombstone (recollapse_expr m r))"
| "recollapse_stmt cands m (SS_IncrementOccurance v) =
     (if v \<in> set cands then None else Some (SS_IncrementOccurance v))"
| "recollapse_stmt cands m (SS_IncrementRemoteOccurance v) =
     (if v \<in> set cands then None else Some (SS_IncrementRemoteOccurance v))"
| "recollapse_stmt cands m (SS_IncrementHandle y v) =
     (if v \<in> set cands then None else Some (SS_IncrementHandle y v))"
| "recollapse_stmt cands m (SS_RefreshRemoteOccurance y v) =
     (if v \<in> set cands then None else Some (SS_RefreshRemoteOccurance y v))"
| "recollapse_stmt cands m (SS_If c t e) = do {
     t \<leftarrow> recollapse_stmt cands m t; e \<leftarrow> recollapse_stmt cands m e; Some (SS_If (recollapse_expr m c) t e) }"
| "recollapse_stmt cands m (SS_While c t n) = do {
     t \<leftarrow> recollapse_stmt cands m t; Some (SS_While (recollapse_expr m c) t n) }"
| "recollapse_stmt cands m (SS_ForEach t n) = do { t \<leftarrow> recollapse_stmt cands m t; Some (SS_ForEach t n) }"
| "recollapse_stmt cands m (SS_Sequence ss) = do { ss \<leftarrow> recollapse_stmts cands m ss; Some (SS_Sequence ss) }"
| "recollapse_stmts cands m [] = Some []"
| "recollapse_stmts cands m (s # ss) = do {
     s \<leftarrow> recollapse_stmt cands m s; ss \<leftarrow> recollapse_stmts cands m ss; Some (s # ss) }"

definition without_names :: "name list \<Rightarrow> vbinding list \<Rightarrow> vbinding list" where
  "without_names ns bs = filter (\<lambda>b. vbinding_name b \<notin> set ns) bs"

definition recollapse_phase :: "phase \<Rightarrow> phase option" where
  "recollapse_phase p = do {
     new_ast \<leftarrow> recollapse_stmt (anorm_names (owned p)) Map.empty (phase_ast p);
     Some (p\<lparr>phase_ast := new_ast, owned := without_names (anorm_names (owned p)) (owned p)\<rparr>) }"

definition recollapse :: "phase list \<Rightarrow> phase list option" where
  "recollapse ps = those (map recollapse_phase ps)"

section \<open>Relabelling\<close>

text \<open>\<open>relabel<newl,l>\<close> (\<open>mtl/relabel.hpp\<close>) moves the tree of a phase from the label \<open>l\<close> to \<open>newl\<close>.  It has an overload
  for bindings of \<open>l\<close> itself only, and none for the step of a handle.\<close>

fun relabel_binding :: "label \<Rightarrow> label \<Rightarrow> sbinding \<Rightarrow> sbinding option" where
  "relabel_binding newl l (SBinding l2 y v e) = (if l2 = l then Some (SBinding newl y v e) else None)"

fun relabel_stmt :: "label \<Rightarrow> label \<Rightarrow> sstmt \<Rightarrow> sstmt option"
  and relabel_stmts :: "label \<Rightarrow> label \<Rightarrow> sstmt list \<Rightarrow> sstmt list option" where
  "relabel_stmt newl l (SS_Let b body) = do {
     b \<leftarrow> relabel_binding newl l b; body \<leftarrow> relabel_stmt newl l body; Some (SS_Let b body) }"
| "relabel_stmt newl l (SS_LetRemote b body) = do {
     b \<leftarrow> relabel_binding newl l b; body \<leftarrow> relabel_stmt newl l body; Some (SS_LetRemote b body) }"
| "relabel_stmt newl l (SS_If c t e) = do {
     t \<leftarrow> relabel_stmt newl l t; e \<leftarrow> relabel_stmt newl l e; Some (SS_If c t e) }"
| "relabel_stmt newl l (SS_While c t n) = do { t \<leftarrow> relabel_stmt newl l t; Some (SS_While c t n) }"
| "relabel_stmt newl l (SS_ForEach t n) = do { t \<leftarrow> relabel_stmt newl l t; Some (SS_ForEach t n) }"
| "relabel_stmt newl l (SS_Sequence ss) = do { ss \<leftarrow> relabel_stmts newl l ss; Some (SS_Sequence ss) }"
| "relabel_stmt newl l (SS_IncrementHandle y v) = None"
| "relabel_stmt newl l s = Some s"
| "relabel_stmts newl l [] = Some []"
| "relabel_stmts newl l (s # ss) = do {
     s \<leftarrow> relabel_stmt newl l s; ss \<leftarrow> relabel_stmts newl l ss; Some (s # ss) }"

definition relabel_phase :: "phase \<Rightarrow> phase option" where
  "relabel_phase p = (case phase_label p of
     PreEndorse l \<Rightarrow> do {
       new_ast \<leftarrow> relabel_stmt l (PreEndorse l) (phase_ast p);
       Some (p\<lparr>phase_label := l, phase_ast := new_ast\<rparr>) }
   | _ \<Rightarrow> Some p)"

definition relabel :: "phase list \<Rightarrow> phase list option" where
  "relabel ps = those (map relabel_phase ps)"

lemma run_relabel_binding: "relabel_binding newl l b = Some b' \<Longrightarrow> run_binding ops b' st = run_binding ops b st"
  by (cases b) (auto simp: run_binding_def split: if_splits)

text \<open>Labels play no role when a phase runs.\<close>

lemma run_while_cong:
  assumes "\<And>k st. run_stmt k ops t' st = run_stmt k ops t st"
  shows "run_while k ops c t' n i st = run_while k ops c t n i st"
proof (induction k arbitrary: i st)
  case (Suc k)
  show ?case unfolding run_while.simps assms Suc.IH by (rule refl)
qed simp

lemma run_for_each_cong:
  assumes "\<And>st. run_stmt k ops t' st = run_stmt k ops t st"
  shows "run_for_each k ops t' j st = run_for_each k ops t j st"
proof (induction j arbitrary: st)
  case (Suc j)
  show ?case unfolding run_for_each.simps assms Suc.IH by (rule refl)
qed simp

lemma run_relabel:
  "relabel_stmt newl l s = Some s' \<Longrightarrow> run_stmt k ops s' st = run_stmt k ops s st"
  "relabel_stmts newl l ss = Some ss' \<Longrightarrow> run_stmts k ops ss' st = run_stmts k ops ss st"
proof (induction newl l s and newl l ss arbitrary: k st s' and k st ss' rule: relabel_stmt_relabel_stmts.induct)
  case (4 newl l c t n)
  then obtain t' where s': "s' = SS_While c t' n" and t': "relabel_stmt newl l t = Some t'" by (auto simp: bind_Some_iff)
  have "run_while k ops c t' n 0 = run_while k ops c t n 0"
    by (rule ext) (rule run_while_cong[OF "4.IH"[OF t']])
  with s' show ?case by simp
next
  case (5 newl l t n)
  then obtain t' where s': "s' = SS_ForEach t' n" and t': "relabel_stmt newl l t = Some t'" by (auto simp: bind_Some_iff)
  have "run_for_each k ops t' = run_for_each k ops t"
    by (intro ext) (rule run_for_each_cong[OF "5.IH"[OF t']])
  with s' show ?case by simp
next
  case (6 newl l ss)
  then obtain ss' where s': "s' = SS_Sequence ss'" and ss': "relabel_stmts newl l ss = Some ss'" by (auto simp: bind_Some_iff)
  have "run_stmts k ops ss' st = run_stmts k ops ss st" by (rule "6.IH"[OF ss'])
  with s' show ?case by simp
next
  case (1 newl l b s)
  then obtain b' t' where s': "s' = SS_Let b' t'" "relabel_binding newl l b = Some b'" and t': "relabel_stmt newl l s = Some t'"
    by (auto simp: bind_Some_iff)
  have "run_stmt k ops t' = run_stmt k ops s" by (rule ext) (rule "1.IH"[OF s'(2) t'])
  with s' show ?case by (simp add: run_relabel_binding)
next
  case (2 newl l b s)
  then obtain b' t' where s': "s' = SS_LetRemote b' t'" "relabel_binding newl l b = Some b'" and t': "relabel_stmt newl l s = Some t'"
    by (auto simp: bind_Some_iff)
  have "run_stmt k ops t' = run_stmt k ops s" by (rule ext) (rule "2.IH"[OF s'(2) t'])
  with s' show ?case by (simp add: run_relabel_binding)
next
  case (3 newl l c t e)
  then obtain t' e' where s': "s' = SS_If c t' e'" and t': "relabel_stmt newl l t = Some t'"
    and e': "relabel_stmt newl l e = Some e'" by (auto simp: bind_Some_iff)
  have "run_stmt k ops t' = run_stmt k ops t" by (rule ext) (rule "3.IH"(1)[OF t'])
  moreover have "run_stmt k ops e' = run_stmt k ops e" by (rule ext) (rule "3.IH"(2)[OF t' e'])
  ultimately show ?case unfolding s' run_stmt.simps by (simp only:)
next
  case (10 newl l s ss)
  then obtain s1 ss1 where ss': "ss' = s1 # ss1" and s1: "relabel_stmt newl l s = Some s1"
    and ss1: "relabel_stmts newl l ss = Some ss1" by (auto simp: bind_Some_iff)
  have "run_stmt k ops s1 st = run_stmt k ops s st" by (rule "10.IH"(1)[OF s1])
  moreover have "run_stmts k ops ss1 = run_stmts k ops ss" by (rule ext) (rule "10.IH"(2)[OF s1 ss1])
  ultimately show ?case unfolding ss' run_stmts.simps by (simp only:)
qed auto

section \<open>Which expressions may move\<close>

definition changes :: "sstmt \<Rightarrow> name set" where
  "changes s = writes s \<union> steps s"

text \<open>The temporaries that keep the value of their expression while the names \<open>W\<close> change.\<close>

definition keep :: "(name \<rightharpoonup> sexpr) \<Rightarrow> name set \<Rightarrow> name set \<Rightarrow> name set" where
  "keep m W V = Set.filter (\<lambda>v. v \<notin> W \<and> (case m v of Some e \<Rightarrow> evars e \<inter> W = {} | None \<Rightarrow> False)) V"

definition usable :: "name set \<Rightarrow> name set \<Rightarrow> sexpr \<Rightarrow> bool" where
  "usable C V e \<longleftrightarrow> pure_expr e \<and> evars e \<inter> C \<subseteq> V"

fun inlinable :: "name set \<Rightarrow> (name \<rightharpoonup> sexpr) \<Rightarrow> name set \<Rightarrow> sstmt \<Rightarrow> bool"
  and inlinable_seq :: "name set \<Rightarrow> (name \<rightharpoonup> sexpr) \<Rightarrow> name set \<Rightarrow> sstmt list \<Rightarrow> bool" where
  "inlinable C m V (SS_Let (SBinding l y v e) s) =
     (usable C V e \<and>
      (if v \<in> C then inlinable C (m(v \<mapsto> recollapse_expr m e)) (insert v (keep m {v} V)) s
       else inlinable C m (keep m {v} V) s))"
| "inlinable C m V (SS_Assignment l e) = (pure_expr l \<and> set (expr_requires l) \<inter> C = {} \<and> usable C V e)"
| "inlinable C m V (SS_Return e) = usable C V e"
| "inlinable C m V (SS_IncrementOccurance v) = (v \<notin> C)"
| "inlinable C m V (SS_If c t e) = (usable C V c \<and> inlinable C m V t \<and> inlinable C m V e)"
| "inlinable C m V (SS_While c t n) =
     (n \<notin> C \<and> (let V' = keep m (insert n (changes t)) V in usable C V' c \<and> inlinable C m V' t))"
| "inlinable C m V (SS_ForEach t n) = (n \<notin> C \<and> inlinable C m (keep m (changes t) V) t)"
| "inlinable C m V (SS_Sequence ss) = inlinable_seq C m V ss"
| "inlinable C m V _ = False"
| "inlinable_seq C m V [] = True"
| "inlinable_seq C m V (s # ss) = (inlinable C m V s \<and> inlinable_seq C m (keep m (changes s) V) ss)"

lemma changes_simps [simp]:
  "changes (SS_Let (SBinding l y v e) s) = insert v (changes s)"
  "changes (SS_Assignment w e) = set (expr_requires w)"
  "changes (SS_Return e) = {}"
  "changes (SS_IncrementOccurance v) = {v}"
  "changes (SS_If c t u) = changes t \<union> changes u"
  "changes (SS_While c t n) = insert n (changes t)"
  "changes (SS_ForEach t n) = changes t"
  "changes (SS_Sequence ss) = (\<Union>s \<in> set ss. changes s)"
  by (auto simp: changes_def)

lemma keep_iff: "v \<in> keep m W V \<longleftrightarrow> v \<in> V \<and> v \<notin> W \<and> (\<exists>e. m v = Some e \<and> evars e \<inter> W = {})"
  by (auto simp: keep_def split: option.splits)

lemma keep_keep [simp]: "keep m W (keep m W' V) = keep m (W \<union> W') V"
  by (rule set_eqI) (auto simp: keep_iff Int_Un_distrib)

lemma keep_subset: "keep m W V \<subseteq> V"
  by (auto simp: keep_iff)

lemma keep_antimono: "W \<subseteq> W' \<Longrightarrow> keep m W' V \<subseteq> keep m W V"
  unfolding subset_iff keep_iff by blast

section \<open>The simulation\<close>

text \<open>
  The store of a phase and that of its recollapsed form: they agree on the names \<open>A\<close> that stay, the
  temporaries \<open>C\<close> have single values, and the valid ones, \<open>V\<close>, have the value of their expression.
\<close>

definition inlined :: "name set \<Rightarrow> name set \<Rightarrow> 'r remote_ops \<Rightarrow> 'r \<Rightarrow> (name \<rightharpoonup> sexpr) \<Rightarrow> name set \<Rightarrow> mstore \<Rightarrow> mstore \<Rightarrow> bool" where
  "inlined A C ops r m V s t \<longleftrightarrow> agree A s t \<and> (\<forall>n \<in> C. \<exists>x. holders s n = Some (ValueHolder x)) \<and>
     (\<forall>v \<in> V. v \<in> C \<and> (\<exists>e x. m v = Some e \<and> pure_expr e \<and> evars e \<subseteq> A \<and> store_get v s = Some x \<and>
        run_expr ops e (t, r) = Some (x, (t, r))))"

lemma inlined_mono:
  assumes "inlined A C ops r m V s t" "V' \<subseteq> V" "\<And>v. v \<in> V' \<Longrightarrow> m' v = m v"
  shows "inlined A C ops r m' V' s t"
  using assms unfolding inlined_def by (simp add: subset_iff)

lemma inlined_entry:
  assumes "inlined A C ops r m V s t" "v \<in> V"
  obtains e x where "v \<in> C" "m v = Some e" "pure_expr e" "evars e \<subseteq> A" "store_get v s = Some x"
    "run_expr ops e (t, r) = Some (x, (t, r))"
  using assms unfolding inlined_def by blast

text \<open>The names of a phase: those that stay, the temporaries among them, and the constants.\<close>

definition name_split :: "name set \<Rightarrow> name set \<Rightarrow> (name \<rightharpoonup> sexpr) \<Rightarrow> bool" where
  "name_split A C m \<longleftrightarrow> A \<inter> C = {} \<and> C \<inter> constant_names = {} \<and> dom m \<subseteq> C"

lemma recollapse_expr_pure:
  assumes "inlined A C ops r m V s t" "name_split A C m"
  shows "pure_expr e \<Longrightarrow> evars e \<subseteq> A \<union> C \<Longrightarrow> evars e \<inter> C \<subseteq> V \<Longrightarrow>
    pure_expr (recollapse_expr m e) \<and> evars (recollapse_expr m e) \<subseteq> A"
proof (induction e)
  case (SE_VarReference y n)
  show ?case
  proof (cases "n \<in> C")
    case True
    then have "n \<in> V" using SE_VarReference.prems(3) assms(2) by (auto simp: name_split_def)
    then show ?thesis by (rule inlined_entry[OF assms(1)]) simp
  next
    case False
    then have "m n = None" using assms(2) by (auto simp: name_split_def)
    with False SE_VarReference.prems show ?thesis by auto
  qed
qed auto

lemma recollapse_expr_run:
  assumes "inlined A C ops r m V s t" "name_split A C m"
  shows "run_expr ops e (s, r) = Some (v, st) \<Longrightarrow> pure_expr e \<Longrightarrow> evars e \<subseteq> A \<union> C \<Longrightarrow> evars e \<inter> C \<subseteq> V \<Longrightarrow>
    run_expr ops (recollapse_expr m e) (t, r) = Some (v, (t, r))"
proof (induction e arbitrary: v st)
  case (SE_VarReference y n)
  have get: "store_get n s = Some v" using SE_VarReference.prems(1) by (auto simp: bind_Some_iff)
  show ?case
  proof (cases "n \<in> C")
    case True
    then have "n \<in> V" using SE_VarReference.prems(4) assms(2) by (auto simp: name_split_def)
    then show ?thesis by (rule inlined_entry[OF assms(1)]) (use get in simp)
  next
    case False
    then have "m n = None" using assms(2) by (auto simp: name_split_def)
    moreover have "n \<in> A \<union> constant_names" using SE_VarReference.prems(3) False by auto
    ultimately show ?thesis using store_get_agree[of A s t n] assms(1) get by (auto simp: inlined_def)
  qed
next
  case (SE_BinOp y op a b)
  obtain x st1 where x: "run_expr ops a (s, r) = Some (x, st1)"
    and rest: "decided op x = Some v \<and> st = st1 \<or>
      decided op x = None \<and> (\<exists>z. run_expr ops b st1 = Some (z, st) \<and> binop_value op x z = Some v)"
    using SE_BinOp.prems(1) unfolding run_BinOp_iff by blast
  have "st1 = (s, r)" using run_expr_pure[OF _ x] SE_BinOp.prems(2) by simp
  moreover have "run_expr ops (recollapse_expr m a) (t, r) = Some (x, (t, r))"
    using SE_BinOp.IH(1)[OF x] SE_BinOp.prems by auto
  moreover have "run_expr ops (recollapse_expr m b) (t, r) = Some (z, (t, r))"
    if "run_expr ops b (s, r) = Some (z, st)" for z
    using SE_BinOp.IH(2)[OF that] SE_BinOp.prems by auto
  ultimately show ?case using rest unfolding recollapse_expr.simps run_BinOp_iff by blast
next
  case (SE_IsValid h)
  obtain k where k: "run_expr ops h (s, r) = Some (V_handle k, st)" "v = V_bool (r_valid ops (snd st) k)"
    using SE_IsValid.prems(1) unfolding run_IsValid_iff by blast
  moreover have "st = (s, r)" using run_expr_pure[OF _ k(1)] SE_IsValid.prems(2) by simp
  moreover have "run_expr ops (recollapse_expr m h) (t, r) = Some (V_handle k, (t, r))"
    using SE_IsValid.IH[OF k(1)] SE_IsValid.prems by simp
  ultimately show ?case unfolding recollapse_expr.simps run_IsValid_iff by simp
qed (auto simp: bind_Some_iff)

lemma store_get_value:
  "holders s v = Some (ValueHolder w) \<Longrightarrow> holders s' v = holders s v \<Longrightarrow> store_get v s' = store_get v s"
  by (simp add: store_get_def)

text \<open>A name that stays changes: the entries that do not mention it are still valid.\<close>

lemma inlined_update:
  assumes "inlined A C ops r m V s t" "name_split A C m" "n \<in> A" "agree A s' t'"
    and "same_outside {n} s s'" "same_outside {n} t t'"
  shows "inlined A C ops r m (keep m {n} V) s' t'"
  unfolding inlined_def
proof (intro conjI ballI)
  fix v assume v: "v \<in> keep m {n} V"
  then obtain e where e: "v \<in> V" "v \<noteq> n" "m v = Some e" "n \<notin> evars e" by (auto simp: keep_iff)
  obtain x where x: "v \<in> C" "pure_expr e" "evars e \<subseteq> A" "store_get v s = Some x"
    "run_expr ops e (t, r) = Some (x, (t, r))"
    by (rule inlined_entry[OF assms(1) e(1)]) (use e(3) that in simp)
  obtain w where "holders s v = Some (ValueHolder w)" using assms(1) x(1) by (auto simp: inlined_def)
  moreover have "holders s' v = holders s v" using assms(5) e(2) by (simp add: same_outside_def)
  ultimately have "store_get v s' = Some x" using x(4) store_get_value by metis
  moreover have "agree (evars e) t t'"
    using assms(1,6) x(3) e(4) unfolding inlined_def agree_def same_outside_def by (metis empty_iff insert_iff subsetD)
  with run_expr_agree[OF x(5,2) this] have "run_expr ops e (t', r) = Some (x, (t', r))" by simp
  ultimately show "v \<in> C" and "\<exists>e x. m v = Some e \<and> pure_expr e \<and> evars e \<subseteq> A \<and> store_get v s' = Some x \<and>
      run_expr ops e (t', r) = Some (x, (t', r))"
    using x e(3) by blast+
next
  fix v assume "v \<in> C"
  then have "v \<noteq> n" using assms(2,3) by (auto simp: name_split_def)
  then show "\<exists>x. holders s' v = Some (ValueHolder x)" using assms(1,5) \<open>v \<in> C\<close>
    by (simp add: inlined_def same_outside_def)
qed (fact assms(4))

lemma store_change_local:
  assumes "\<And>y hs p. holders s n \<noteq> Some (RemoteHolder y hs p)"
  shows "store_bind ops n v (s, r) = Some (s', r') \<Longrightarrow> r' = r"
    and "store_push ops n v (s, r) = Some (s', r') \<Longrightarrow> r' = r"
  using assms by (cases "holders s n"; cases "the (holders s n)";
      auto simp: store_bind_def store_push_def bind_Some_iff split: option.splits)+

lemma inlined_names:
  assumes "inlined A C ops r m V s t" "n \<in> A"
  shows "agree A s t" "agree {n} s t" "agree {n} s s" "holders s n \<noteq> Some (RemoteHolder y hs p)"
  using assms by (auto simp: inlined_def agree_def)

lemma inlined_bind:
  assumes "inlined A C ops r m V s t" "name_split A C m" "n \<in> A" "store_bind ops n v (s, r) = Some (s', r')"
  shows "r' = r \<and> (\<exists>t'. store_bind ops n v (t, r) = Some (t', r) \<and> inlined A C ops r m (keep m {n} V) s' t')"
proof -
  note names = inlined_names[OF assms(1,3)]
  have r: "r' = r" using store_change_local(1)[OF names(4) assms(4)] .
  obtain t' where t': "store_bind ops n v (t, r) = Some (t', r)" "agree A s' t'"
    using store_bind_agree[OF assms(4) names(1) assms(3)] r by blast
  have "same_outside {n} t t'" using store_bind_agree[OF assms(4) names(2)] t'(1) by auto
  moreover have "same_outside {n} s s'" using store_bind_agree[OF assms(4) names(3)] assms(4) by auto
  ultimately show ?thesis using inlined_update[OF assms(1-3) t'(2)] t'(1) r by blast
qed

lemma inlined_push:
  assumes "inlined A C ops r m V s t" "name_split A C m" "n \<in> A" "store_push ops n v (s, r) = Some (s', r')"
  shows "r' = r \<and> (\<exists>t'. store_push ops n v (t, r) = Some (t', r) \<and> inlined A C ops r m (keep m {n} V) s' t')"
proof -
  note names = inlined_names[OF assms(1,3)]
  have r: "r' = r" using store_change_local(2)[OF names(4) assms(4)] .
  obtain t' where t': "store_push ops n v (t, r) = Some (t', r)" "agree A s' t'"
    using store_push_agree[OF assms(4) names(1) assms(3)] r by blast
  have "same_outside {n} t t'" using store_push_agree[OF assms(4) names(2)] t'(1) by auto
  moreover have "same_outside {n} s s'" using store_push_agree[OF assms(4) names(3)] assms(4) by auto
  ultimately show ?thesis using inlined_update[OF assms(1-3) t'(2)] t'(1) r by blast
qed

lemma inlined_increment:
  assumes "inlined A C ops r m V s t" "name_split A C m" "n \<in> A" "store_increment n s = Some s'"
  shows "\<exists>t'. store_increment n t = Some t' \<and> inlined A C ops r m (keep m {n} V) s' t'"
proof -
  note names = inlined_names[OF assms(1,3)]
  obtain t' where t': "store_increment n t = Some t'" "agree A s' t'"
    using store_increment_agree[OF assms(4) names(1) assms(3)] by blast
  have "same_outside {n} t t'" using store_increment_agree[OF assms(4) names(2)] t'(1) by auto
  moreover have "same_outside {n} s s'" using store_increment_agree[OF assms(4) names(3)] assms(4) by auto
  ultimately show ?thesis using inlined_update[OF assms(1-3) t'(2)] t'(1) by blast
qed

text \<open>A temporary is bound: its expression, over the names that stay, has its value.\<close>

lemma inlined_candidate:
  assumes inl: "inlined A C ops r m V s t" and split: "name_split A C m" and v: "v \<in> C"
    and b: "store_bind ops v x (s, r) = Some (s', r')"
    and e: "pure_expr e" "evars e \<subseteq> A" "run_expr ops e (t, r) = Some (x, (t, r))"
  shows "r' = r \<and> inlined A C ops r (m(v \<mapsto> e)) (insert v (keep m {v} V)) s' t"
proof -
  obtain w where w: "holders s v = Some (ValueHolder w)" using inl v by (auto simp: inlined_def)
  then have s': "s' = set_holder v (ValueHolder (Some x)) s" "r' = r" using b by (auto simp: store_bind_def)
  have get: "store_get v s' = Some x" using v split s'(1)
    by (auto simp: store_get_def set_holder_def name_split_def constant_names_def)
  have "u \<in> C \<and> (\<exists>e' x'. (m(v \<mapsto> e)) u = Some e' \<and> pure_expr e' \<and> evars e' \<subseteq> A \<and> store_get u s' = Some x' \<and>
      run_expr ops e' (t, r) = Some (x', (t, r)))" if u: "u \<in> insert v (keep m {v} V)" for u
  proof (cases "u = v")
    case True
    with v get e show ?thesis by simp
  next
    case False
    then have "u \<in> V" using u by (simp add: keep_iff)
    then obtain e' x' where x': "u \<in> C" "m u = Some e'" "pure_expr e'" "evars e' \<subseteq> A" "store_get u s = Some x'"
      "run_expr ops e' (t, r) = Some (x', (t, r))"
      by (rule inlined_entry[OF inl])
    moreover obtain w' where "holders s u = Some (ValueHolder w')" using inl x'(1) by (auto simp: inlined_def)
    then have "store_get u s' = store_get u s" using False s'(1) by (intro store_get_value) (simp_all add: set_holder_def)
    ultimately show ?thesis using False by simp
  qed
  moreover have "agree A s' t" using inl split v s'(1)
    by (auto simp: inlined_def agree_def name_split_def set_holder_def)
  moreover have "\<exists>w. holders s' n = Some (ValueHolder w)" if "n \<in> C" for n
    using inl that s'(1) by (auto simp: inlined_def set_holder_def)
  ultimately show ?thesis using s'(2) unfolding inlined_def by blast
qed

section \<open>Statements\<close>

text \<open>The second statement does what the first one does, as long as the temporaries \<open>V\<close> are valid; those that
  do not depend on the names \<open>W\<close> still are at the end.\<close>

definition inlines :: "name set \<Rightarrow> name set \<Rightarrow> 'r remote_ops \<Rightarrow> (name \<rightharpoonup> sexpr) \<Rightarrow> name set \<Rightarrow> name set \<Rightarrow>
    (nat \<Rightarrow> 'r mstate \<Rightarrow> (mvalue option \<times> 'r mstate) option) \<Rightarrow>
    (nat \<Rightarrow> 'r mstate \<Rightarrow> (mvalue option \<times> 'r mstate) option) \<Rightarrow> bool" where
  "inlines A C ops m V W f g \<longleftrightarrow> (\<forall>k s r t ret s' r'. f k (s, r) = Some (ret, (s', r')) \<longrightarrow>
     inlined A C ops r m V s t \<longrightarrow>
     r' = r \<and> (\<exists>t'. g k (t, r) = Some (ret, (t', r)) \<and> inlined A C ops r m (keep m W V) s' t'))"

lemma inlinesI:
  assumes "\<And>k s r t ret s' r'. f k (s, r) = Some (ret, (s', r')) \<Longrightarrow> inlined A C ops r m V s t \<Longrightarrow>
     r' = r \<and> (\<exists>t'. g k (t, r) = Some (ret, (t', r)) \<and> inlined A C ops r m (keep m W V) s' t')"
  shows "inlines A C ops m V W f g"
  unfolding inlines_def using assms by blast

lemma inlinesE:
  assumes "inlines A C ops m V W f g" "f k (s, r) = Some (ret, (s', r'))" "inlined A C ops r m V s t"
  obtains t' where "r' = r" "g k (t, r) = Some (ret, (t', r))" "inlined A C ops r m (keep m W V) s' t'"
  using assms unfolding inlines_def by blast

abbreviation inlines_stmt :: "name set \<Rightarrow> name set \<Rightarrow> 'r remote_ops \<Rightarrow> (name \<rightharpoonup> sexpr) \<Rightarrow> name set \<Rightarrow> sstmt \<Rightarrow> sstmt \<Rightarrow> bool" where
  "inlines_stmt A C ops m V c c' \<equiv> inlines A C ops m V (changes c) (\<lambda>k. run_stmt k ops c) (\<lambda>k. run_stmt k ops c')"

lemma inlines_Let_kept:
  assumes body: "inlines_stmt A C ops m (keep m {v} V) c c'" and split: "name_split A C m" and v: "v \<in> A"
    and e: "usable C V e" "evars e \<subseteq> A \<union> C"
  shows "inlines_stmt A C ops m V (SS_Let (SBinding l y v e) c) (SS_Let (SBinding l y v (recollapse_expr m e)) c')"
proof (rule inlinesI)
  fix k r ret r' and s t s' :: mstore
  assume run: "run_stmt k ops (SS_Let (SBinding l y v e) c) (s, r) = Some (ret, (s', r'))"
    and inl: "inlined A C ops r m V s t"
  then obtain x st1 s2 r2 where x: "run_expr ops e (s, r) = Some (x, st1)"
    and b: "store_bind ops v x st1 = Some (s2, r2)" and c: "run_stmt k ops c (s2, r2) = Some (ret, (s', r'))"
    unfolding run_Let_iff by (auto simp: run_binding_def bind_Some_iff)
  have "pure_expr e" "evars e \<inter> C \<subseteq> V" using e(1) by (simp_all add: usable_def)
  note x' = recollapse_expr_run[OF inl split x this(1) e(2) this(2)]
  have b': "store_bind ops v x (s, r) = Some (s2, r2)" using b run_expr_pure[OF \<open>pure_expr e\<close> x] by simp
  obtain t2 where t2: "r2 = r" "store_bind ops v x (t, r) = Some (t2, r)" "inlined A C ops r m (keep m {v} V) s2 t2"
    using inlined_bind[OF inl split v b'] by blast
  obtain t' where "r' = r" "run_stmt k ops c' (t2, r) = Some (ret, (t', r))"
    "inlined A C ops r m (keep m (changes c) (keep m {v} V)) s' t'"
    by (rule inlinesE[OF body c[unfolded t2(1)] t2(3)])
  with x' t2(2) show "r' = r \<and> (\<exists>t'. run_stmt k ops (SS_Let (SBinding l y v (recollapse_expr m e)) c') (t, r) =
      Some (ret, (t', r)) \<and> inlined A C ops r m (keep m (changes (SS_Let (SBinding l y v e) c)) V) s' t')"
    by (simp add: run_binding_def)
qed

lemma inlines_Let_gone:
  assumes body: "inlines_stmt A C ops (m(v \<mapsto> recollapse_expr m e)) (insert v (keep m {v} V)) c c'"
    and split: "name_split A C m" and v: "v \<in> C" and e: "usable C V e" "evars e \<subseteq> A \<union> C"
  shows "inlines_stmt A C ops m V (SS_Let (SBinding l y v e) c) c'"
proof (rule inlinesI)
  fix k r ret r' and s t s' :: mstore
  let ?m = "m(v \<mapsto> recollapse_expr m e)" and ?V = "insert v (keep m {v} V)"
  assume run: "run_stmt k ops (SS_Let (SBinding l y v e) c) (s, r) = Some (ret, (s', r'))"
    and inl: "inlined A C ops r m V s t"
  then obtain x st1 s2 r2 where x: "run_expr ops e (s, r) = Some (x, st1)"
    and b: "store_bind ops v x st1 = Some (s2, r2)" and c: "run_stmt k ops c (s2, r2) = Some (ret, (s', r'))"
    unfolding run_Let_iff by (auto simp: run_binding_def bind_Some_iff)
  have p: "pure_expr e" "evars e \<inter> C \<subseteq> V" using e(1) by (simp_all add: usable_def)
  have b': "store_bind ops v x (s, r) = Some (s2, r2)" using b run_expr_pure[OF p(1) x] by simp
  have r2: "r2 = r" and inl2: "inlined A C ops r ?m ?V s2 t"
    using inlined_candidate[OF inl split v b' _ _ recollapse_expr_run[OF inl split x p(1) e(2) p(2)]]
      recollapse_expr_pure[OF inl split p(1) e(2) p(2)] by blast+
  obtain t' where t': "r' = r" "run_stmt k ops c' (t, r) = Some (ret, (t', r))"
    "inlined A C ops r ?m (keep ?m (changes c) ?V) s' t'"
    by (rule inlinesE[OF body c[unfolded r2] inl2])
  have "keep m (insert v (changes c)) V \<subseteq> keep ?m (changes c) ?V"
    by (auto simp: keep_iff)
  from inlined_mono[OF t'(3) this] have "inlined A C ops r m (keep m (insert v (changes c)) V) s' t'"
    by (simp add: keep_iff)
  with t' show "r' = r \<and> (\<exists>t'. run_stmt k ops c' (t, r) = Some (ret, (t', r)) \<and>
      inlined A C ops r m (keep m (changes (SS_Let (SBinding l y v e) c)) V) s' t')" by simp
qed

lemma inlines_weaken:
  assumes "inlines A C ops m V W f g" "W \<subseteq> W'"
  shows "inlines A C ops m V W' f g"
proof (rule inlinesI)
  fix k s r t ret s' r' assume "f k (s, r) = Some (ret, (s', r'))" "inlined A C ops r m V s t"
  from inlinesE[OF assms(1) this] inlined_mono[OF _ keep_antimono[OF assms(2)] refl]
  show "r' = r \<and> (\<exists>t'. g k (t, r) = Some (ret, (t', r)) \<and> inlined A C ops r m (keep m W' V) s' t')" by metis
qed

lemma inlines_If:
  assumes "inlines_stmt A C ops m V c c'" "inlines_stmt A C ops m V d d'" and split: "name_split A C m"
    and e: "usable C V e" "evars e \<subseteq> A \<union> C"
  shows "inlines_stmt A C ops m V (SS_If e c d) (SS_If (recollapse_expr m e) c' d')"
proof (rule inlinesI)
  fix k r ret r' and s t s' :: mstore
  assume run: "run_stmt k ops (SS_If e c d) (s, r) = Some (ret, (s', r'))" and inl: "inlined A C ops r m V s t"
  then obtain b st1 where x: "run_expr ops e (s, r) = Some (V_bool b, st1)"
    and c: "run_stmt k ops (if b then c else d) st1 = Some (ret, (s', r'))" unfolding run_If_iff by blast
  have p: "pure_expr e" "evars e \<inter> C \<subseteq> V" using e(1) by (simp_all add: usable_def)
  have st1: "st1 = (s, r)" using run_expr_pure[OF p(1) x] .
  have "inlines A C ops m V (changes c \<union> changes d) (\<lambda>k. run_stmt k ops (if b then c else d))
      (\<lambda>k. run_stmt k ops (if b then c' else d'))"
    using inlines_weaken[OF assms(1)] inlines_weaken[OF assms(2)] by (cases b) auto
  from inlinesE[OF this c[unfolded st1] inl] recollapse_expr_run[OF inl split x p(1) e(2) p(2)]
  show "r' = r \<and> (\<exists>t'. run_stmt k ops (SS_If (recollapse_expr m e) c' d') (t, r) = Some (ret, (t', r)) \<and>
      inlined A C ops r m (keep m (changes (SS_If e c d)) V) s' t')"
    unfolding run_If_iff by (metis changes_simps(5))
qed

text \<open>One step, and the rest unless it has returned; what changes in either is in \<open>W\<close>.\<close>

lemma inlines_rest:
  assumes f: "f = (\<lambda>k st. do { (ret, st) \<leftarrow> f1 k st; (case ret of Some v \<Rightarrow> Some (Some v, st) | None \<Rightarrow> f2 k st) })"
    and g: "g = (\<lambda>k st. do { (ret, st) \<leftarrow> g1 k st; (case ret of Some v \<Rightarrow> Some (Some v, st) | None \<Rightarrow> g2 k st) })"
    and one: "inlines A C ops m V W1 f1 g1" and rest: "inlines A C ops m (keep m W1 V) W2 f2 g2"
    and W: "W1 \<union> W2 = W"
  shows "inlines A C ops m V W f g"
proof (rule inlinesI)
  fix k s r t ret s' r'
  assume run: "f k (s, r) = Some (ret, (s', r'))" and inl: "inlined A C ops r m V s t"
  from run[unfolded f run_rest_iff]
  show "r' = r \<and> (\<exists>t'. g k (t, r) = Some (ret, (t', r)) \<and> inlined A C ops r m (keep m W V) s' t')"
  proof (elim disjE exE conjE)
    fix st1 assume 1: "f1 k (s, r) = Some (None, st1)" and 2: "f2 k st1 = Some (ret, (s', r'))"
    obtain s1 r1 where st1: "st1 = (s1, r1)" by (cases st1)
    obtain t1 where t1: "r1 = r" "g1 k (t, r) = Some (None, (t1, r))" "inlined A C ops r m (keep m W1 V) s1 t1"
      by (rule inlinesE[OF one 1[unfolded st1] inl])
    from 2 have 2: "f2 k (s1, r) = Some (ret, (s', r'))" by (simp add: st1 t1(1))
    obtain t' where "r' = r" "g2 k (t1, r) = Some (ret, (t', r))" "inlined A C ops r m (keep m W2 (keep m W1 V)) s' t'"
      by (rule inlinesE[OF rest 2 t1(3)])
    with t1(2) W show ?thesis by (simp add: g Un_commute)
  next
    fix v st1 assume 1: "f1 k (s, r) = Some (Some v, st1)" and ret: "(ret, s', r') = (Some v, st1)"
    then have "f1 k (s, r) = Some (Some v, (s', r'))" by simp
    then obtain t1 where t1: "r' = r" "g1 k (t, r) = Some (Some v, (t1, r))" "inlined A C ops r m (keep m W1 V) s' t1"
      by (rule inlinesE[OF one _ inl])
    have "inlined A C ops r m (keep m W V) s' t1"
      using inlined_mono[OF t1(3) keep_antimono] W by blast
    with t1 ret show ?thesis by (simp add: g)
  qed
qed

lemma inlines_Cons:
  assumes "inlines_stmt A C ops m V c c'"
    and "inlines A C ops m (keep m (changes c) V) (\<Union>d \<in> set cs. changes d) (\<lambda>k. run_stmts k ops cs) (\<lambda>k. run_stmts k ops cs')"
  shows "inlines A C ops m V (\<Union>d \<in> set (c # cs). changes d) (\<lambda>k. run_stmts k ops (c # cs)) (\<lambda>k. run_stmts k ops (c' # cs'))"
  by (rule inlines_rest[OF _ _ assms]) (auto intro!: ext)

lemma inlines_for_each:
  assumes body: "inlines_stmt A C ops m V c c'" and V: "keep m (changes c) V = V"
  shows "inlines A C ops m V (changes c) (\<lambda>k. run_for_each k ops c j) (\<lambda>k. run_for_each k ops c' j)"
proof (induction j)
  case 0
  show ?case by (rule inlinesI) (auto simp: V)
next
  case (Suc j)
  show ?case
    by (rule inlines_rest[OF _ _ body]) (use Suc V in \<open>auto intro!: ext\<close>)
qed

lemma keep_idem: "W \<subseteq> W' \<Longrightarrow> keep m W (keep m W' V) = keep m W' V"
  by (simp add: Un_absorb1)

lemma inlines_ForEach:
  assumes body: "inlines_stmt A C ops m (keep m (changes c) V) c c'" and n: "n \<in> A"
  shows "inlines_stmt A C ops m V (SS_ForEach c n) (SS_ForEach c' n)"
proof (rule inlinesI)
  fix k r ret r' and s t s' :: mstore
  let ?V = "keep m (changes c) V"
  assume run: "run_stmt k ops (SS_ForEach c n) (s, r) = Some (ret, (s', r'))" and inl: "inlined A C ops r m V s t"
  then obtain j where j: "store_get n s = Some (V_size j)" "run_for_each k ops c j (s, r) = Some (ret, (s', r'))"
    unfolding run_ForEach_iff by auto
  have "store_get n t = Some (V_size j)" using store_get_agree[of A s t n] inl n j(1) by (simp add: inlined_def)
  moreover have "inlined A C ops r m ?V s t" by (rule inlined_mono[OF inl keep_subset refl])
  then obtain t' where "r' = r" "run_for_each k ops c' j (t, r) = Some (ret, (t', r))"
    "inlined A C ops r m (keep m (changes c) ?V) s' t'"
    by (rule inlinesE[OF inlines_for_each[OF body keep_idem[OF subset_refl]] j(2)])
  ultimately show "r' = r \<and> (\<exists>t'. run_stmt k ops (SS_ForEach c' n) (t, r) = Some (ret, (t', r)) \<and>
      inlined A C ops r m (keep m (changes (SS_ForEach c n)) V) s' t')"
    unfolding run_ForEach_iff by auto
qed

lemma run_while_inlines:
  assumes body: "inlines_stmt A C ops m V c c'" and V: "keep m (insert n (changes c)) V = V" and n: "n \<in> A"
    and split: "name_split A C m" and e: "usable C V e" "evars e \<subseteq> A \<union> C"
  shows "run_while k ops e c n i (s, r) = Some (ret, (s', r')) \<Longrightarrow> inlined A C ops r m V s t \<Longrightarrow>
    r' = r \<and> (\<exists>t'. run_while k ops (recollapse_expr m e) c' n i (t, r) = Some (ret, (t', r)) \<and> inlined A C ops r m V s' t')"
proof (induction k arbitrary: i s t)
  case (Suc k)
  have p: "pure_expr e" "evars e \<inter> C \<subseteq> V" using e(1) by (simp_all add: usable_def)
  have keeps: "keep m {n} V = V" "keep m (changes c) V = V"
    using keep_antimono[of "{n}" "insert n (changes c)" m V] keep_antimono[of "changes c" "insert n (changes c)" m V]
      keep_subset[of m "{n}" V] keep_subset[of m "changes c" V] V by auto
  note run = Suc.prems(1)[unfolded run_while_Suc_iff]
  obtain b st1 where x: "run_expr ops e (s, r) = Some (V_bool b, st1)" using run by blast
  have st1: "st1 = (s, r)" using run_expr_pure[OF p(1) x] .
  note x' = recollapse_expr_run[OF Suc.prems(2) split x p(1) e(2) p(2)]
  show ?case
  proof (cases b)
    case False
    with run x st1 have "ret = None" "s' = s" "r' = r" by auto
    with False x' Suc.prems(2) show ?thesis by simp
  next
    case True
    with run x st1 obtain s2 r2 where lim: "counter_fits (Suc i)"
      and p: "store_push ops n (V_size (Suc i)) (s, r) = Some (s2, r2)"
      and rest: "(\<exists>st3. run_stmt k ops c (s2, r2) = Some (None, st3) \<and> run_while k ops e c n (Suc i) st3 = Some (ret, (s', r'))) \<or>
        (\<exists>v st3. run_stmt k ops c (s2, r2) = Some (Some v, st3) \<and> (ret, (s', r')) = (Some v, st3))"
      by auto
    obtain t2 where t2: "r2 = r" "store_push ops n (V_size (Suc i)) (t, r) = Some (t2, r)" "inlined A C ops r m V s2 t2"
      using inlined_push[OF Suc.prems(2) split n p] keeps(1) by auto
    have step: "run_while (Suc k) ops (recollapse_expr m e) c' n i (t, r) = do {
        (ret, st) \<leftarrow> run_stmt k ops c' (t2, r);
        (case ret of Some v \<Rightarrow> Some (Some v, st) | None \<Rightarrow> run_while k ops (recollapse_expr m e) c' n (Suc i) st) }"
      using x' True lim t2(2) by simp
    show ?thesis using rest
    proof (elim disjE exE conjE)
      fix st3 assume 1: "run_stmt k ops c (s2, r2) = Some (None, st3)"
        and 2: "run_while k ops e c n (Suc i) st3 = Some (ret, (s', r'))"
      obtain s3 r3 where st3: "st3 = (s3, r3)" by (cases st3)
      obtain t3 where t3: "r3 = r" "run_stmt k ops c' (t2, r) = Some (None, (t3, r))" "inlined A C ops r m V s3 t3"
        by (rule inlinesE[OF body 1[unfolded st3 t2(1)] t2(3)]) (use keeps(2) in auto)
      from Suc.IH[OF 2[unfolded st3 t3(1)] t3(3)] step t3(2) show ?thesis by simp
    next
      fix v st3 assume 1: "run_stmt k ops c (s2, r2) = Some (Some v, st3)" and ret: "(ret, s', r') = (Some v, st3)"
      then have "run_stmt k ops c (s2, r) = Some (Some v, (s', r'))" by (simp add: t2(1))
      then obtain t3 where "r' = r" "run_stmt k ops c' (t2, r) = Some (Some v, (t3, r))" "inlined A C ops r m V s' t3"
        by (rule inlinesE[OF body _ t2(3)]) (use keeps(2) in auto)
      with step ret show ?thesis by simp
    qed
  qed
qed simp

lemma inlines_While:
  assumes body: "inlines_stmt A C ops m V' c c'" and V': "V' = keep m (insert n (changes c)) V" and n: "n \<in> A"
    and split: "name_split A C m" and e: "usable C V' e" "evars e \<subseteq> A \<union> C"
  shows "inlines_stmt A C ops m V (SS_While e c n) (SS_While (recollapse_expr m e) c' n)"
proof (rule inlinesI)
  fix k r ret r' and s t s' :: mstore
  assume run: "run_stmt k ops (SS_While e c n) (s, r) = Some (ret, (s', r'))" and inl: "inlined A C ops r m V s t"
  then obtain s1 r1 where b: "store_bind ops n (V_size 0) (s, r) = Some (s1, r1)"
    and w: "run_while k ops e c n 0 (s1, r1) = Some (ret, (s', r'))" unfolding run_While_iff by auto
  obtain t1 where t1: "r1 = r" "store_bind ops n (V_size 0) (t, r) = Some (t1, r)" "inlined A C ops r m (keep m {n} V) s1 t1"
    using inlined_bind[OF inl split n b] by blast
  have "inlined A C ops r m V' s1 t1"
    by (rule inlined_mono[OF t1(3)]) (auto simp: V' intro!: keep_antimono)
  from run_while_inlines[OF body _ n split e w[unfolded t1(1)] this] t1(2)
  show "r' = r \<and> (\<exists>t'. run_stmt k ops (SS_While (recollapse_expr m e) c' n) (t, r) = Some (ret, (t', r)) \<and>
      inlined A C ops r m (keep m (changes (SS_While e c n)) V) s' t')"
    by (simp add: V' Un_absorb)
qed

lemma recollapse_expr_other: "set (expr_requires e) \<inter> dom m = {} \<Longrightarrow> pure_expr e \<Longrightarrow> recollapse_expr m e = e"
  by (induction e) (auto simp: dom_def)

lemma inlines_Assignment:
  assumes v: "pure_expr w" "set (expr_requires w) \<inter> C = {}" "set (expr_requires w) \<subseteq> A \<union> C"
    and split: "name_split A C m" and e: "usable C V e" "evars e \<subseteq> A \<union> C"
  shows "inlines_stmt A C ops m V (SS_Assignment w e) (SS_Assignment (recollapse_expr m w) (recollapse_expr m e))"
proof (rule inlinesI)
  fix k r ret r' and s t s' :: mstore
  assume run: "run_stmt k ops (SS_Assignment w e) (s, r) = Some (ret, (s', r'))" and inl: "inlined A C ops r m V s t"
  have p: "pure_expr e" "evars e \<inter> C \<subseteq> V" using e(1) by (simp_all add: usable_def)
  have w: "recollapse_expr m w = w"
    by (rule recollapse_expr_other) (use v(1,2) split in \<open>auto simp: name_split_def\<close>)
  have a: "run_assignment ops w e (s, r) = Some (s', r')" and ret: "ret = None"
    using run by (auto simp: bind_Some_iff)
  note x' = recollapse_expr_run[OF inl split _ p(1) e(2) p(2)]
  have "r' = r \<and> (\<exists>t'. run_assignment ops w (recollapse_expr m e) (t, r) = Some (t', r) \<and>
      inlined A C ops r m (keep m (set (expr_requires w)) V) s' t')"
    using a
  proof (cases w)
    case (SE_VarReference y n)
    with a obtain x st2 where x: "run_expr ops e (s, r) = Some (x, st2)" and q: "store_push ops n x st2 = Some (s', r')"
      by (auto simp: run_assignment_def bind_Some_iff)
    have n: "n \<in> A" using SE_VarReference v by auto
    have "store_push ops n x (s, r) = Some (s', r')" using q run_expr_pure[OF p(1) x] by simp
    from inlined_push[OF inl split n this] x'[OF x] SE_VarReference show ?thesis by (auto simp: run_assignment_def)
  next
    case (SE_FieldReference y1 u f)
    with a obtain y2 n x0 x st2 x1 where u: "u = SE_VarReference y2 n"
      and g: "store_get n s = Some x0" and x: "run_expr ops e (s, r) = Some (x, st2)"
      and x1: "set_field f x x0 = Some x1" and q: "store_push ops n x1 st2 = Some (s', r')"
      by (auto simp: run_assignment_def bind_Some_iff split: sexpr.splits)
    have n: "n \<in> A" using SE_FieldReference u v by auto
    have q': "store_push ops n x1 (s, r) = Some (s', r')" using q run_expr_pure[OF p(1) x] by simp
    have "store_get n t = Some x0" using store_get_agree[of A s t n] inl n g by (simp add: inlined_def)
    with inlined_push[OF inl split n q'] x'[OF x] x1 SE_FieldReference u show ?thesis by (auto simp: run_assignment_def)
  qed (auto simp: run_assignment_def)
  with w ret show "r' = r \<and> (\<exists>t'. run_stmt k ops (SS_Assignment (recollapse_expr m w) (recollapse_expr m e)) (t, r) =
      Some (ret, (t', r)) \<and> inlined A C ops r m (keep m (changes (SS_Assignment w e)) V) s' t')"
    by auto
qed

lemma inlines_Return:
  assumes split: "name_split A C m" and e: "usable C V e" "evars e \<subseteq> A \<union> C"
  shows "inlines_stmt A C ops m V (SS_Return e) (SS_Return (recollapse_expr m e))"
proof (rule inlinesI)
  fix k r ret r' and s t s' :: mstore
  assume run: "run_stmt k ops (SS_Return e) (s, r) = Some (ret, (s', r'))" and inl: "inlined A C ops r m V s t"
  have p: "pure_expr e" "evars e \<inter> C \<subseteq> V" using e(1) by (simp_all add: usable_def)
  from run obtain x where x: "run_expr ops e (s, r) = Some (x, (s', r'))" and ret: "ret = Some x"
    by (auto simp: bind_Some_iff)
  from run_expr_pure[OF p(1) x] recollapse_expr_run[OF inl split x p(1) e(2) p(2)] inlined_mono[OF inl keep_subset refl] ret
  show "r' = r \<and> (\<exists>t'. run_stmt k ops (SS_Return (recollapse_expr m e)) (t, r) = Some (ret, (t', r)) \<and>
      inlined A C ops r m (keep m (changes (SS_Return e)) V) s' t')" by simp
qed

lemma inlines_Increment:
  assumes split: "name_split A C m" and n: "n \<in> A"
  shows "inlines_stmt A C ops m V (SS_IncrementOccurance n) (SS_IncrementOccurance n)"
proof (rule inlinesI)
  fix k r ret r' and s t s' :: mstore
  assume run: "run_stmt k ops (SS_IncrementOccurance n) (s, r) = Some (ret, (s', r'))" and inl: "inlined A C ops r m V s t"
  then have "store_increment n s = Some s'" "r' = r" "ret = None" by (auto simp: bind_Some_iff)
  with inlined_increment[OF inl split n]
  show "r' = r \<and> (\<exists>t'. run_stmt k ops (SS_IncrementOccurance n) (t, r) = Some (ret, (t', r)) \<and>
      inlined A C ops r m (keep m (changes (SS_IncrementOccurance n)) V) s' t')" by auto
qed

lemma recollapse_inlines:
  "inlinable C m V c \<Longrightarrow> name_split A C m \<Longrightarrow> reads c \<union> changes c \<subseteq> A \<union> C \<Longrightarrow> C = set cands \<Longrightarrow>
     recollapse_stmt cands m c = Some c' \<Longrightarrow> inlines_stmt A C ops m V c c'"
  "inlinable_seq C m V cs \<Longrightarrow> name_split A C m \<Longrightarrow> (\<forall>c \<in> set cs. reads c \<union> changes c \<subseteq> A \<union> C) \<Longrightarrow> C = set cands \<Longrightarrow>
     recollapse_stmts cands m cs = Some cs' \<Longrightarrow>
     inlines A C ops m V (\<Union>c \<in> set cs. changes c) (\<lambda>k. run_stmts k ops cs) (\<lambda>k. run_stmts k ops cs')"
proof (induction C m V c and C m V cs arbitrary: c' and cs' rule: inlinable_inlinable_seq.induct)
  case (1 C m V l y v e s)
  let ?m = "if v \<in> C then m(v \<mapsto> recollapse_expr m e) else m"
  obtain b where b: "recollapse_stmt cands ?m s = Some b"
    and c': "c' = (if v \<in> C then b else SS_Let (SBinding l y v (recollapse_expr m e)) b)"
    using "1.prems"(5) unfolding "1.prems"(4) by (auto simp: recollapse_binding_def Let_def bind_Some_iff)
  have e: "usable C V e" "evars e \<subseteq> A \<union> C" "reads s \<union> changes s \<subseteq> A \<union> C" using "1.prems"(1,3) by auto
  show ?case
  proof (cases "v \<in> C")
    case True
    have "inlines_stmt A C ops ?m (insert v (keep m {v} V)) s b"
      unfolding if_P[OF True]
      by (rule "1.IH"(1)[OF True _ _ e(3) "1.prems"(4)])
        (use "1.prems"(1,2) b True in \<open>auto simp: name_split_def simp del: fun_upd_apply\<close>)
    then have "inlines_stmt A C ops (m(v \<mapsto> recollapse_expr m e)) (insert v (keep m {v} V)) s b"
      unfolding if_P[OF True] .
    from inlines_Let_gone[OF this "1.prems"(2) True e(1,2)] True c' show ?thesis by (simp only: if_True)
  next
    case False
    then have "v \<in> A" using "1.prems"(3) by auto
    from False "1.IH"(2)[OF False _ "1.prems"(2) e(3) "1.prems"(4)] "1.prems"(1) b
    have "inlines_stmt A C ops m (keep m {v} V) s b" by simp
    from inlines_Let_kept[OF this "1.prems"(2) \<open>v \<in> A\<close> e(1,2)] False c' show ?thesis by (simp only: if_False)
  qed
next
  case (2 C m V l e)
  have c': "c' = SS_Assignment (recollapse_expr m l) (recollapse_expr m e)" using "2.prems"(5) by (auto split: if_splits)
  show ?case unfolding c' by (rule inlines_Assignment) (use "2.prems" in auto)
next
  case (3 C m V e)
  have c': "c' = SS_Return (recollapse_expr m e)" using "3.prems"(5) by (auto split: if_splits)
  show ?case unfolding c' by (rule inlines_Return) (use "3.prems" in auto)
next
  case (4 C m V v)
  have c': "c' = SS_IncrementOccurance v" using "4.prems"(5) by (auto split: if_splits)
  show ?case unfolding c' by (rule inlines_Increment) (use "4.prems" in auto)
next
  case (5 C m V c t e)
  obtain t' e' where te: "recollapse_stmt cands m t = Some t'" "recollapse_stmt cands m e = Some e'"
    and c': "c' = SS_If (recollapse_expr m c) t' e'" using "5.prems"(5) by (auto simp: bind_Some_iff)
  have "inlines_stmt A C ops m V t t'" by (rule "5.IH"(1)[OF _ "5.prems"(2) _ "5.prems"(4) te(1)]) (use "5.prems" in auto)
  moreover have "inlines_stmt A C ops m V e e'" by (rule "5.IH"(2)[OF _ "5.prems"(2) _ "5.prems"(4) te(2)]) (use "5.prems" in auto)
  ultimately show ?case unfolding c' by (rule inlines_If) (use "5.prems" in auto)
next
  case (6 C m V c t n)
  let ?V = "keep m (insert n (changes t)) V"
  obtain t' where t: "recollapse_stmt cands m t = Some t'" and c': "c' = SS_While (recollapse_expr m c) t' n"
    using "6.prems"(5) by (auto simp: bind_Some_iff)
  have "inlines_stmt A C ops m ?V t t'"
    by (rule "6.IH"[OF refl _ "6.prems"(2) _ "6.prems"(4) t]) (use "6.prems" in \<open>auto simp: Let_def\<close>)
  then show ?case unfolding c' by (rule inlines_While[OF _ refl]) (use "6.prems" in \<open>auto simp: Let_def\<close>)
next
  case (7 C m V t n)
  obtain t' where t: "recollapse_stmt cands m t = Some t'" and c': "c' = SS_ForEach t' n"
    using "7.prems"(5) by (auto simp: bind_Some_iff)
  have "inlines_stmt A C ops m (keep m (changes t) V) t t'"
    by (rule "7.IH"[OF _ "7.prems"(2) _ "7.prems"(4) t]) (use "7.prems" in auto)
  then show ?case unfolding c' by (rule inlines_ForEach) (use "7.prems" in auto)
next
  case (8 C m V ss)
  obtain ss' where ss: "recollapse_stmts cands m ss = Some ss'" and c': "c' = SS_Sequence ss'"
    using "8.prems"(5) by (auto simp: bind_Some_iff)
  have "inlines A C ops m V (\<Union>c \<in> set ss. changes c) (\<lambda>k. run_stmts k ops ss) (\<lambda>k. run_stmts k ops ss')"
    by (rule "8.IH"[OF _ "8.prems"(2) _ "8.prems"(4) ss]) (use "8.prems" in auto)
  with c' show ?case by simp
next
  case (10 C m V)
  then show ?case by (auto intro!: inlinesI simp: inlined_mono[OF _ keep_subset refl])
next
  case (11 C m V s ss)
  obtain s' ss' where s: "recollapse_stmt cands m s = Some s'" "recollapse_stmts cands m ss = Some ss'"
    and cs': "cs' = s' # ss'" using "11.prems"(5) by (auto simp: bind_Some_iff)
  show ?case unfolding cs'
  proof (rule inlines_Cons)
    show "inlines_stmt A C ops m V s s'"
      by (rule "11.IH"(1)[OF _ "11.prems"(2) _ "11.prems"(4) s(1)]) (use "11.prems" in auto)
    show "inlines A C ops m (keep m (changes s) V) (\<Union>d \<in> set ss. changes d) (\<lambda>k. run_stmts k ops ss) (\<lambda>k. run_stmts k ops ss')"
      by (rule "11.IH"(2)[OF _ "11.prems"(2) _ "11.prems"(4) s(2)]) (use "11.prems" in auto)
  qed
qed simp_all

section \<open>Phases and transactions\<close>

lemma inlinable_local:
  "inlinable C m V c \<Longrightarrow> local_stmt c"
  "inlinable_seq C m V cs \<Longrightarrow> \<forall>c \<in> set cs. local_stmt c"
  by (induction C m V c and C m V cs rule: inlinable_inlinable_seq.induct)
    (auto simp: usable_def Let_def split: if_splits)

lemma mimics_refl: "local_stmt s \<Longrightarrow> reads s \<union> changes s \<subseteq> A \<Longrightarrow> mimics A ops s s"
proof (induction s rule: local_stmt.induct)
  case (8 ss)
  have "mimics A ops s s" if "s \<in> set ss" for s
    using 8 that by (auto simp: UN_subset_iff)
  then show ?case by (intro mimics_Sequence) (simp add: list_all2_conv_all_nth)
qed (auto intro!: mimics_Let mimics_Assignment mimics_Return mimics_Increment mimics_If mimics_While mimics_ForEach)

definition temporaries :: "phase list \<Rightarrow> name set" where
  "temporaries ps = (\<Union>p \<in> set ps. set (anorm_names (owned p)))"

lemma temporaries_not_constant: "temporaries ps \<inter> constant_names = {}"
  by (auto simp: temporaries_def anorm_names_def begins_with_def anorm_str_def constant_names_def)

fun local_binding :: "vbinding \<Rightarrow> bool" where
  "local_binding (TypeBinding n y l remote) = (\<not> remote)"
| "local_binding (WhileBinding n) = True"

text \<open>The transactions that the pass is proved for: no remote variables and no operations, every temporary is
  used while its expression still has the value it had, and only by the phase that owns it.\<close>

definition phase_fits :: "name set \<Rightarrow> phase \<Rightarrow> bool" where
  "phase_fits C p \<longleftrightarrow>
     inlinable (set (anorm_names (owned p))) Map.empty {} (phase_ast p) \<and>
     (reads (phase_ast p) \<union> changes (phase_ast p)) \<inter> C \<subseteq> set (anorm_names (owned p)) \<and>
     list_all local_binding (requirements p @ phase_provides p @ owned p)"

definition recollapsible :: "phase list \<Rightarrow> bool" where
  "recollapsible ps \<longleftrightarrow> (\<forall>p \<in> set ps. phase_fits (temporaries ps) p) \<and>
     (\<forall>x \<in> temporaries ps. holders (all_store ps) x = Some (ValueHolder None))"

definition temporaries_single :: "name set \<Rightarrow> mstore \<Rightarrow> bool" where
  "temporaries_single C s \<longleftrightarrow> (\<forall>n \<in> C. \<exists>x. holders s n = Some (ValueHolder x))"

lemma recollapse_phase_run:
  assumes q: "recollapse_phase p = Some q" and fits: "phase_fits C p"
    and C: "set (anorm_names (owned p)) \<subseteq> C" "C \<inter> constant_names = {}"
    and run: "run_stmt k ops (phase_ast p) (s, r) = Some (ret, (s', r'))"
    and ag: "agree (- C) s t" and single: "temporaries_single C s"
  shows "r' = r \<and> (\<exists>t'. run_stmt k ops (phase_ast q) (t, r) = Some (ret, (t', r)) \<and> agree (- C) s' t') \<and>
    temporaries_single C s'"
proof -
  let ?c = "phase_ast p"
  define Cp where Cp: "Cp = set (anorm_names (owned p))"
  have inl: "inlinable Cp Map.empty {} ?c" and names: "(reads ?c \<union> changes ?c) \<inter> C \<subseteq> Cp" "Cp \<subseteq> C" "C \<inter> constant_names = {}"
    using fits C by (simp_all add: phase_fits_def Cp)
  obtain c' where c': "recollapse_stmt (anorm_names (owned p)) Map.empty ?c = Some c'" and ast: "phase_ast q = c'"
    using q by (auto simp: recollapse_phase_def bind_Some_iff)
  have sub: "reads ?c \<union> changes ?c \<subseteq> - C \<union> Cp" using names(1) by blast
  have split: "name_split (- C) Cp Map.empty" using names(2,3) by (auto simp: name_split_def)
  have start: "inlined (- C) Cp ops r Map.empty {} s t"
    using ag single names(2) by (auto simp: inlined_def temporaries_single_def)
  obtain t' where t': "r' = r" "run_stmt k ops c' (t, r) = Some (ret, (t', r))"
    "inlined (- C) Cp ops r Map.empty (keep Map.empty (changes ?c) {}) s' t'"
    by (rule inlinesE[OF recollapse_inlines(1)[OF inl split sub Cp c'] run start])
  have "agree (- C \<union> Cp) s s" using ag single names(2) by (fastforce simp: agree_def temporaries_single_def)
  from mimicsD[OF mimics_refl[OF inlinable_local(1)[OF inl] sub] run this]
  have out: "same_outside (- C \<union> Cp) s s'" using run by (auto simp: ends_like_def)
  have "\<exists>x. holders s' n = Some (ValueHolder x)" if n: "n \<in> C" for n
  proof (cases "n \<in> Cp")
    case True
    with t'(3) show ?thesis by (simp add: inlined_def)
  next
    case False
    then have "holders s' n = holders s n" using out n by (simp add: same_outside_def)
    with single n show ?thesis by (simp add: temporaries_single_def)
  qed
  with t' ast show ?thesis by (auto simp: inlined_def temporaries_single_def)
qed

lemma agree_begin_phase: "agree A s t \<Longrightarrow> agree A (begin_phase s) (begin_phase t)"
  unfolding agree_def
proof
  fix x assume "\<forall>x \<in> A. holders t x = holders s x \<and> (\<forall>y hs p. holders s x \<noteq> Some (RemoteHolder y hs p))" "x \<in> A"
  then show "holders (begin_phase t) x = holders (begin_phase s) x \<and>
      (\<forall>y hs p. holders (begin_phase s) x \<noteq> Some (RemoteHolder y hs p))"
    by (cases "holders s x"; cases "the (holders s x)") (auto simp: begin_phase_def)
qed

lemma temporaries_single_begin_phase: "temporaries_single C s \<Longrightarrow> temporaries_single C (begin_phase s)"
  unfolding temporaries_single_def begin_phase_def by fastforce

text \<open>The first attempt of a phase succeeds: so does that of the recollapsed phase.\<close>

lemma recollapse_interp:
  assumes q: "recollapse_phase p = Some q" and fits: "phase_fits C p"
    and C: "set (anorm_names (owned p)) \<subseteq> C" "C \<inter> constant_names = {}"
    and run: "common_interp k ops store_commit p s (take 1 rs) = Some (ret, s')"
    and ag: "agree (- C) s t" and single: "temporaries_single C s"
  shows "\<exists>t'. common_interp k ops store_commit q t rs = Some (ret, t') \<and> agree (- C) s' t' \<and> temporaries_single C s'"
proof -
  obtain r rest where rs: "rs = r # rest" using run by (cases rs) auto
  have "common_interp_loop k ops store_commit p s r = Some (ret, s')"
    using common_interp_cases[OF run] by (auto simp: rs Cons_eq_append_conv)
  then obtain r' where st: "run_stmt k ops (phase_ast p) (begin_phase s, r) = Some (ret, (s', r'))"
    and ret: "(phase_returns p = None) = (ret = None)" and commit: "store_commit r' \<noteq> None"
    by (auto simp: common_interp_loop_def run_phase1_def bind_Some_iff require_def split: if_splits)
  obtain t' where t': "r' = r" "run_stmt k ops (phase_ast q) (begin_phase t, r) = Some (ret, (t', r))"
    "agree (- C) s' t'" "temporaries_single C s'"
    using recollapse_phase_run[OF q fits C st agree_begin_phase[OF ag] temporaries_single_begin_phase[OF single]] by blast
  have "phase_returns q = phase_returns p" using q by (auto simp: recollapse_phase_def bind_Some_iff)
  with t' ret commit have "common_interp_loop k ops store_commit q t r = Some (ret, t')"
    by (auto simp: common_interp_loop_def run_phase1_def)
  with t' show ?thesis by (simp add: rs)
qed

lemma recollapse_transaction:
  assumes "list_all2 (\<lambda>p q. recollapse_phase p = Some q) ps qs"
    and "\<And>p. p \<in> set ps \<Longrightarrow> phase_fits C p \<and> set (anorm_names (owned p)) \<subseteq> C" and "C \<inter> constant_names = {}"
    and "run_transaction k ops store_commit ps (map (take 1) rss) s = Some (ret, s')"
    and "agree (- C) s t" "temporaries_single C s"
  shows "\<exists>t'. run_transaction k ops store_commit qs rss t = Some (ret, t') \<and> agree (- C) s' t'"
  using assms(1,2,4-6)
proof (induction ps qs arbitrary: rss s t rule: list_all2_induct)
  case (Cons p ps q qs)
  obtain rs rss' where rss: "rss = rs # rss'" using Cons.prems(2) by (cases rss; cases ps) auto
  have p: "phase_fits C p" "set (anorm_names (owned p)) \<subseteq> C" using Cons.prems(1)[of p] by simp_all
  note interp = recollapse_interp[OF Cons.hyps(1) p assms(3) _ Cons.prems(3,4)]
  show ?case
  proof (cases ps)
    case Nil
    then have "qs = []" using Cons.hyps(2) by simp
    from Cons.prems(2) Nil rss have nil: "rss' = []" and x: "common_interp k ops store_commit p s (take 1 rs) = Some (ret, s')"
      by (cases rss'; auto)+
    obtain t' where "common_interp k ops store_commit q t rs = Some (ret, t')" "agree (- C) s' t'"
      using interp[OF x] by blast
    with nil \<open>qs = []\<close> rss show ?thesis by auto
  next
    case (Cons p2 ps2)
    then obtain q2 qs2 where qs: "qs = q2 # qs2" using Cons.hyps(2) by (cases qs) auto
    obtain x s1 where x: "common_interp k ops store_commit p s (take 1 rs) = Some (x, s1)"
      and rest: "run_transaction k ops store_commit ps (map (take 1) rss') s1 = Some (ret, s')"
      using Cons.prems(2) Cons rss by (auto simp: bind_Some_iff)
    obtain t1 where t1: "common_interp k ops store_commit q t rs = Some (x, t1)" "agree (- C) s1 t1" "temporaries_single C s1"
      using interp[OF x] by blast
    from Cons.IH[OF _ rest t1(2,3)] Cons.prems(1) t1(1) rss qs show ?thesis by auto
  qed
qed simp

section \<open>The stores\<close>


lemma find_filter_other: "(\<And>x. P x \<Longrightarrow> Q x) \<Longrightarrow> find P (filter Q xs) = find P xs"
  by (induction xs) auto

lemma find_append: "find P (xs @ ys) = (case find P xs of Some x \<Rightarrow> Some x | None \<Rightarrow> find P ys)"
  by (induction xs) auto

lemma find_owned:
  assumes "list_all2 (\<lambda>p q. recollapse_phase p = Some q) ps qs" "x \<notin> temporaries ps"
  shows "find (\<lambda>b. vbinding_name b = x) (concat (map owned qs)) = find (\<lambda>b. vbinding_name b = x) (concat (map owned ps))"
  using assms
proof (induction ps qs rule: list_all2_induct)
  case (Cons p ps q qs)
  have "owned q = filter (\<lambda>b. vbinding_name b \<notin> set (anorm_names (owned p))) (owned p)"
    using Cons.hyps(1) by (auto simp: recollapse_phase_def without_names_def bind_Some_iff)
  moreover have "x \<notin> set (anorm_names (owned p))" "x \<notin> temporaries ps" using Cons.prems by (simp_all add: temporaries_def)
  ultimately have "find (\<lambda>b. vbinding_name b = x) (owned q) = find (\<lambda>b. vbinding_name b = x) (owned p)"
    by (auto intro: find_filter_other)
  with Cons.IH \<open>x \<notin> temporaries ps\<close> show ?case by (simp add: find_append cong: option.case_cong)
qed simp

lemma recollapse_other_parts:
  assumes "list_all2 (\<lambda>p q. recollapse_phase p = Some q) ps qs"
  shows "map phase_provides qs = map phase_provides ps" "map requirements qs = map requirements ps"
  using assms by (induction ps qs rule: list_all2_induct) (auto simp: recollapse_phase_def bind_Some_iff)

lemma all_requirements: "(\<forall>p \<in> set ps. b \<in> f ` set (requirements p)) = (\<forall>r \<in> set (map requirements ps). b \<in> f ` set r)"
  by simp

lemma all_store_recollapse:
  assumes "list_all2 (\<lambda>p q. recollapse_phase p = Some q) ps qs" "x \<notin> temporaries ps"
  shows "holders (all_store qs) x = holders (all_store ps) x"
  unfolding all_store_def Let_def all_requirements recollapse_other_parts[OF assms(1)] mstore.simps find_owned[OF assms]
  by (rule refl)

lemma all_store_not_remote:
  assumes "\<And>p. p \<in> set ps \<Longrightarrow> list_all local_binding (requirements p @ phase_provides p @ owned p)"
  shows "holders (all_store ps) x \<noteq> Some (RemoteHolder y hs k)"
proof -
  have not_remote: "binding_holder b \<noteq> RemoteHolder y hs k" "owned_holder b \<noteq> RemoteHolder y hs k" if "local_binding b" for b
    using that by (cases b rule: binding_holder.cases; simp)+
  let ?provided = "concat (map phase_provides ps) @
      filter (\<lambda>b. \<forall>p \<in> set ps. holder_type b \<in> holder_type ` set (requirements p)) (concat (map requirements ps))"
  have all: "\<forall>b \<in> set (?provided @ concat (map owned ps)). local_binding b"
  proof -
    have "local_binding b" if "p \<in> set ps" "b \<in> set (requirements p) \<or> b \<in> set (phase_provides p) \<or> b \<in> set (owned p)" for p b
      using assms[OF that(1)] that(2) by (auto simp: list_all_iff)
    then show ?thesis unfolding set_append set_filter set_concat set_map by blast
  qed
  have found: "local_binding b" if "find P bs = Some b" "set bs \<subseteq> set (?provided @ concat (map owned ps))" for P bs b
  proof -
    have "b \<in> set bs" using that(1) by (auto simp: find_Some_iff)
    with that(2) all show ?thesis by blast
  qed
  show ?thesis
  proof (cases "find (\<lambda>b. vbinding_name b = x) ?provided")
    case (Some b)
    have "local_binding b" by (rule found[OF Some]) auto
    with not_remote Some show ?thesis by (simp add: all_store_def Let_def)
  next
    case None
    show ?thesis
    proof (cases "find (\<lambda>b. vbinding_name b = x) (concat (map owned ps))")
      case (Some b)
      have "local_binding b" by (rule found[OF Some]) auto
      with not_remote Some None show ?thesis by (simp add: all_store_def Let_def)
    qed (use None in \<open>simp add: all_store_def Let_def\<close>)
  qed
qed

lemma recollapsed_transaction_runs:
  assumes "recollapse ps = Some qs" "recollapsible ps"
    and "run_transaction k ops store_commit ps (map (take 1) rss) (all_store ps) = Some (ret, s)"
  shows "\<exists>t. run_transaction k ops store_commit qs rss (all_store qs) = Some (ret, t) \<and>
    (\<forall>x. x \<notin> temporaries ps \<longrightarrow> holders t x = holders s x)"
proof -
  let ?C = "temporaries ps"
  have rel: "list_all2 (\<lambda>p q. recollapse_phase p = Some q) ps qs"
    using assms(1) unfolding recollapse_def by (rule those_map_list_all2)
  have fits: "phase_fits ?C p \<and> set (anorm_names (owned p)) \<subseteq> ?C" if "p \<in> set ps" for p
    using assms(2) that by (auto simp: recollapsible_def temporaries_def)
  have "holders (all_store ps) x \<noteq> Some (RemoteHolder y hs j)" for x y hs j
    by (rule all_store_not_remote) (use fits in \<open>simp add: phase_fits_def\<close>)
  then have "agree (- ?C) (all_store ps) (all_store qs)"
    using all_store_recollapse[OF rel] by (simp add: agree_def)
  moreover have "temporaries_single ?C (all_store ps)"
    using assms(2) by (simp add: recollapsible_def temporaries_single_def)
  ultimately obtain t where "run_transaction k ops store_commit qs rss (all_store qs) = Some (ret, t)" "agree (- ?C) s t"
    using recollapse_transaction[OF rel fits temporaries_not_constant assms(3)] by blast
  then show ?thesis by (auto simp: agree_def)
qed

section \<open>Relabelled transactions\<close>

lemma relabel_phase_cases:
  "relabel_phase p = Some q \<Longrightarrow>
   q = p \<or> (\<exists>l c. relabel_stmt l (PreEndorse l) (phase_ast p) = Some c \<and> q = p\<lparr>phase_label := l, phase_ast := c\<rparr>)"
  by (cases "phase_label p") (simp_all add: relabel_phase_def bind_Some_iff, blast+)

lemma relabel_phase_parts:
  assumes "relabel_phase p = Some q"
  shows "run_phase1 k ops q st = run_phase1 k ops p st" "phase_provides q = phase_provides p"
    "requirements q = requirements p" "owned q = owned p"
proof -
  have "run_phase1 k ops q st = run_phase1 k ops p st \<and> phase_provides q = phase_provides p \<and>
    requirements q = requirements p \<and> owned q = owned p"
    using relabel_phase_cases[OF assms]
  proof (elim disjE exE conjE)
    fix l c assume c: "relabel_stmt l (PreEndorse l) (phase_ast p) = Some c" and q: "q = p\<lparr>phase_label := l, phase_ast := c\<rparr>"
    have "run_stmt k ops c = run_stmt k ops (phase_ast p)" by (rule ext) (rule run_relabel(1)[OF c])
    then show ?thesis by (simp add: q run_phase1_def)
  qed simp
  then show "run_phase1 k ops q st = run_phase1 k ops p st" "phase_provides q = phase_provides p"
    "requirements q = requirements p" "owned q = owned p" by simp_all
qed

lemma relabel_interp:
  assumes "relabel_phase p = Some q" "common_interp k ops store_commit p s (take 1 rs) = Some res"
  shows "common_interp k ops store_commit q s rs = Some res"
proof -
  obtain r rest where rs: "rs = r # rest" using assms(2) by (cases rs) auto
  have "common_interp_loop k ops store_commit p s r = Some res"
    using common_interp_cases[OF assms(2)] by (auto simp: rs Cons_eq_append_conv)
  then have "common_interp_loop k ops store_commit q s r = Some res"
    by (simp add: common_interp_loop_def relabel_phase_parts[OF assms(1)])
  then show ?thesis by (simp add: rs)
qed

lemma relabel_transaction:
  assumes "list_all2 (\<lambda>p q. relabel_phase p = Some q) ps qs"
    and "run_transaction k ops store_commit ps (map (take 1) rss) s = Some res"
  shows "run_transaction k ops store_commit qs rss s = Some res"
  using assms
proof (induction ps qs arbitrary: rss s rule: list_all2_induct)
  case (Cons p ps q qs)
  obtain rs rss' where rss: "rss = rs # rss'" using Cons.prems by (cases rss; cases ps) auto
  note interp = relabel_interp[OF Cons.hyps(1)]
  show ?case
  proof (cases ps)
    case Nil
    then have "qs = []" using Cons.hyps(2) by simp
    from Cons.prems Nil rss have nil: "rss' = []" and x: "common_interp k ops store_commit p s (take 1 rs) = Some res"
      by (cases rss'; auto)+
    from interp[OF x] nil \<open>qs = []\<close> rss show ?thesis by simp
  next
    case (Cons p2 ps2)
    then obtain q2 qs2 where qs: "qs = q2 # qs2" using Cons.hyps(2) by (cases qs) auto
    obtain x s1 where x: "common_interp k ops store_commit p s (take 1 rs) = Some (x, s1)"
      and rest: "run_transaction k ops store_commit ps (map (take 1) rss') s1 = Some res"
      using Cons.prems Cons rss by (auto simp: bind_Some_iff)
    from Cons.IH[OF rest] interp[OF x] rss qs show ?thesis by simp
  qed
qed simp

lemma all_store_relabel:
  assumes "list_all2 (\<lambda>p q. relabel_phase p = Some q) ps qs"
  shows "all_store qs = all_store ps"
proof -
  have "map phase_provides qs = map phase_provides ps" "map requirements qs = map requirements ps" "map owned qs = map owned ps"
    using assms by (induction ps qs rule: list_all2_induct) (simp_all add: relabel_phase_parts)
  note parts = this
  show ?thesis unfolding all_store_def all_requirements parts by (rule refl)
qed

end
