(* ===== verification/Endorse.thy ===== *)
theory Endorse
  imports LabelInference
begin

text \<open>
  Endorsement, \<open>mtl/endorse_relabel.hpp\<close>: what an endorsed variable was computed from moves to phases of their
  own, which run before the others, under pre-endorsed labels (\<open>mtl/pre_endorse.hpp\<close>).
  \<open>do_pre_endorse\<close> finds those variables with a worklist (\<open>mtl/worklist.hpp\<close>), goes over the program
  until the worklist is empty, and relabels it.
\<close>

section \<open>Worklists\<close>

text \<open>\<open>WorkList<current,all_time>\<close>.  Its elements are names, or \<open>mutils::mismatch\<close>, which is \<^term>\<open>None\<close>.\<close>

record worklist =
  current_elements :: "name option list"
  all_time :: "name option list"

definition wl_append :: "name option \<Rightarrow> worklist \<Rightarrow> worklist" where
  "wl_append e w = (if e \<in> set (all_time w) then w
     else \<lparr>current_elements = current_elements w @ [e], all_time = all_time w @ [e]\<rparr>)"

definition wl_combine :: "worklist \<Rightarrow> worklist \<Rightarrow> worklist" where
  "wl_combine a b = fold wl_append (current_elements b) a"

text \<open>\<open>Combine_all\<close> goes from the last to the first.\<close>

definition combine_all :: "worklist \<Rightarrow> worklist list \<Rightarrow> worklist" where
  "combine_all d ws = foldr (\<lambda>w acc. wl_combine acc w) ws d"

section \<open>Finding the variables\<close>

fun add_all_varrefs :: "worklist \<Rightarrow> lexpr \<Rightarrow> worklist" where
  "add_all_varrefs w (LE_VarReference l y v) = wl_append (Some v) w"
| "add_all_varrefs w (LE_FieldReference l y s f) = add_all_varrefs w s"
| "add_all_varrefs w (LE_Constant i) = w"
| "add_all_varrefs w (LE_BinOp l y op a b) = wl_combine (add_all_varrefs w a) (add_all_varrefs w b)"
| "add_all_varrefs w (LE_GenerateTombstone l) = w"
| "add_all_varrefs w (LE_IsValid l h) = add_all_varrefs w h"
| "add_all_varrefs w (LE_Endorse l y h) = add_all_varrefs w h"
| "add_all_varrefs w (LE_Operation l y n h as) = combine_all w (add_all_varrefs w h # map (add_all_varrefs w) as)"

fun collect_pre_endorse_expr :: "worklist \<Rightarrow> lexpr \<Rightarrow> worklist" where
  "collect_pre_endorse_expr w (LE_Endorse l y h) =
     (case h of LE_VarReference l' y' v \<Rightarrow> wl_append (Some v) w | _ \<Rightarrow> collect_pre_endorse_expr w h)"
| "collect_pre_endorse_expr w (LE_VarReference l y v) = w"
| "collect_pre_endorse_expr w (LE_FieldReference l y s f) = collect_pre_endorse_expr w s"
| "collect_pre_endorse_expr w (LE_Constant i) = w"
| "collect_pre_endorse_expr w (LE_BinOp l y op a b) =
     wl_combine (collect_pre_endorse_expr w a) (collect_pre_endorse_expr w b)"
| "collect_pre_endorse_expr w (LE_GenerateTombstone l) = w"
| "collect_pre_endorse_expr w (LE_IsValid l h) = collect_pre_endorse_expr w h"
| "collect_pre_endorse_expr w (LE_Operation l y n h as) =
     combine_all w (collect_pre_endorse_expr w h # map (collect_pre_endorse_expr w) as)"

fun collect_pre_endorse_binding :: "worklist \<Rightarrow> lbinding \<Rightarrow> worklist" where
  "collect_pre_endorse_binding w (LBinding l y v e) =
     (if Some v \<in> set (current_elements w) then add_all_varrefs w e else collect_pre_endorse_expr w e)"

text \<open>\<open>contains_endorsement\<close>, which also looks for the variables of the worklist.  At a variable, what was found
  before is dropped.\<close>

fun contains_endorsement_expr :: "name option list \<Rightarrow> bool \<Rightarrow> lexpr \<Rightarrow> bool" where
  "contains_endorsement_expr ns found (LE_Endorse l y h) =
     (case h of LE_VarReference l' y' v \<Rightarrow> True | _ \<Rightarrow> found \<or> contains_endorsement_expr ns found h)"
| "contains_endorsement_expr ns found (LE_VarReference l y v) = (Some v \<in> set ns)"
| "contains_endorsement_expr ns found (LE_FieldReference l y s f) = (found \<or> contains_endorsement_expr ns found s)"
| "contains_endorsement_expr ns found (LE_Constant i) = found"
| "contains_endorsement_expr ns found (LE_BinOp l y op a b) =
     (found \<or> contains_endorsement_expr ns (contains_endorsement_expr ns found a) b)"
| "contains_endorsement_expr ns found (LE_GenerateTombstone l) = found"
| "contains_endorsement_expr ns found (LE_IsValid l h) = (found \<or> contains_endorsement_expr ns found h)"
| "contains_endorsement_expr ns found (LE_Operation l y n h as) =
     (found \<or> contains_endorsement_expr ns (foldr (\<lambda>a acc. contains_endorsement_expr ns acc a) as found) h)"

fun contains_endorsement_binding :: "name option list \<Rightarrow> bool \<Rightarrow> lbinding \<Rightarrow> bool" where
  "contains_endorsement_binding ns found (LBinding l y v e) = (found \<or> contains_endorsement_expr ns found e)"

fun contains_endorsement :: "name option list \<Rightarrow> bool \<Rightarrow> lstmt \<Rightarrow> bool" where
  "contains_endorsement ns found (LS_Let l b s) =
     (found \<or> contains_endorsement ns (contains_endorsement_binding ns found b) s)"
| "contains_endorsement ns found (LS_LetRemote l b s) =
     (found \<or> contains_endorsement ns (contains_endorsement_binding ns found b) s)"
| "contains_endorsement ns found (LS_Operation l n h as) =
     (found \<or> contains_endorsement_expr ns (foldr (\<lambda>a acc. contains_endorsement_expr ns acc a) as found) h)"
| "contains_endorsement ns found (LS_Assignment l v e) =
     (found \<or> contains_endorsement_expr ns (contains_endorsement_expr ns found v) e)"
| "contains_endorsement ns found (LS_Return e) = (found \<or> contains_endorsement_expr ns found e)"
| "contains_endorsement ns found (LS_WriteTombstone l e) = (found \<or> contains_endorsement_expr ns found e)"
| "contains_endorsement ns found (LS_AccompanyWrite l e) = (found \<or> contains_endorsement_expr ns found e)"
| "contains_endorsement ns found (LS_If l c t e) =
     (found \<or> contains_endorsement ns (contains_endorsement ns (contains_endorsement_expr ns found c) t) e)"
| "contains_endorsement ns found (LS_While l c s) =
     (found \<or> contains_endorsement ns (contains_endorsement_expr ns found c) s)"
| "contains_endorsement ns found (LS_Sequence l ss) =
     (found \<or> foldr (\<lambda>s acc. contains_endorsement ns acc s) ss found)"

text \<open>
  \<open>collect_pre_endorse\<close>.  A conditional or loop has a rule of its own when it has the label of its condition, a
  variable; if there is an endorsement under it, that rule names the member \<open>append<v>\<close> without calling it,
  and the result is not a worklist.
\<close>

fun own_rule :: "label \<Rightarrow> lexpr \<Rightarrow> bool" where
  "own_rule l (LE_VarReference lc y v) = (lc = l \<and> y = Y_bool)"
| "own_rule l _ = False"

fun collect_pre_endorse :: "worklist \<Rightarrow> lstmt \<Rightarrow> worklist option" where
  "collect_pre_endorse w (LS_Let l b s) = do {
     s \<leftarrow> collect_pre_endorse w s; Some (wl_combine (collect_pre_endorse_binding w b) s) }"
| "collect_pre_endorse w (LS_LetRemote l b s) = do {
     s \<leftarrow> collect_pre_endorse w s; Some (wl_combine (collect_pre_endorse_binding w b) s) }"
| "collect_pre_endorse w (LS_Operation l n h as) =
     Some (combine_all w (collect_pre_endorse_expr w h # map (collect_pre_endorse_expr w) as))"
| "collect_pre_endorse w (LS_Assignment l v e) =
     Some (wl_combine (collect_pre_endorse_expr w v) (collect_pre_endorse_expr w e))"
| "collect_pre_endorse w (LS_Return e) = Some (collect_pre_endorse_expr w e)"
| "collect_pre_endorse w (LS_WriteTombstone l e) = Some (collect_pre_endorse_expr w e)"
| "collect_pre_endorse w (LS_AccompanyWrite l e) = Some (collect_pre_endorse_expr w e)"
| "collect_pre_endorse w (LS_If l c t e) = do {
     t' \<leftarrow> collect_pre_endorse w t;
     e' \<leftarrow> collect_pre_endorse w e;
     (if own_rule l c
      then (if contains_endorsement (current_elements w) False (LS_If l c t e) then None
            else Some (wl_combine t' e'))
      else Some (wl_combine (wl_combine (collect_pre_endorse_expr w c) t') e')) }"
| "collect_pre_endorse w (LS_While l c s) = do {
     s' \<leftarrow> collect_pre_endorse w s;
     (if own_rule l c
      then (if contains_endorsement (current_elements w) False s then None else Some s')
      else Some (wl_combine (collect_pre_endorse_expr w c) s')) }"
| "collect_pre_endorse w (LS_Sequence l ss) = do {
     ws \<leftarrow> those (map (collect_pre_endorse w) ss); Some (combine_all w ws) }"

section \<open>Relabelling\<close>

text \<open>
  \<open>endorse_relabel\<close>.  The other nodes are rebuilt by their \<open>default_traverse\<close>, which computes their labels anew:
  a binding gives its label to its statement, and a condition to the conditional or loop, whatever
  the program counter was.
\<close>

fun endorse_relabel_expr :: "name option list \<Rightarrow> lexpr \<Rightarrow> lexpr option" where
  "endorse_relabel_expr P (LE_VarReference l y v) =
     Some (LE_VarReference (if Some v \<in> set P then PreEndorse_notop l else l) y v)"
| "endorse_relabel_expr P (LE_Endorse l y h) = endorse_relabel_expr P h"
| "endorse_relabel_expr P (LE_Operation l y n h as) = do {
     newh \<leftarrow> endorse_relabel_expr P h;
     newas \<leftarrow> those (map (endorse_relabel_expr P) as);
     if list_ex (\<lambda>e. is_pre_endorsed (expr_label e)) (newh # newas) then None else Some (LE_Operation l y n h as) }"
| "endorse_relabel_expr P (LE_FieldReference l y s f) = do {
     s \<leftarrow> endorse_relabel_expr P s; Some (LE_FieldReference (expr_label s) y s f) }"
| "endorse_relabel_expr P (LE_Constant i) = Some (LE_Constant i)"
| "endorse_relabel_expr P (LE_BinOp l y op a b) = do {
     a \<leftarrow> endorse_relabel_expr P a;
     b \<leftarrow> endorse_relabel_expr P b;
     l \<leftarrow> resolved_label_min (expr_label a) (expr_label b);
     Some (LE_BinOp l y op a b) }"
| "endorse_relabel_expr P (LE_GenerateTombstone l) = Some (LE_GenerateTombstone l)"
| "endorse_relabel_expr P (LE_IsValid l h) = do {
     hl \<leftarrow> handle_label_of (expr_yield h);
     h \<leftarrow> endorse_relabel_expr P h;
     l \<leftarrow> resolved_label_min (expr_label h) hl;
     Some (LE_IsValid l h) }"

fun endorse_relabel_binding :: "name option list \<Rightarrow> lbinding \<Rightarrow> lbinding option" where
  "endorse_relabel_binding P (LBinding l y v e) = do {
     e \<leftarrow> endorse_relabel_expr P e;
     Some (LBinding (if Some v \<in> set P then PreEndorse_notop l else l) y v e) }"

fun binding_label :: "lbinding \<Rightarrow> label" where
  "binding_label (LBinding l y v e) = l"

text \<open>An assignment stays as it is; the assertion fails only when both of its sides are pre-endorsed.\<close>

fun endorse_relabel :: "name option list \<Rightarrow> lstmt \<Rightarrow> lstmt option" where
  "endorse_relabel P (LS_Operation l n h as) = do {
     newh \<leftarrow> endorse_relabel_expr P h;
     newas \<leftarrow> those (map (endorse_relabel_expr P) as);
     if list_ex (\<lambda>e. is_pre_endorsed (expr_label e)) (newh # newas) then None else Some (LS_Operation l n h as) }"
| "endorse_relabel P (LS_Assignment l v e) = do {
     v' \<leftarrow> endorse_relabel_expr P v;
     e' \<leftarrow> endorse_relabel_expr P e;
     if \<not> is_pre_endorsed (expr_label v') \<or> \<not> is_pre_endorsed (expr_label e') then Some (LS_Assignment l v e) else None }"
| "endorse_relabel P (LS_Let l b s) = do {
     b \<leftarrow> endorse_relabel_binding P b; s \<leftarrow> endorse_relabel P s; Some (LS_Let (binding_label b) b s) }"
| "endorse_relabel P (LS_LetRemote l b s) = do {
     b \<leftarrow> endorse_relabel_binding P b; s \<leftarrow> endorse_relabel P s; Some (LS_LetRemote (binding_label b) b s) }"
| "endorse_relabel P (LS_Return e) = do { e \<leftarrow> endorse_relabel_expr P e; Some (LS_Return e) }"
| "endorse_relabel P (LS_WriteTombstone l e) = do {
     e \<leftarrow> endorse_relabel_expr P e; Some (LS_WriteTombstone (expr_label e) e) }"
| "endorse_relabel P (LS_AccompanyWrite l e) = do {
     e \<leftarrow> endorse_relabel_expr P e; Some (LS_AccompanyWrite (expr_label e) e) }"
| "endorse_relabel P (LS_If l c t e) = do {
     c \<leftarrow> endorse_relabel_expr P c; t \<leftarrow> endorse_relabel P t; e \<leftarrow> endorse_relabel P e;
     Some (LS_If (expr_label c) c t e) }"
| "endorse_relabel P (LS_While l c s) = do {
     c \<leftarrow> endorse_relabel_expr P c; s \<leftarrow> endorse_relabel P s; Some (LS_While (expr_label c) c s) }"
| "endorse_relabel P (LS_Sequence l ss) = do {
     ss \<leftarrow> those (map (endorse_relabel P) ss); Some (LS_Sequence l ss) }"

section \<open>Worklists only grow\<close>

text \<open>\<open>w'\<close> has the elements of \<open>w\<close>, and new ones of \<open>U\<close>, each once.\<close>

definition grows :: "name option set \<Rightarrow> worklist \<Rightarrow> worklist \<Rightarrow> bool" where
  "grows U w w' \<longleftrightarrow> (\<exists>ns. current_elements w' = current_elements w @ ns \<and> all_time w' = all_time w @ ns \<and>
     distinct ns \<and> set ns \<inter> set (all_time w) = {} \<and> set ns \<subseteq> U)"

lemma grows_refl [simp]: "grows U w w"
  by (simp add: grows_def)

lemma grows_trans: "grows U w v \<Longrightarrow> grows U v u \<Longrightarrow> grows U w u"
  unfolding grows_def by (elim exE conjE) (rename_tac ns ms, rule_tac x = "ns @ ms" in exI, auto)

lemma grows_mono: "grows U w v \<Longrightarrow> U \<subseteq> V \<Longrightarrow> grows V w v"
  unfolding grows_def by blast

lemma grows_append: "e \<in> U \<Longrightarrow> grows U w (wl_append e w)"
  by (auto simp: wl_append_def grows_def)

lemma wl_append_in [simp]: "e \<in> set (all_time (wl_append e w))"
  by (simp add: wl_append_def)

lemma grows_fold: "set es \<subseteq> U \<Longrightarrow> grows U w (fold wl_append es w)"
  by (induction es arbitrary: w) (auto intro: grows_trans grows_append)

lemma fold_append_all: "set (all_time (fold wl_append es w)) = set (all_time w) \<union> set es"
  by (induction es arbitrary: w) (auto simp: wl_append_def)

lemma grows_current: "grows U w v \<Longrightarrow> set (current_elements w) \<subseteq> U \<Longrightarrow> set (current_elements v) \<subseteq> U"
  by (auto simp: grows_def)

lemma grows_sets:
  "grows U w v \<Longrightarrow> set (all_time w) \<subseteq> set (all_time v)"
  "grows U w v \<Longrightarrow> set (all_time v) \<subseteq> set (all_time w) \<union> set (current_elements v)"
  by (auto simp: grows_def)

text \<open>What two parts of a program make of the same worklist.\<close>

lemma combine_grows:
  assumes "grows U w a" "grows U w b" "set (current_elements w) \<subseteq> U"
  shows "grows U w (wl_combine a b)" and "set (all_time a) \<union> set (all_time b) \<subseteq> set (all_time (wl_combine a b))"
proof -
  show "grows U w (wl_combine a b)"
    unfolding wl_combine_def using grows_trans[OF assms(1) grows_fold] grows_current[OF assms(2,3)] by blast
  show "set (all_time a) \<union> set (all_time b) \<subseteq> set (all_time (wl_combine a b))"
    using grows_sets(1)[OF assms(1)] grows_sets(2)[OF assms(2)] by (auto simp: wl_combine_def fold_append_all)
qed

lemma combine_all_grows:
  assumes "\<forall>v \<in> set ws. grows U w v" "set (current_elements w) \<subseteq> U"
  shows "grows U w (combine_all w ws)" and "\<forall>v \<in> set ws. set (all_time v) \<subseteq> set (all_time (combine_all w ws))"
proof -
  have "grows U w (combine_all w ws) \<and> (\<forall>v \<in> set ws. set (all_time v) \<subseteq> set (all_time (combine_all w ws)))"
    using assms(1)
  proof (induction ws)
    case (Cons v ws)
    then have "grows U w (combine_all w ws)" "grows U w v" by simp_all
    from combine_grows[OF this assms(2)] Cons show ?case by (auto simp: combine_all_def)
  qed (simp add: combine_all_def)
  then show "grows U w (combine_all w ws)" "\<forall>v \<in> set ws. set (all_time v) \<subseteq> set (all_time (combine_all w ws))"
    by blast+
qed

text \<open>The variables of an expression, and those that are endorsed in it.\<close>

fun expr_names :: "lexpr \<Rightarrow> name set" where
  "expr_names (LE_VarReference l y v) = {v}"
| "expr_names (LE_FieldReference l y s f) = expr_names s"
| "expr_names (LE_BinOp l y op a b) = expr_names a \<union> expr_names b"
| "expr_names (LE_IsValid l h) = expr_names h"
| "expr_names (LE_Endorse l y h) = expr_names h"
| "expr_names (LE_Operation l y n h as) = expr_names h \<union> (\<Union>a \<in> set as. expr_names a)"
| "expr_names _ = {}"

fun endorsed_names :: "lexpr \<Rightarrow> name set" where
  "endorsed_names (LE_VarReference l y v) = {}"
| "endorsed_names (LE_FieldReference l y s f) = endorsed_names s"
| "endorsed_names (LE_BinOp l y op a b) = endorsed_names a \<union> endorsed_names b"
| "endorsed_names (LE_IsValid l h) = endorsed_names h"
| "endorsed_names (LE_Endorse l y h) = (case h of LE_VarReference l' y' v \<Rightarrow> {v} | _ \<Rightarrow> endorsed_names h)"
| "endorsed_names (LE_Operation l y n h as) = endorsed_names h \<union> (\<Union>a \<in> set as. endorsed_names a)"
| "endorsed_names _ = {}"

lemma endorsed_subset: "endorsed_names e \<subseteq> expr_names e"
proof (induction e)
  case (LE_Endorse l y h)
  then show ?case by (cases h) auto
qed auto

lemma add_all_varrefs_grows:
  "set (current_elements w) \<subseteq> U \<Longrightarrow> Some ` expr_names e \<subseteq> U \<Longrightarrow>
   grows U w (add_all_varrefs w e) \<and> Some ` expr_names e \<subseteq> set (all_time (add_all_varrefs w e))"
proof (induction e)
  case (LE_BinOp l y op a b)
  then have "grows U w (add_all_varrefs w a)" "grows U w (add_all_varrefs w b)" by (auto simp: image_Un)
  from combine_grows[OF this LE_BinOp.prems(1)] LE_BinOp show ?case by (auto simp: image_Un)
next
  case (LE_Operation l y n h as)
  have h: "grows U w (add_all_varrefs w h) \<and> Some ` expr_names h \<subseteq> set (all_time (add_all_varrefs w h))"
    using LE_Operation.IH(1) LE_Operation.prems by (auto simp: image_Un)
  have as: "grows U w (add_all_varrefs w a) \<and> Some ` expr_names a \<subseteq> set (all_time (add_all_varrefs w a))"
    if a: "a \<in> set as" for a
  proof -
    have "Some ` expr_names a \<subseteq> U" using LE_Operation.prems(2) a by auto
    from LE_Operation.IH(2)[OF a LE_Operation.prems(1) this] show ?thesis .
  qed
  have "\<forall>v \<in> set (add_all_varrefs w h # map (add_all_varrefs w) as). grows U w v" using h as by auto
  note all = combine_all_grows[OF this LE_Operation.prems(1)]
  let ?W = "combine_all w (add_all_varrefs w h # map (add_all_varrefs w) as)"
  have "Some ` expr_names h \<subseteq> set (all_time ?W)" using h all(2) by force
  moreover have "Some ` expr_names a \<subseteq> set (all_time ?W)" if "a \<in> set as" for a using as[OF that] all(2) that by force
  ultimately show ?case using all(1) by (simp only: add_all_varrefs.simps expr_names.simps image_Un image_UN) blast
next
  case (LE_VarReference l y v)
  then show ?case by (simp add: grows_append)
next
  case (LE_FieldReference l y s f)
  then show ?case by (simp only: add_all_varrefs.simps expr_names.simps)
next
  case (LE_IsValid l h)
  then show ?case by (simp only: add_all_varrefs.simps expr_names.simps)
next
  case (LE_Endorse l y h)
  then show ?case by (simp only: add_all_varrefs.simps expr_names.simps)
qed simp_all

lemma collect_expr_grows:
  "set (current_elements w) \<subseteq> U \<Longrightarrow> Some ` endorsed_names e \<subseteq> U \<Longrightarrow>
   grows U w (collect_pre_endorse_expr w e) \<and> Some ` endorsed_names e \<subseteq> set (all_time (collect_pre_endorse_expr w e))"
proof (induction e)
  case (LE_Endorse l y h)
  then show ?case by (cases h) (auto intro: grows_append)
next
  case (LE_BinOp l y op a b)
  then have "grows U w (collect_pre_endorse_expr w a)" "grows U w (collect_pre_endorse_expr w b)" by (auto simp: image_Un)
  from combine_grows[OF this LE_BinOp.prems(1)] LE_BinOp show ?case by (auto simp: image_Un)
next
  case (LE_Operation l y n h as)
  have h: "grows U w (collect_pre_endorse_expr w h) \<and> Some ` endorsed_names h \<subseteq> set (all_time (collect_pre_endorse_expr w h))"
    using LE_Operation.IH(1) LE_Operation.prems by (auto simp: image_Un)
  have as: "grows U w (collect_pre_endorse_expr w a) \<and> Some ` endorsed_names a \<subseteq> set (all_time (collect_pre_endorse_expr w a))"
    if a: "a \<in> set as" for a
  proof -
    have "Some ` endorsed_names a \<subseteq> U" using LE_Operation.prems(2) a by auto
    from LE_Operation.IH(2)[OF a LE_Operation.prems(1) this] show ?thesis .
  qed
  have "\<forall>v \<in> set (collect_pre_endorse_expr w h # map (collect_pre_endorse_expr w) as). grows U w v" using h as by auto
  note all = combine_all_grows[OF this LE_Operation.prems(1)]
  let ?W = "combine_all w (collect_pre_endorse_expr w h # map (collect_pre_endorse_expr w) as)"
  have "Some ` endorsed_names h \<subseteq> set (all_time ?W)" using h all(2) by force
  moreover have "Some ` endorsed_names a \<subseteq> set (all_time ?W)" if "a \<in> set as" for a using as[OF that] all(2) that by force
  ultimately show ?case using all(1) by (simp only: collect_pre_endorse_expr.simps endorsed_names.simps image_Un image_UN) blast
next
  case (LE_FieldReference l y s f)
  then show ?case by (simp only: collect_pre_endorse_expr.simps endorsed_names.simps)
next
  case (LE_IsValid l h)
  then show ?case by (simp only: collect_pre_endorse_expr.simps endorsed_names.simps)
qed simp_all

text \<open>What one pass adds to a worklist.\<close>

fun binding_adds :: "name option list \<Rightarrow> lbinding \<Rightarrow> name set" where
  "binding_adds ns (LBinding l y v e) = (if Some v \<in> set ns then expr_names e else endorsed_names e)"

fun adds :: "name option list \<Rightarrow> lstmt \<Rightarrow> name set" where
  "adds ns (LS_Let l b s) = binding_adds ns b \<union> adds ns s"
| "adds ns (LS_LetRemote l b s) = binding_adds ns b \<union> adds ns s"
| "adds ns (LS_Operation l n h as) = endorsed_names h \<union> (\<Union>a \<in> set as. endorsed_names a)"
| "adds ns (LS_Assignment l v e) = endorsed_names v \<union> endorsed_names e"
| "adds ns (LS_Return e) = endorsed_names e"
| "adds ns (LS_WriteTombstone l e) = endorsed_names e"
| "adds ns (LS_AccompanyWrite l e) = endorsed_names e"
| "adds ns (LS_If l c t e) = endorsed_names c \<union> adds ns t \<union> adds ns e"
| "adds ns (LS_While l c s) = endorsed_names c \<union> adds ns s"
| "adds ns (LS_Sequence l ss) = (\<Union>s \<in> set ss. adds ns s)"

lemma collect_binding_grows:
  "set (current_elements w) \<subseteq> U \<Longrightarrow> Some ` binding_adds (current_elements w) b \<subseteq> U \<Longrightarrow>
   grows U w (collect_pre_endorse_binding w b) \<and>
   Some ` binding_adds (current_elements w) b \<subseteq> set (all_time (collect_pre_endorse_binding w b))"
proof (cases b)
  case (LBinding l y v e)
  assume "set (current_elements w) \<subseteq> U" "Some ` binding_adds (current_elements w) b \<subseteq> U"
  with LBinding show ?thesis
    by (cases "Some v \<in> set (current_elements w)") (simp_all add: collect_expr_grows add_all_varrefs_grows)
qed

lemma collect_exprs_grows:
  assumes "set (current_elements w) \<subseteq> U" "\<forall>e \<in> set es. Some ` endorsed_names e \<subseteq> U"
  shows "grows U w (combine_all w (map (collect_pre_endorse_expr w) es)) \<and>
    (\<forall>e \<in> set es. Some ` endorsed_names e \<subseteq> set (all_time (combine_all w (map (collect_pre_endorse_expr w) es))))"
proof -
  have "\<forall>v \<in> set (map (collect_pre_endorse_expr w) es). grows U w v" using collect_expr_grows assms by auto
  from combine_all_grows[OF this assms(1)] collect_expr_grows[OF assms(1)] assms(2) show ?thesis by fastforce
qed

lemma collect_grows:
  "collect_pre_endorse w s = Some w' \<Longrightarrow> set (current_elements w) \<subseteq> U \<Longrightarrow> Some ` adds (current_elements w) s \<subseteq> U \<Longrightarrow>
   grows U w w' \<and> Some ` adds (current_elements w) s \<subseteq> set (all_time w')"
proof (induction s arbitrary: w')
  case (LS_Let l b s)
  obtain v where v: "collect_pre_endorse w s = Some v" "w' = wl_combine (collect_pre_endorse_binding w b) v"
    using LS_Let.prems(1) by (auto simp: bind_Some_iff)
  have b: "grows U w (collect_pre_endorse_binding w b)"
    "Some ` binding_adds (current_elements w) b \<subseteq> set (all_time (collect_pre_endorse_binding w b))"
    using collect_binding_grows LS_Let.prems by (auto simp: image_Un)
  have s: "grows U w v" "Some ` adds (current_elements w) s \<subseteq> set (all_time v)"
    using LS_Let.IH[OF v(1) LS_Let.prems(2)] LS_Let.prems(3) by (auto simp: image_Un)
  from combine_grows[OF b(1) s(1) LS_Let.prems(2)] b(2) s(2) v(2) show ?case by (auto simp: image_Un)
next
  case (LS_LetRemote l b s)
  obtain v where v: "collect_pre_endorse w s = Some v" "w' = wl_combine (collect_pre_endorse_binding w b) v"
    using LS_LetRemote.prems(1) by (auto simp: bind_Some_iff)
  have b: "grows U w (collect_pre_endorse_binding w b)"
    "Some ` binding_adds (current_elements w) b \<subseteq> set (all_time (collect_pre_endorse_binding w b))"
    using collect_binding_grows LS_LetRemote.prems by (auto simp: image_Un)
  have s: "grows U w v" "Some ` adds (current_elements w) s \<subseteq> set (all_time v)"
    using LS_LetRemote.IH[OF v(1) LS_LetRemote.prems(2)] LS_LetRemote.prems(3) by (auto simp: image_Un)
  from combine_grows[OF b(1) s(1) LS_LetRemote.prems(2)] b(2) s(2) v(2) show ?case by (auto simp: image_Un)
next
  case (LS_Operation l n h as)
  have "\<forall>e \<in> set (h # as). Some ` endorsed_names e \<subseteq> U" using LS_Operation.prems(3) by auto
  from collect_exprs_grows[OF LS_Operation.prems(2) this] LS_Operation.prems(1) show ?case
    by (simp add: image_Un image_UN UN_subset_iff)
next
  case (LS_Assignment l v e)
  have v: "grows U w (collect_pre_endorse_expr w v)" "Some ` endorsed_names v \<subseteq> set (all_time (collect_pre_endorse_expr w v))"
    and e: "grows U w (collect_pre_endorse_expr w e)" "Some ` endorsed_names e \<subseteq> set (all_time (collect_pre_endorse_expr w e))"
    using collect_expr_grows[OF LS_Assignment.prems(2)] LS_Assignment.prems(3) by (auto simp: image_Un)
  from combine_grows[OF v(1) e(1) LS_Assignment.prems(2)] v(2) e(2) LS_Assignment.prems(1) show ?case
    by (auto simp: image_Un)
next
  case (LS_If l c t e)
  obtain t' e' where t': "collect_pre_endorse w t = Some t'" and e': "collect_pre_endorse w e = Some e'"
    using LS_If.prems(1) by (auto simp: bind_Some_iff)
  have t: "grows U w t'" "Some ` adds (current_elements w) t \<subseteq> set (all_time t')"
    using LS_If.IH(1)[OF t' LS_If.prems(2)] LS_If.prems(3) by (auto simp: image_Un)
  have e: "grows U w e'" "Some ` adds (current_elements w) e \<subseteq> set (all_time e')"
    using LS_If.IH(2)[OF e' LS_If.prems(2)] LS_If.prems(3) by (auto simp: image_Un)
  show ?case
  proof (cases "own_rule l c")
    case True
    then have c: "endorsed_names c = {}" by (cases c) auto
    from True have "w' = wl_combine t' e'" using LS_If.prems(1) t' e' by (auto split: if_splits)
    with combine_grows[OF t(1) e(1) LS_If.prems(2)] t(2) e(2) c show ?thesis by (auto simp: image_Un)
  next
    case False
    then have w': "w' = wl_combine (wl_combine (collect_pre_endorse_expr w c) t') e'" using LS_If.prems(1) t' e' by simp
    have c: "grows U w (collect_pre_endorse_expr w c)" "Some ` endorsed_names c \<subseteq> set (all_time (collect_pre_endorse_expr w c))"
      using collect_expr_grows[OF LS_If.prems(2)] LS_If.prems(3) False by (auto simp: image_Un)
    note ct = combine_grows[OF c(1) t(1) LS_If.prems(2)]
    note cte = combine_grows[OF ct(1) e(1) LS_If.prems(2)]
    have "Some ` (endorsed_names c \<union> adds (current_elements w) t \<union> adds (current_elements w) e) \<subseteq> set (all_time w')"
      unfolding image_Un w' using cte(2) ct(2) c(2) t(2) e(2) by blast
    with cte(1) w' False show ?thesis by simp
  qed
next
  case (LS_While l c s)
  obtain s' where s': "collect_pre_endorse w s = Some s'" using LS_While.prems(1) by (auto simp: bind_Some_iff)
  have s: "grows U w s'" "Some ` adds (current_elements w) s \<subseteq> set (all_time s')"
    using LS_While.IH[OF s' LS_While.prems(2)] LS_While.prems(3) by (auto simp: image_Un)
  show ?case
  proof (cases "own_rule l c")
    case True
    then have c: "endorsed_names c = {}" by (cases c) auto
    from True have "w' = s'" using LS_While.prems(1) s' by (auto split: if_splits)
    with s c show ?thesis by simp
  next
    case False
    then have w': "w' = wl_combine (collect_pre_endorse_expr w c) s'" using LS_While.prems(1) s' by simp
    have c: "grows U w (collect_pre_endorse_expr w c)" "Some ` endorsed_names c \<subseteq> set (all_time (collect_pre_endorse_expr w c))"
      using collect_expr_grows[OF LS_While.prems(2)] LS_While.prems(3) False by (auto simp: image_Un)
    from combine_grows[OF c(1) s(1) LS_While.prems(2)] c(2) s(2) w' show ?thesis by (auto simp: image_Un)
  qed
next
  case (LS_Sequence l ss)
  obtain ws where ws: "those (map (collect_pre_endorse w) ss) = Some ws" "w' = combine_all w ws"
    using LS_Sequence.prems(1) by (auto simp: bind_Some_iff)
  have step: "grows U w v \<and> Some ` adds (current_elements w) s \<subseteq> set (all_time v)"
    if "s \<in> set ss" "collect_pre_endorse w s = Some v" for s v
    by (rule LS_Sequence.IH[OF that LS_Sequence.prems(2)]) (use LS_Sequence.prems(3) that(1) in auto)
  have "\<forall>v \<in> set ws. grows U w v"
    using step those_map_mem_back[OF ws(1)] by blast
  note all = combine_all_grows[OF this LS_Sequence.prems(2)]
  have "Some ` adds (current_elements w) s \<subseteq> set (all_time w')" if s: "s \<in> set ss" for s
  proof -
    obtain v where "v \<in> set ws" "collect_pre_endorse w s = Some v" using those_map_mem[OF ws(1) s] by blast
    with step[OF s] all(2) ws(2) show ?thesis by blast
  qed
  with all(1) ws(2) show ?case by auto
qed (simp_all add: collect_expr_grows)

section \<open>The loop\<close>

text \<open>
  The variables that \<open>do_pre_endorse\<close> looks for: those that the program endorses, and, with a variable, those of
  the expression that it is bound to.
\<close>

fun let_bindings :: "lstmt \<Rightarrow> (name \<times> lexpr) list" where
  "let_bindings (LS_Let l b s) = (case b of LBinding bl y v e \<Rightarrow> (v, e) # let_bindings s)"
| "let_bindings (LS_LetRemote l b s) = (case b of LBinding bl y v e \<Rightarrow> (v, e) # let_bindings s)"
| "let_bindings (LS_If l c t e) = let_bindings t @ let_bindings e"
| "let_bindings (LS_While l c s) = let_bindings s"
| "let_bindings (LS_Sequence l ss) = concat (map let_bindings ss)"
| "let_bindings _ = []"

inductive pre_endorsed :: "lstmt \<Rightarrow> name \<Rightarrow> bool" for a where
  endorsed: "v \<in> adds [] a \<Longrightarrow> pre_endorsed a v"
| bound: "pre_endorsed a x \<Longrightarrow> (x, e) \<in> set (let_bindings a) \<Longrightarrow> v \<in> expr_names e \<Longrightarrow> pre_endorsed a v"

lemma binding_adds_split:
  "binding_adds ns (LBinding l y v e) = endorsed_names e \<union> (if Some v \<in> set ns then expr_names e else {})"
  using endorsed_subset[of e] by auto

lemma adds_split:
  "adds ns s = adds [] s \<union> (\<Union>(x, e) \<in> set (let_bindings s). if Some x \<in> set ns then expr_names e else {})"
proof (induction s)
  case (LS_Let l b s)
  then show ?case by (cases b) (simp only: adds.simps let_bindings.simps lbinding.case binding_adds_split list.set, auto)
next
  case (LS_LetRemote l b s)
  then show ?case by (cases b) (simp only: adds.simps let_bindings.simps lbinding.case binding_adds_split list.set, auto)
next
  case (LS_If l c t e)
  show ?case by (simp only: adds.simps let_bindings.simps set_append UN_Un LS_If.IH[symmetric]) (use LS_If.IH in blast)
next
  case (LS_While l c s)
  show ?case by (simp only: adds.simps let_bindings.simps) (use LS_While.IH in blast)
next
  case (LS_Sequence l ss)
  then show ?case by (simp only: adds.simps let_bindings.simps set_concat set_map UN_simps image_image) blast
qed auto

text \<open>Every variable that can come in is one of these; a pass puts at least one element of the worklist aside.\<close>

lemma finite_expr_names: "finite (expr_names e)"
  by (induction e) auto

lemma finite_adds: "finite (adds ns s)"
proof (induction s)
  case (LS_Let l b s)
  then show ?case by (cases b) (auto simp: binding_adds_split finite_expr_names intro: finite_subset[OF endorsed_subset])
next
  case (LS_LetRemote l b s)
  then show ?case by (cases b) (auto simp: binding_adds_split finite_expr_names intro: finite_subset[OF endorsed_subset])
qed (auto intro: finite_subset[OF endorsed_subset finite_expr_names])

definition can_come :: "lstmt \<Rightarrow> name option set" where
  "can_come a = Some ` (adds [] a \<union> (\<Union>(x, e) \<in> set (let_bindings a). expr_names e))"

lemma finite_can_come: "finite (can_come a)"
  unfolding can_come_def by (intro finite_imageI finite_UnI finite_adds finite_UN_I finite_set) (auto simp: finite_expr_names)

lemma adds_can_come: "Some ` adds ns a \<subseteq> can_come a"
proof -
  have "adds ns a \<subseteq> adds [] a \<union> (\<Union>(x, e) \<in> set (let_bindings a). expr_names e)"
    by (subst adds_split) (fastforce split: if_splits)
  then show ?thesis unfolding can_come_def by (rule image_mono)
qed

definition left :: "lstmt \<Rightarrow> worklist \<Rightarrow> nat" where
  "left a w = 2 * card ((can_come a \<union> set (current_elements w)) - set (all_time w)) + length (current_elements w)"

lemma collect_left:
  assumes "collect_pre_endorse (w\<lparr>current_elements := rst\<rparr>) a = Some w'" "current_elements w = f # rst"
  shows "left a w' < left a w"
proof -
  let ?U = "can_come a \<union> set rst" and ?A = "set (all_time w)"
  have "grows ?U (w\<lparr>current_elements := rst\<rparr>) w'"
    using collect_grows[OF assms(1), of ?U] adds_can_come by (simp add: le_supI1)
  then obtain ns where ns: "current_elements w' = rst @ ns" "all_time w' = all_time w @ ns" "distinct ns"
    "set ns \<inter> ?A = {}" "set ns \<subseteq> ?U" by (auto simp: grows_def)
  have fin: "finite ?U" using finite_can_come by simp
  have "(can_come a \<union> set (current_elements w')) - set (all_time w') = (?U - ?A) - set ns"
    unfolding ns using ns(5) by auto
  moreover have "card ((?U - ?A) - set ns) = card (?U - ?A) - length ns"
    using ns(3-5) fin by (subst card_Diff_subset) (auto simp: distinct_card)
  moreover have "length ns \<le> card (?U - ?A)"
    using ns(3-5) fin card_mono[of "?U - ?A" "set ns"] by (auto simp: distinct_card)
  moreover have "card (?U - ?A) \<le> card ((can_come a \<union> set (current_elements w)) - ?A)"
    using assms(2) fin by (intro card_mono) auto
  ultimately show ?thesis using assms(2) ns(1) by (simp add: left_def)
qed

text \<open>\<open>do_pre_endorse\<close>, on a worklist and on a program.\<close>

function do_pre_endorse_from :: "lstmt \<Rightarrow> worklist \<Rightarrow> lstmt option" where
  "do_pre_endorse_from a w = (case current_elements w of
     [] \<Rightarrow> endorse_relabel (all_time w) a
   | f # rst \<Rightarrow> (case collect_pre_endorse (w\<lparr>current_elements := rst\<rparr>) a of
       None \<Rightarrow> None
     | Some w' \<Rightarrow> do_pre_endorse_from a w'))"
  by pat_completeness auto
termination
  by (relation "measure (\<lambda>(a, w). left a w)") (auto intro: collect_left)

declare do_pre_endorse_from.simps [simp del]

definition do_pre_endorse :: "lstmt \<Rightarrow> lstmt option" where
  "do_pre_endorse a = do_pre_endorse_from a \<lparr>current_elements = [None, None], all_time = []\<rparr>"

section \<open>What the loop finds\<close>

text \<open>
  Before each pass: the worklist holds no other variables, and one of all time is still to come, after the
  first, or those that it was computed from are in too.
\<close>

definition settled :: "lstmt \<Rightarrow> worklist \<Rightarrow> name \<Rightarrow> bool" where
  "settled a w x \<longleftrightarrow> (\<forall>e. (x, e) \<in> set (let_bindings a) \<longrightarrow> Some ` expr_names e \<subseteq> set (all_time w))"

definition pending :: "lstmt \<Rightarrow> worklist \<Rightarrow> bool" where
  "pending a w \<longleftrightarrow>
     set (current_elements w) \<union> set (all_time w) \<subseteq> insert None (Some ` Collect (pre_endorsed a)) \<and>
     (\<forall>x. Some x \<in> set (all_time w) \<longrightarrow> Some x \<in> set (tl (current_elements w)) \<or> settled a w x) \<and>
     (Some ` adds [] a \<subseteq> set (all_time w) \<or> tl (current_elements w) \<noteq> [])"

lemma settled_grows: "settled a w x \<Longrightarrow> grows U w w' \<Longrightarrow> settled a w' x"
  using grows_sets(1) unfolding settled_def by blast

lemma adds_pre_endorsed:
  assumes "set ns \<subseteq> insert None (Some ` Collect (pre_endorsed a))"
  shows "Some ` adds ns a \<subseteq> Some ` Collect (pre_endorsed a)"
proof -
  have "pre_endorsed a v" if v: "v \<in> adds ns a" for v
  proof (cases "v \<in> adds [] a")
    case True
    then show ?thesis by (rule pre_endorsed.endorsed)
  next
    case False
    with v obtain x e where e: "(x, e) \<in> set (let_bindings a)" "Some x \<in> set ns" "v \<in> expr_names e"
      by (subst (asm) adds_split) (auto split: if_splits)
    then have "pre_endorsed a x" using assms by auto
    from pre_endorsed.bound[OF this e(1,3)] show ?thesis .
  qed
  then show ?thesis by auto
qed

lemma collect_pending:
  assumes "pending a w" "current_elements w = f # rst"
    "collect_pre_endorse (w\<lparr>current_elements := rst\<rparr>) a = Some w'"
  shows "pending a w'"
proof -
  let ?v = "w\<lparr>current_elements := rst\<rparr>" and ?P = "Some ` Collect (pre_endorsed a)"
  have rst: "set rst \<subseteq> insert None ?P" "set (all_time w) \<subseteq> insert None ?P" using assms(1,2) by (auto simp: pending_def)
  let ?U = "set rst \<union> Some ` adds rst a"
  have g: "grows ?U ?v w'" and in': "Some ` adds rst a \<subseteq> set (all_time w')"
    using collect_grows[OF assms(3), of ?U] by simp_all
  obtain ns where ns: "current_elements w' = rst @ ns" "all_time w' = all_time w @ ns"
    "set ns \<inter> set (all_time w) = {}" "set ns \<subseteq> ?U" using g by (auto simp: grows_def)
  have sub: "set ns \<subseteq> insert None ?P" using ns(4) rst(1) adds_pre_endorsed[OF rst(1)] by blast
  have new: "ns = [] \<or> rst \<noteq> []"
  proof (rule ccontr)
    assume "\<not> (ns = [] \<or> rst \<noteq> [])"
    then have "rst = []" "ns \<noteq> []" by simp_all
    then have "Some ` adds [] a \<subseteq> set (all_time w)" using assms(1,2) by (simp add: pending_def)
    moreover have "set ns \<subseteq> Some ` adds [] a" using ns(4) \<open>rst = []\<close> by simp
    ultimately have "set ns = {}" using ns(3) by (metis inf.absorb_iff1 subset_trans)
    with \<open>ns \<noteq> []\<close> show False by simp
  qed
  have "Some x \<in> set (tl (rst @ ns)) \<or> settled a w' x" if x: "Some x \<in> set (all_time w @ ns)" for x
  proof (cases "Some x \<in> set ns")
    case True
    with new have "rst \<noteq> []" by auto
    with True show ?thesis by simp
  next
    case False
    with x have "Some x \<in> set (all_time w)" by simp
    then consider "Some x \<in> set rst" | "settled a w x" using assms(1,2) by (auto simp: pending_def)
    then show ?thesis
    proof cases
      case 1
      have "Some ` expr_names e \<subseteq> set (all_time w')" if "(x, e) \<in> set (let_bindings a)" for e
      proof -
        have "expr_names e \<subseteq> adds rst a" using that 1 by (subst adds_split) force
        with in' show ?thesis by blast
      qed
      then show ?thesis by (simp add: settled_def)
    next
      case 2
      then have "settled a ?v x" by (simp add: settled_def)
      with g show ?thesis using settled_grows by blast
    qed
  qed
  moreover have "Some ` adds [] a \<subseteq> set (all_time w')" using in' by (subst (asm) adds_split) blast
  ultimately show ?thesis using rst sub by (simp add: pending_def ns)
qed

lemma do_pre_endorse_from_closure:
  "do_pre_endorse_from a w = Some a' \<Longrightarrow> pending a w \<Longrightarrow>
   \<exists>P. endorse_relabel P a = Some a' \<and> (\<forall>v. (Some v \<in> set P) = pre_endorsed a v)"
proof (induction a w rule: do_pre_endorse_from.induct)
  case (1 a w)
  show ?case
  proof (cases "current_elements w")
    case Nil
    with "1.prems"(1) have "endorse_relabel (all_time w) a = Some a'" by (simp add: do_pre_endorse_from.simps[of a w])
    moreover have "pre_endorsed a v \<Longrightarrow> Some v \<in> set (all_time w)" for v
    proof (induction rule: pre_endorsed.induct)
      case (endorsed v)
      with "1.prems"(2) Nil show ?case by (auto simp: pending_def)
    next
      case (bound x e v)
      then have "settled a w x" using "1.prems"(2) Nil by (simp add: pending_def)
      with bound show ?case by (auto simp: settled_def)
    qed
    moreover have "Some v \<in> set (all_time w) \<Longrightarrow> pre_endorsed a v" for v
      using "1.prems"(2) by (auto simp: pending_def)
    ultimately show ?thesis by blast
  next
    case (Cons f rst)
    then obtain w' where w': "collect_pre_endorse (w\<lparr>current_elements := rst\<rparr>) a = Some w'"
      using "1.prems"(1) by (auto simp: do_pre_endorse_from.simps[of a w] split: option.splits)
    with Cons "1.prems"(1) have "do_pre_endorse_from a w' = Some a'" by (simp add: do_pre_endorse_from.simps[of a w])
    from "1.IH"[OF Cons w' this collect_pending[OF "1.prems"(2) Cons w']] show ?thesis .
  qed
qed

lemma do_pre_endorse_closure:
  assumes "do_pre_endorse a = Some a'"
  shows "\<exists>P. endorse_relabel P a = Some a' \<and> (\<forall>v. (Some v \<in> set P) = pre_endorsed a v)"
  by (rule do_pre_endorse_from_closure[OF assms[unfolded do_pre_endorse_def]]) (simp add: pending_def)

text \<open>C3: what \<open>do_pre_endorse\<close> relabels with is exactly the set of variables that
  an endorsed variable depends on: those that the program endorses, and with each the variables of what
  it is bound to, transitively, whatever the order in which the worklist takes them.\<close>

theorem endorsement_finds_dependencies:
  assumes "do_pre_endorse a = Some a'"
  shows "\<exists>P. endorse_relabel P a = Some a' \<and> (\<forall>v. (Some v \<in> set P) = pre_endorsed a v)"
  using assms by (rule do_pre_endorse_closure)

text \<open>\<open>x = 1; y = x; w = x; z = endorse(y)\<close>: \<open>y\<close> and \<open>x\<close> are pre-endorsed, \<open>w\<close> is not.\<close>

definition endorse_sample :: lstmt where
  "endorse_sample =
     (let causal = (\<lambda>n e s. LS_Let Causal (LBinding Causal Y_int n e) s)
      in causal ''x'' (LE_Constant 1) (causal ''y'' (LE_VarReference Causal Y_int ''x'')
        (causal ''w'' (LE_VarReference Causal Y_int ''x'')
          (LS_Let Strong (LBinding Strong Y_int ''z'' (LE_Endorse Strong Y_int (LE_VarReference Causal Y_int ''y'')))
            (LS_Return (LE_VarReference Strong Y_int ''z''))))))"

theorem endorsement_finds_dependencies_witness:
  "\<exists>P a'. endorse_relabel P endorse_sample = Some a' \<and> Some ''x'' \<in> set P \<and> Some ''y'' \<in> set P \<and>
     (\<forall>v. (Some v \<in> set P) = pre_endorsed endorse_sample v)"
proof -
  obtain a' where "do_pre_endorse endorse_sample = Some a'"
  proof -
    have "do_pre_endorse endorse_sample \<noteq> None" by code_simp
    then show thesis using that by auto
  qed
  from endorsement_finds_dependencies[OF this] obtain P where
    P: "endorse_relabel P endorse_sample = Some a'" "\<forall>v. (Some v \<in> set P) = pre_endorsed endorse_sample v" by blast
  have y: "pre_endorsed endorse_sample ''y''"
    by (rule pre_endorsed.endorsed) code_simp
  have "(''y'', LE_VarReference Causal Y_int ''x'') \<in> set (let_bindings endorse_sample)" by code_simp
  from pre_endorsed.bound[OF y this] have "pre_endorsed endorse_sample ''x''" by simp
  with P y show ?thesis by blast
qed

end
