(* ===== verification/Compile.thy ===== *)
theory Compile
  imports Recollapse Endorse InsertTracking Typecheck Flatten SplitExamples
begin

text \<open>
  The compiler, \<open>mtl/transaction.hpp\<close>: \<open>pre_transaction_str::typecheck\<close> puts the passes from the syntax tree
  to the inferred program together, \<open>pre_transaction_str::compile\<close> those from there to the phases.
  A tracking phase that finds more labels compiles the inferred program again
  (\<open>tombstone_enhanced_txn\<close>, \<open>mtl/insert_tracking.hpp\<close>).
\<close>

section \<open>The pipeline\<close>

definition typecheck_program ::
  "type_facts \<Rightarrow> (must_flow_to list \<Rightarrow> must_flow_to list) \<Rightarrow> (must_flow_to list \<Rightarrow> must_flow_to list) \<Rightarrow>
   (label list \<Rightarrow> label list) \<Rightarrow> vbinding list \<Rightarrow> tree \<Rightarrow> lstmt option" where
  "typecheck_program T csort dedupe srt args prev = do {
     parsed \<leftarrow> convert_to_old_parsed prev;
     flattened \<leftarrow> flatten_expressions parsed;
     checked \<leftarrow> typecheck_stmt T (start_env args) 1 1 flattened;
     infer_labels csort dedupe srt checked }"

text \<open>\<open>resume_compilation_inferred_str\<close>.\<close>

definition resume_compilation_inferred :: "(label list \<Rightarrow> label list) \<Rightarrow> vbinding list \<Rightarrow> lstmt \<Rightarrow> phase list option" where
  "resume_compilation_inferred srt args tracked_t = do {
     split \<leftarrow> split_computation srt tracked_t (env_bindings (start_env args));
     recollapsed \<leftarrow> recollapse split;
     relabel recollapsed }"

record inferred_and_recollapsed =
  inferred :: lstmt
  recollapsed :: "phase list"

definition compile ::
  "(label list \<Rightarrow> label list) \<Rightarrow> (label list \<Rightarrow> label list) \<Rightarrow> vbinding list \<Rightarrow> lstmt \<Rightarrow> inferred_and_recollapsed option" where
  "compile as_set srt args inferred_t = do {
     tracked_t \<leftarrow> insert_tracking_begin as_set srt [] inferred_t;
     endorsed_one \<leftarrow> do_pre_endorse tracked_t;
     require (\<not> contains_endorsement [] False endorsed_one);
     phases \<leftarrow> resume_compilation_inferred srt args endorsed_one;
     inf \<leftarrow> do_pre_endorse inferred_t;
     Some \<lparr>inferred = inf, recollapsed = phases\<rparr> }"

text \<open>With the labels that a client brings, a tracking phase compiles the inferred program again.\<close>

definition tombstone_enhanced_txn ::
  "(label list \<Rightarrow> label list) \<Rightarrow> (label list \<Rightarrow> label list) \<Rightarrow> vbinding list \<Rightarrow> label list \<Rightarrow> inferred_and_recollapsed \<Rightarrow>
   phase list option" where
  "tombstone_enhanced_txn as_set srt args labels c = do {
     tracked_t \<leftarrow> insert_tracking_begin as_set srt labels (inferred c);
     resume_compilation_inferred srt args tracked_t }"

section \<open>Compiled transactions compute what the program computes\<close>

text \<open>
  The theorems of the passes together: from the program that is split to the phases that run.  The holders of
  the temporaries are gone after recollapsing; the others end up with every value that the program
  gave their variable, or with the last.
\<close>

lemma resumed_transaction_runs:
  assumes resume: "resume_compilation_inferred srt args c = Some qs"
    and easy: "easy_processing_pass c = Some a" and split: "split_computation srt c (env_bindings (start_env args)) = Some ps"
    and labels: "sound_labels lam isloop a (rev (collect_proper_labels srt c))"
    and src: "src_stmt k a (\<lambda>_. []) = Some (ret, F)" and steady: "steady isloop F" and k: "k \<le> k'"
    and fresh: "fresh_store isloop V (needed ps \<union> written a) (all_store ps)" and V: "\<forall>x \<in> needed ps \<inter> V. isloop x"
    and fits: "recollapsible ps" and commits: "list_all2 (\<lambda>rs q. rs \<noteq> [] \<and> store_commit (hd rs) \<noteq> None) rss ps"
  shows "\<exists>t. run_transaction k' ops store_commit qs rss (all_store qs) = Some (ret, t) \<and>
    (\<forall>x \<in> written a - temporaries ps. \<not> isloop x \<longrightarrow>
       stored t x = Some (if x \<in> V then last_only (F x) else F x))"
proof -
  from resume split obtain rs where rs: "recollapse ps = Some rs" and qs: "relabel rs = Some qs"
    by (auto simp: resume_compilation_inferred_def bind_Some_iff)
  have "list_all2 (\<lambda>rs q. rs \<noteq> [] \<and> store_commit (hd rs) \<noteq> None) (map (take 1) (map (take 1) rss)) ps"
    using commits by (auto simp: list_all2_conv_all_nth hd_take)
  from split_transaction_runs[OF split easy labels src steady k fresh V this] obtain s where
    s: "run_transaction k' ops store_commit ps (map (take 1) (map (take 1) rss)) (all_store ps) = Some (ret, s)" and
    sF: "\<forall>x \<in> written a. \<not> isloop x \<longrightarrow> stored s x = Some (if x \<in> V then last_only (F x) else F x)" by blast
  from recollapsed_transaction_runs[OF rs fits s] obtain t where
    t: "run_transaction k' ops store_commit rs (map (take 1) rss) (all_store rs) = Some (ret, t)" and
    st: "\<forall>x. x \<notin> temporaries ps \<longrightarrow> holders t x = holders s x" by blast
  have rel: "list_all2 (\<lambda>p q. relabel_phase p = Some q) rs qs" using qs unfolding relabel_def by (rule those_map_list_all2)
  from relabel_transaction[OF rel t] have "run_transaction k' ops store_commit qs rss (all_store rs) = Some (ret, t)" .
  then have "run_transaction k' ops store_commit qs rss (all_store qs) = Some (ret, t)" by (simp add: all_store_relabel[OF rel])
  moreover have "stored t x = stored s x" if "x \<notin> temporaries ps" for x using st that by (simp add: stored_def)
  ultimately show ?thesis using sF by auto
qed

text \<open>C2: a transaction that \<open>compile\<close> accepts runs to the end in its phases and returns what
  the program (tracked, and endorsed) returns when it is run as it is written, although the phases are
  split by label, replayed, and rid of their temporaries.  The hypotheses are those of
  \<open>transaction_replays\<close> and, on the temporaries, \<open>recollapsible\<close>.\<close>

theorem compiled_transaction_runs:
  assumes "compile as_set srt args inferred_t = Some r"
    and "insert_tracking_begin as_set srt [] inferred_t = Some tracked_t" and "do_pre_endorse tracked_t = Some c"
    and "easy_processing_pass c = Some a" and "split_computation srt c (env_bindings (start_env args)) = Some ps"
    and "sound_labels lam isloop a (rev (collect_proper_labels srt c))"
    and "src_stmt k a (\<lambda>_. []) = Some (ret, F)" and "steady isloop F" and "k \<le> k'"
    and "fresh_store isloop V (needed ps \<union> written a) (all_store ps)" and "\<forall>x \<in> needed ps \<inter> V. isloop x"
    and "recollapsible ps" and "list_all2 (\<lambda>rs q. rs \<noteq> [] \<and> store_commit (hd rs) \<noteq> None) rss ps"
  shows "\<exists>t. run_transaction k' ops store_commit (recollapsed r) rss (all_store (recollapsed r)) = Some (ret, t) \<and>
    (\<forall>x \<in> written a - temporaries ps. \<not> isloop x \<longrightarrow>
       stored t x = Some (if x \<in> V then last_only (F x) else F x))"
proof -
  have "resume_compilation_inferred srt args c = Some (recollapsed r)"
    using assms(1-3) by (auto simp: compile_def bind_Some_iff)
  from resumed_transaction_runs[OF this assms(4-13)] show ?thesis .
qed

definition sum_split_phases :: "phase list" where
  "sum_split_phases = the (split_computation label_sort sum_program (env_bindings (start_env [])))"

lemma sum_compiled: "compile remdups label_sort [] sum_program \<noteq> None"
  by code_simp

lemma sum_endorsed:
  "insert_tracking_begin remdups label_sort [] sum_program = Some sum_program"
  "do_pre_endorse sum_program = Some sum_program"
  by code_simp+

lemma sum_split_args: "split_computation label_sort sum_program (env_bindings (start_env [])) = Some sum_split_phases"
  by code_simp

lemma sum_split_names: "needed sum_split_phases \<union> written sum_nstmt = sum_vars"
  "\<forall>x \<in> needed sum_split_phases \<inter> sum_owned. loop_name x" "length sum_split_phases = 4"
  by code_simp+

lemma sum_split_store: "fresh_store loop_name sum_owned sum_vars (all_store sum_split_phases)"
  by code_simp

lemma sum_recollapsible: "recollapsible sum_split_phases"
  by code_simp

lemma sum_commits: "list_all2 (\<lambda>rs q. rs \<noteq> [] \<and> Some (hd rs) \<noteq> None) [[()], [()], [()], [()]] sum_split_phases"
  using sum_split_names(3) by (auto simp: list_all2_conv_all_nth less_Suc_eq numeral_eq_Suc)

theorem compiled_transaction_runs_witness:
  "\<exists>r t. compile remdups label_sort [] sum_program = Some r \<and>
    run_transaction 3 no_store Some (recollapsed r) [[()], [()], [()], [()]] (all_store (recollapsed r)) =
      Some (Some (V_int 3), t) \<and> stored t ''s'' = Some [V_int 0, V_int 1, V_int 3]"
proof -
  obtain r where r: "compile remdups label_sort [] sum_program = Some r" using sum_compiled by auto
  have "\<exists>t. run_transaction 3 no_store Some (recollapsed r) [[()], [()], [()], [()]] (all_store (recollapsed r)) =
      Some (Some (V_int 3), t) \<and>
    (\<forall>x \<in> written sum_nstmt - temporaries sum_split_phases. \<not> loop_name x \<longrightarrow>
       stored t x = Some (if x \<in> sum_owned then last_only (sum_hist x) else sum_hist x))"
    by (rule compiled_transaction_runs[OF r sum_endorsed sum_easy sum_split_args sum_labels sum_run sum_steady _ _
          sum_split_names(2) sum_recollapsible sum_commits]) (simp_all add: sum_split_names(1) sum_split_store)
  moreover have "''s'' \<in> written sum_nstmt - temporaries sum_split_phases" "\<not> loop_name ''s''" by code_simp+
  ultimately show ?thesis using r by (auto simp: sum_hist_def sum_owned_def)
qed

text \<open>C4: \<open>recollapse\<close> (\<open>recollapse.hpp\<close>) puts the expression of a temporary where the
  temporary was used and drops its binding.  A transaction of which every phase uses its temporaries while
  their expressions still have the same value returns the same, and leaves the same in every other holder.\<close>

theorem recollapsing_preserves:
  assumes "recollapse ps = Some qs" "recollapsible ps"
    and "run_transaction k ops store_commit ps (map (take 1) rss) (all_store ps) = Some (ret, s)"
  shows "\<exists>t. run_transaction k ops store_commit qs rss (all_store qs) = Some (ret, t) \<and>
    (\<forall>x. x \<notin> temporaries ps \<longrightarrow> holders t x = holders s x)"
  using assms by (rule recollapsed_transaction_runs)

theorem recollapsing_preserves_witness:
  "\<exists>qs t. recollapse sum_split_phases = Some qs \<and>
    run_transaction 3 no_store Some qs [[()], [()], [()], [()]] (all_store qs) = Some (Some (V_int 3), t)"
proof -
  have "recollapse sum_split_phases \<noteq> None" by code_simp
  then obtain qs where qs: "recollapse sum_split_phases = Some qs" by blast
  have "map_option fst (run_transaction 3 no_store Some sum_split_phases (map (take 1) [[()], [()], [()], [()]])
      (all_store sum_split_phases)) = Some (Some (V_int 3))" by code_simp
  then obtain s where "run_transaction 3 no_store Some sum_split_phases (map (take 1) [[()], [()], [()], [()]])
      (all_store sum_split_phases) = Some (Some (V_int 3), s)" by auto
  from recollapsing_preserves[OF qs sum_recollapsible this] qs show ?thesis by blast
qed

section \<open>What endorsement breaks\<close>

text \<open>\<open>a = 0; a = 1; b = endorse(a); return b\<close>, with \<open>a\<close> causal and \<open>b\<close> strong.\<close>

definition assigned_then_endorsed :: lstmt where
  "assigned_then_endorsed = strong_int ''one'' 1 (LS_Let Causal (LBinding Causal Y_int ''a'' (LE_Constant 0))
     (LS_Sequence Bottom
       [LS_Assignment Causal (int_var Causal ''a'') (int_var Strong ''one''),
        LS_Let Strong (LBinding Strong Y_int ''b'' (LE_Endorse Strong Y_int (int_var Causal ''a'')))
          (LS_Return (int_var Strong ''b''))]))"

text \<open>\<open>endorse_relabel\<close> leaves an assignment to a pre-endorsed variable in the phase that
  it was in, since its assertion (\<open>cannot assign during pre-endorse step\<close>) is a disjunction that such an
  assignment satisfies.  The program above compiles; run as it is written it returns the assigned 1,
  and its phases return the initial 0, because the endorsed value is read before the assignment is run.\<close>

lemma endorsed_assignment_late:
  "\<exists>c a r. do_pre_endorse assigned_then_endorsed = Some c \<and> easy_processing_pass c = Some a \<and>
     map_option fst (src_stmt 3 a (\<lambda>_. [])) = Some (Some (V_int 1)) \<and>
     compile remdups label_sort [] assigned_then_endorsed = Some r \<and>
     map phase_label (recollapsed r) = [Top, Causal, Strong, Causal, Bottom] \<and>
     map_option fst (run_transaction 3 no_store Some (recollapsed r) [[()], [()], [()], [()], [()]]
       (all_store (recollapsed r))) = Some (Some (V_int 0))"
proof -
  let ?c = "the (do_pre_endorse assigned_then_endorsed)"
  let ?r = "the (compile remdups label_sort [] assigned_then_endorsed)"
  have "do_pre_endorse assigned_then_endorsed \<noteq> None" "easy_processing_pass ?c \<noteq> None"
    "compile remdups label_sort [] assigned_then_endorsed \<noteq> None" by code_simp+
  moreover have "map_option fst (src_stmt 3 (the (easy_processing_pass ?c)) (\<lambda>_. [])) = Some (Some (V_int 1))"
    by code_simp
  moreover have "map phase_label (recollapsed ?r) = [Top, Causal, Strong, Causal, Bottom]" by code_simp
  moreover have "map_option fst (run_transaction 3 no_store Some (recollapsed ?r) [[()], [()], [()], [()], [()]]
      (all_store (recollapsed ?r))) = Some (Some (V_int 0))" by code_simp
  ultimately show ?thesis by (metis option.exhaust_sel)
qed

text \<open>A loop with a strong condition inside a causal conditional has the label causal; with the label of its condition
  alone, which \<open>endorse_relabel\<close> gives it, it is in an earlier phase than the conditional, and the split
  rejects the program.\<close>

definition loop_in_conditional :: lstmt where
  "loop_in_conditional = strong_int ''one'' 1 (strong_int ''zero'' 0
     (LS_Let Causal (LBinding Causal Y_int ''a'' (LE_Constant 0))
      (LS_Let Strong (LBinding Strong Y_bool ''sc'' (compare ''one'' ''zero''))
       (LS_Let Causal (LBinding Causal Y_bool ''cc'' (LE_BinOp Causal Y_bool CHR ''<'' (int_var Causal ''a'') (int_var Strong ''one'')))
        (LS_Sequence Bottom
          [LS_If Causal (LE_VarReference Causal Y_bool ''cc'')
             (LS_While Causal (LE_VarReference Strong Y_bool ''sc'')
               (LS_Assignment Causal (int_var Causal ''a'') (int_var Strong ''one'')))
             (LS_Sequence Bottom []),
           LS_Return (int_var Causal ''a'')])))))"

lemma loop_in_conditional_rejected:
  "resume_compilation_inferred label_sort [] loop_in_conditional \<noteq> None"
  "compile remdups label_sort [] loop_in_conditional = None"
  by code_simp+

end
