(* ===== verification/Parse.thy ===== *)
theory Parse
  imports Ast
begin

text \<open>
  The parser, \<open>mtl/new-parsing/parse.hpp\<close>: \<open>parse<string>\<close> turns the text of a transaction into a pool of
  400 nodes while the C++ compiler runs.  It looks for a separator outside of parentheses, splits the text
  there and parses the pieces.  \<^term>\<open>None\<close> is a thrown \<open>parse_error\<close>, a failed assertion or a full pool.

  The functions on strings come from \<open>mutils::cstring\<close>, a submodule: they are fields of the record
  \<open>cstring\<close>.  Strings are given without the zeros after their end.
\<close>

section \<open>Strings\<close>

record cstring =
  cs_trim :: "string \<Rightarrow> string"
  cs_str_cpy :: "string \<Rightarrow> string"
  cs_streq :: "string \<Rightarrow> string \<Rightarrow> bool"
  cs_contains :: "char \<Rightarrow> string \<Rightarrow> bool"
  cs_contains_outside_parens :: "string \<Rightarrow> string \<Rightarrow> bool"
  cs_char_outside_parens :: "char \<Rightarrow> string \<Rightarrow> bool"
  cs_contains_paren :: "string \<Rightarrow> bool"
  cs_contains_space :: "string \<Rightarrow> bool"
  cs_prefix_equal :: "string \<Rightarrow> string \<Rightarrow> bool"
  cs_first_word_is :: "string \<Rightarrow> string \<Rightarrow> bool"
  cs_remove_first_word :: "string \<Rightarrow> string"
  cs_last_split :: "string \<Rightarrow> string \<Rightarrow> (string \<times> string) option"
  cs_last_split_char :: "char \<Rightarrow> string \<Rightarrow> (string \<times> string) option"
  cs_first_split :: "char \<Rightarrow> string \<Rightarrow> (string \<times> string) option"
  cs_split_outside_parens :: "nat \<Rightarrow> char \<Rightarrow> string \<Rightarrow> string list option"
  cs_copy_within_parens :: "string \<Rightarrow> string option"
  cs_next_paren_group :: "string \<Rightarrow> (nat \<times> string) option"
  cs_pre_paren :: "string \<Rightarrow> string"
  cs_parse_int :: "string \<Rightarrow> nat"

text \<open>\<open>str_cpy\<close> gives what \<open>str_cpy\<close> and \<open>trim\<close> write of a string into a field of the tree; \<open>store_node\<close> refuses it
  if the field is too short.
  \<open>split_outside_parens\<close> fills an array of the given size, and \<open>next_paren_group\<close> also returns the offset
  of what follows the group.\<close>

type_synonym parser = "string \<Rightarrow> ast_pool \<Rightarrow> (nat \<times> ast_pool) option"

section \<open>Expressions\<close>

text \<open>The functions that an expression is dispatched to, with \<open>parse_expression\<close> as an argument.  Each takes a node
  from the pool before it parses the pieces.\<close>

definition parse_binop :: "cstring \<Rightarrow> parser \<Rightarrow> string \<Rightarrow> string \<Rightarrow> ast_pool \<Rightarrow> (nat \<times> ast_pool) option" where
  "parse_binop C expression str cause p = do {
     (ret, p) \<leftarrow> new_node False p 9;
     (l, r) \<leftarrow> cs_last_split C cause str;
     (L, p) \<leftarrow> expression l p;
     (R, p) \<leftarrow> expression r p;
     store_node p ret (N_BinOp (hd cause) L R) }"

definition parse_builtin_op :: "cstring \<Rightarrow> parser \<Rightarrow> string \<Rightarrow> string \<Rightarrow> ast_pool \<Rightarrow> (nat \<times> ast_pool) option" where
  "parse_builtin_op C expression str specific_op p = do {
     (l, r) \<leftarrow> cs_last_split_char C CHR ''.'' (cs_trim C str);
     op_args \<leftarrow> cs_copy_within_parens C r;
     (if cs_prefix_equal C ''endorse'' specific_op then do {
        (ret, p) \<leftarrow> new_node False p 4;
        (h, p) \<leftarrow> expression l p;
        store_node p ret (N_Endorse (cs_str_cpy C (cs_trim C op_args)) h) }
      else if cs_prefix_equal C ''ensure'' specific_op then do {
        (ret, p) \<leftarrow> new_node False p 5;
        (h, p) \<leftarrow> expression l p;
        store_node p ret (N_Ensure (cs_str_cpy C (cs_trim C op_args)) h) }
      else if cs_prefix_equal C ''isValid'' specific_op then do {
        (ret, p) \<leftarrow> new_node False p 6;
        (h, p) \<leftarrow> expression l p;
        store_node p ret (N_IsValid h) }
      else None) }"

text \<open>An empty piece leaves the reference at its place null.\<close>

fun parse_arg_list :: "parser \<Rightarrow> string list \<Rightarrow> ast_pool \<Rightarrow> (nat list \<times> ast_pool) option" where
  "parse_arg_list expression [] p = Some ([], p)"
| "parse_arg_list expression (s # ss) p = do {
     (r, p) \<leftarrow> (if s = [] then Some (0, p) else expression s p);
     (rs, p) \<leftarrow> parse_arg_list expression ss p;
     Some (r # rs, p) }"

definition parse_args :: "cstring \<Rightarrow> parser \<Rightarrow> string \<Rightarrow> ast_pool \<Rightarrow> (nat \<times> ast_pool) option" where
  "parse_args C expression str p = do {
     (eargs, p) \<leftarrow> new_node False p 12;
     expr_strs \<leftarrow> cs_split_outside_parens C 20 CHR '','' str;
     (exprs, p) \<leftarrow> parse_arg_list expression expr_strs p;
     store_node p eargs (N_args_exprs exprs) }"

text \<open>The arguments by reference stay as they are constructed: there are none.\<close>

definition parse_operation :: "cstring \<Rightarrow> parser \<Rightarrow> string \<Rightarrow> bool \<Rightarrow> ast_pool \<Rightarrow> (nat \<times> ast_pool) option" where
  "parse_operation C expression str is_statement p = do {
     (Struct, Call) \<leftarrow> cs_last_split_char C CHR ''.'' str;
     (ret, p) \<leftarrow> new_node False p 14;
     (vargs, p) \<leftarrow> new_node False p 13;
     (off, argseq) \<leftarrow> cs_next_paren_group C Call;
     (es, p) \<leftarrow> parse_args C expression argseq p;
     (h, p) \<leftarrow> expression Struct p;
     store_node p ret (N_Operation (cs_str_cpy C (cs_pre_paren C Call)) h es vargs is_statement) }"

text \<open>The checks of a name that is not to be anything else.\<close>

definition plain_name :: "cstring \<Rightarrow> string \<Rightarrow> bool" where
  "plain_name C s \<longleftrightarrow> \<not> cs_contains_paren C s \<and> \<not> cs_contains_space C s \<and>
     \<not> cs_contains_outside_parens C ''.'' s \<and> \<not> cs_contains_outside_parens C ''->'' s \<and>
     \<not> cs_contains_outside_parens C ''*'' s \<and> \<not> cs_contains_outside_parens C '' '' s"

definition parse_fieldref :: "cstring \<Rightarrow> parser \<Rightarrow> string \<Rightarrow> ast_pool \<Rightarrow> (nat \<times> ast_pool) option" where
  "parse_fieldref C expression str p = do {
     (l, r) \<leftarrow> cs_last_split_char C CHR ''.'' (cs_trim C str);
     (if plain_name C r then do {
        (ret, p) \<leftarrow> new_node False p 1;
        (s, p) \<leftarrow> expression l p;
        store_node p ret (N_FieldReference s (cs_str_cpy C (cs_trim C r))) }
      else None) }"

definition parse_fieldptrref :: "cstring \<Rightarrow> parser \<Rightarrow> string \<Rightarrow> ast_pool \<Rightarrow> (nat \<times> ast_pool) option" where
  "parse_fieldptrref C expression str p = do {
     (l, r) \<leftarrow> cs_last_split C ''->'' (cs_trim C str);
     (if plain_name C r then do {
        (ret, p) \<leftarrow> new_node False p 2;
        (s, p) \<leftarrow> expression l p;
        store_node p ret (N_FieldPointerReference s (cs_str_cpy C (cs_trim C r))) }
      else None) }"

text \<open>The assertion in \<open>parse_deref\<close> assigns the character that it means to test.\<close>

definition parse_deref :: "cstring \<Rightarrow> parser \<Rightarrow> string \<Rightarrow> ast_pool \<Rightarrow> (nat \<times> ast_pool) option" where
  "parse_deref C expression str p = do {
     (ret, p) \<leftarrow> new_node False p 3;
     (s, p) \<leftarrow> expression (tl (cs_trim C str)) p;
     store_node p ret (N_Dereference s) }"

definition parse_constant :: "cstring \<Rightarrow> string \<Rightarrow> ast_pool \<Rightarrow> (nat \<times> ast_pool) option" where
  "parse_constant C str p = do { (ret, p) \<leftarrow> new_node False p 8; store_node p ret (N_Constant (cs_parse_int C str)) }"

definition parse_varref :: "cstring \<Rightarrow> string \<Rightarrow> ast_pool \<Rightarrow> (nat \<times> ast_pool) option" where
  "parse_varref C str p = do {
     (ret, p) \<leftarrow> new_node False p 7;
     let Var = cs_str_cpy C (cs_trim C str);
     (if plain_name C Var then store_node p ret (N_VarReference Var) else None) }"

text \<open>The operators in the order in which they are looked for.\<close>

definition operators :: "string list" where
  "operators = [''+'', ''- '', ''* '', ''/'', ''=='', ''&&'', ''||'', ''!='', ''> '', ''<'', ''>='', ''<='']"

definition find_operator :: "cstring \<Rightarrow> string \<Rightarrow> string option" where
  "find_operator C str = List.find (\<lambda>op. cs_contains_outside_parens C op str) operators"

text \<open>The branch of \<open>parse_expression\<close> for a text with a dot.\<close>

definition parse_dotted :: "cstring \<Rightarrow> parser \<Rightarrow> string \<Rightarrow> ast_pool \<Rightarrow> (nat \<times> ast_pool) option" where
  "parse_dotted C expression str p = do {
     (l, r) \<leftarrow> cs_last_split C ''.'' str;
     let r = cs_trim C r;
     (if cs_contains_outside_parens C ''.'' r then None
      else if cs_contains_outside_parens C ''->'' r then parse_fieldptrref C expression str p
      else if cs_contains_outside_parens C ''isValid('' r then parse_builtin_op C expression str ''isValid('' p
      else if cs_contains_outside_parens C ''endorse('' r then parse_builtin_op C expression str ''endorse('' p
      else if cs_contains_outside_parens C ''ensure('' r then parse_builtin_op C expression str ''ensure('' p
      else if cs_contains_paren C r then parse_operation C expression str False p
      else parse_fieldref C expression str p) }"

definition parse_expression_step :: "cstring \<Rightarrow> parser \<Rightarrow> string \<Rightarrow> ast_pool \<Rightarrow> (nat \<times> ast_pool) option" where
  "parse_expression_step C expression text p = (let str = cs_trim C text in
     if cs_streq C ''default list'' str then do {
       (ret, p) \<leftarrow> new_node False p 7; store_node p ret (N_VarReference (cs_str_cpy C (cs_trim C str))) }
     else case find_operator C str of
       Some op \<Rightarrow> parse_binop C expression str op p
     | None \<Rightarrow>
     if cs_prefix_equal C ''*'' str then
       (if cs_contains_outside_parens C ''*'' str then parse_deref C expression str p else None)
     else if cs_contains_outside_parens C ''.'' str then parse_dotted C expression str p
     else if cs_contains_outside_parens C ''->'' str then parse_fieldptrref C expression str p
     else if str \<noteq> [] \<and> hd str = CHR ''('' \<and> last str = CHR '')'' then do {
       (off, s) \<leftarrow> cs_next_paren_group C str;
       expression s p }
     else (let atom = cs_trim C str in
       if atom \<noteq> [] \<and> hd atom \<in> set ''0123456789'' then parse_constant C atom p else parse_varref C atom p))"

text \<open>The recursion is bounded by fuel; \<open>parse\<close> below gives enough.\<close>

fun parse_expression :: "cstring \<Rightarrow> nat \<Rightarrow> parser" where
  "parse_expression C 0 str p = None"
| "parse_expression C (Suc n) str p = parse_expression_step C (parse_expression C n) str p"

section \<open>Statements\<close>

definition parse_binding :: "cstring \<Rightarrow> parser \<Rightarrow> string \<Rightarrow> ast_pool \<Rightarrow> (nat \<times> ast_pool) option" where
  "parse_binding C expression str p = do {
     (ret, p) \<leftarrow> new_node False p 21;
     (l, r) \<leftarrow> cs_first_split C CHR ''='' str;
     (rhs, p) \<leftarrow> expression r p;
     store_node p ret (N_Binding rhs (cs_str_cpy C (cs_trim C l))) }"

definition parse_var :: "cstring \<Rightarrow> parser \<Rightarrow> parser \<Rightarrow> string \<Rightarrow> ast_pool \<Rightarrow> (nat \<times> ast_pool) option" where
  "parse_var C expression statement str p = do {
     (ret, p) \<leftarrow> new_node False p 10;
     (l, r) \<leftarrow> cs_first_split C CHR '','' (cs_remove_first_word C str);
     (b, p) \<leftarrow> parse_binding C expression l p;
     (e, p) \<leftarrow> statement r p;
     store_node p ret (N_Let b e) }"

definition parse_remote :: "cstring \<Rightarrow> parser \<Rightarrow> parser \<Rightarrow> string \<Rightarrow> ast_pool \<Rightarrow> (nat \<times> ast_pool) option" where
  "parse_remote C expression statement str p = do {
     (ret, p) \<leftarrow> new_node False p 11;
     (l, r) \<leftarrow> cs_first_split C CHR '','' (cs_remove_first_word C str);
     (b, p) \<leftarrow> parse_binding C expression l p;
     (e, p) \<leftarrow> statement r p;
     store_node p ret (N_LetRemote b e) }"

definition parse_return :: "cstring \<Rightarrow> parser \<Rightarrow> string \<Rightarrow> ast_pool \<Rightarrow> (nat \<times> ast_pool) option" where
  "parse_return C expression str p = do {
     (ret, p) \<leftarrow> new_node False p 16;
     (e, p) \<leftarrow> expression (cs_remove_first_word C str) p;
     store_node p ret (N_Return e) }"

definition parse_while :: "cstring \<Rightarrow> parser \<Rightarrow> parser \<Rightarrow> string \<Rightarrow> ast_pool \<Rightarrow> (nat \<times> ast_pool) option" where
  "parse_while C expression statement str p = do {
     (ret, p) \<leftarrow> new_node False p 18;
     let without_first = cs_remove_first_word C str;
     (offset, condition) \<leftarrow> cs_next_paren_group C without_first;
     body \<leftarrow> cs_copy_within_parens C (drop offset without_first);
     (c, p) \<leftarrow> expression condition p;
     (b, p) \<leftarrow> statement body p;
     store_node p ret (N_While c b) }"

definition skip_node :: "ast_pool \<Rightarrow> (nat \<times> ast_pool) option" where
  "skip_node p = new_node False p 20"

definition parse_if :: "cstring \<Rightarrow> parser \<Rightarrow> parser \<Rightarrow> string \<Rightarrow> ast_pool \<Rightarrow> (nat \<times> ast_pool) option" where
  "parse_if C expression statement str p = do {
     (ret, p) \<leftarrow> new_node False p 17;
     (if_offset, if_condition) \<leftarrow> cs_next_paren_group C str;
     let post_condition = drop if_offset str;
     (then_offset, then_body) \<leftarrow> cs_next_paren_group C post_condition;
     let post_then = drop then_offset post_condition;
     (c, p) \<leftarrow> expression if_condition p;
     (t, p) \<leftarrow> statement then_body p;
     (if cs_first_word_is C ''else'' post_then then do {
        (off, else_body) \<leftarrow> cs_next_paren_group C post_then;
        (e, p) \<leftarrow> statement else_body p;
        store_node p ret (N_If c t e) }
      else do {
        (e, p) \<leftarrow> skip_node p;
        store_node p ret (N_If c t e) }) }"

definition parse_assignment :: "cstring \<Rightarrow> parser \<Rightarrow> string \<Rightarrow> ast_pool \<Rightarrow> (nat \<times> ast_pool) option" where
  "parse_assignment C expression str p = do {
     (ret, p) \<leftarrow> new_node False p 15;
     string_bufs \<leftarrow> cs_split_outside_parens C 2 CHR ''='' str;
     (case string_bufs of
        [l, r] \<Rightarrow> do {
          (v, p) \<leftarrow> expression l p;
          (e, p) \<leftarrow> expression r p;
          store_node p ret (N_Assignment v e) }
      | _ \<Rightarrow> None) }"

definition parse_sequence :: "cstring \<Rightarrow> parser \<Rightarrow> string \<Rightarrow> ast_pool \<Rightarrow> (nat \<times> ast_pool) option" where
  "parse_sequence C statement str p = do {
     (ret, p) \<leftarrow> new_node False p 19;
     (l, r) \<leftarrow> cs_first_split C CHR '','' str;
     (e, p) \<leftarrow> statement l p;
     (nxt, p) \<leftarrow> statement r p;
     store_node p ret (N_Sequence e nxt) }"

definition parse_statement_step :: "cstring \<Rightarrow> parser \<Rightarrow> parser \<Rightarrow> string \<Rightarrow> ast_pool \<Rightarrow> (nat \<times> ast_pool) option" where
  "parse_statement_step C expression statement str p = (
     if cs_first_word_is C ''var'' str then parse_var C expression statement str p
     else if cs_first_word_is C ''remote'' str then parse_remote C expression statement str p
     else if cs_char_outside_parens C CHR '','' str then parse_sequence C statement str p
     else if cs_contains_outside_parens C ''return'' str then parse_return C expression str p
     else if cs_contains_outside_parens C ''while'' str then parse_while C expression statement str p
     else if cs_contains_outside_parens C ''if'' str then parse_if C expression statement str p
     else if cs_contains_outside_parens C ''='' str then parse_assignment C expression str p
     else if cs_first_word_is C ''{'' str then do { s \<leftarrow> cs_copy_within_parens C str; statement s p }
     else if cs_contains_paren C str then parse_operation C expression str True p
     else if cs_trim C str = [] then skip_node p
     else None)"

fun parse_statement :: "cstring \<Rightarrow> nat \<Rightarrow> parser" where
  "parse_statement C 0 str p = None"
| "parse_statement C (Suc n) str p = parse_statement_step C (parse_expression C n) (parse_statement C n) str p"

text \<open>The constructor.  Every step of an expression works on a shorter string, and a statement on one that is no
  longer.\<close>

definition parse_fuel :: "string \<Rightarrow> nat" where
  "parse_fuel str = length str + 2"

definition parse :: "cstring \<Rightarrow> string \<Rightarrow> ast_allocator option" where
  "parse C str = (if cs_contains C CHR '';'' str then None else do {
     (e, p) \<leftarrow> parse_statement C (parse_fuel str) str (pool_new 400 union_new);
     Some \<lparr>elem_pool = p, top_e = e, top_payload = 0\<rparr> })"

end
