(* ===== verification/ParseCorrect.thy ===== *)
theory ParseCorrect
  imports Parse
begin

text \<open>
  The parser of \<open>Parse\<close> ends: its equations, as the code has them and without fuel, have exactly one solution.
\<close>

section \<open>The parser ends\<close>

text \<open>What the parser relies on in the functions on strings: what they find is no longer than where they find it,
  what they cut off is really gone, and trimming does not make anything appear.\<close>

definition finds_inside :: "cstring \<Rightarrow> bool" where
  "finds_inside C \<longleftrightarrow>
     (\<forall>w s. cs_contains_outside_parens C w s \<longrightarrow> length w \<le> length s) \<and>
     (\<forall>c s. cs_char_outside_parens C c s \<longrightarrow> s \<noteq> []) \<and>
     (\<forall>w s. cs_prefix_equal C w s \<longrightarrow> length w \<le> length s) \<and>
     (\<forall>w s. cs_first_word_is C w s \<longrightarrow> length w \<le> length s)"

definition trims :: "cstring \<Rightarrow> bool" where
  "trims C \<longleftrightarrow> (\<forall>s. length (cs_trim C s) \<le> length s \<and> cs_trim C (cs_trim C s) = cs_trim C s)"

definition splits :: "cstring \<Rightarrow> bool" where
  "splits C \<longleftrightarrow>
     (\<forall>w s a b. cs_last_split C w s = Some (a, b) \<and> cs_contains_outside_parens C w s \<and> w \<noteq> [] \<longrightarrow>
        length a + length b < length s) \<and>
     (\<forall>c s a b. cs_last_split_char C c s = Some (a, b) \<longrightarrow> length a + length b \<le> length s \<and>
        (cs_contains_outside_parens C [c] s \<longrightarrow> length a + length b < length s)) \<and>
     (\<forall>c s a b. cs_first_split C c s = Some (a, b) \<longrightarrow> length a + length b \<le> length s \<and>
        (cs_char_outside_parens C c s \<longrightarrow> length a + length b < length s)) \<and>
     (\<forall>n c s ss x. cs_split_outside_parens C n c s = Some ss \<and> x \<in> set ss \<longrightarrow> length x \<le> length s) \<and>
     (\<forall>w s a b. cs_last_split C ''.'' s = Some (a, b) \<and> cs_contains_outside_parens C w (cs_trim C b) \<longrightarrow>
        cs_contains_outside_parens C w s)"

definition cuts :: "cstring \<Rightarrow> bool" where
  "cuts C \<longleftrightarrow>
     (\<forall>s g. cs_copy_within_parens C s = Some g \<longrightarrow> g = [] \<or> length g < length s) \<and>
     (\<forall>s off g. cs_next_paren_group C s = Some (off, g) \<longrightarrow> g = [] \<or> length g < length s) \<and>
     (\<forall>s. length (cs_remove_first_word C s) \<le> length s) \<and>
     (\<forall>w s. cs_first_word_is C w s \<and> w \<noteq> [] \<longrightarrow> length (cs_remove_first_word C s) < length s)"

definition shortens :: "cstring \<Rightarrow> bool" where
  "shortens C \<longleftrightarrow> finds_inside C \<and> trims C \<and> splits C \<and> cuts C"

lemma found_length: "shortens C \<Longrightarrow> cs_contains_outside_parens C w s \<Longrightarrow> length w \<le> length s"
  by (simp add: shortens_def finds_inside_def)

lemma found_nonempty: "shortens C \<Longrightarrow> cs_contains_outside_parens C w s \<Longrightarrow> w \<noteq> [] \<Longrightarrow> s \<noteq> []"
  using found_length by fastforce

lemma prefix_length: "shortens C \<Longrightarrow> cs_prefix_equal C w s \<Longrightarrow> length w \<le> length s"
  by (simp add: shortens_def finds_inside_def)

lemma first_word_length: "shortens C \<Longrightarrow> cs_first_word_is C w s \<Longrightarrow> length w \<le> length s"
  by (simp add: shortens_def finds_inside_def)

lemma char_found_nonempty: "shortens C \<Longrightarrow> cs_char_outside_parens C c s \<Longrightarrow> s \<noteq> []"
  by (auto simp: shortens_def finds_inside_def)

lemma trim_length: "shortens C \<Longrightarrow> length (cs_trim C s) \<le> length s"
  by (simp add: shortens_def trims_def)

lemma trim_twice: "shortens C \<Longrightarrow> cs_trim C (cs_trim C s) = cs_trim C s"
  by (simp add: shortens_def trims_def)

lemma last_split_length:
  "shortens C \<Longrightarrow> cs_last_split C w s = Some (a, b) \<Longrightarrow> cs_contains_outside_parens C w s \<Longrightarrow> w \<noteq> [] \<Longrightarrow>
   length a < length s \<and> length b < length s"
  unfolding shortens_def splits_def by (metis add_leD1 add_leD2 less_le_trans not_less order_le_less_trans le_add1 le_add2)

lemma last_split_char_length:
  "shortens C \<Longrightarrow> cs_last_split_char C c s = Some (a, b) \<Longrightarrow> length a + length b \<le> length s"
  "shortens C \<Longrightarrow> cs_last_split_char C c s = Some (a, b) \<Longrightarrow> cs_contains_outside_parens C [c] s \<Longrightarrow>
   length a + length b < length s"
  unfolding shortens_def splits_def by blast+

lemma first_split_length:
  "shortens C \<Longrightarrow> cs_first_split C c s = Some (a, b) \<Longrightarrow> length a + length b \<le> length s"
  "shortens C \<Longrightarrow> cs_first_split C c s = Some (a, b) \<Longrightarrow> cs_char_outside_parens C c s \<Longrightarrow> length a + length b < length s"
  unfolding shortens_def splits_def by blast+

lemma piece_length: "shortens C \<Longrightarrow> cs_split_outside_parens C n c s = Some ss \<Longrightarrow> x \<in> set ss \<Longrightarrow> length x \<le> length s"
  unfolding shortens_def splits_def by blast

lemma found_in_piece:
  "shortens C \<Longrightarrow> cs_last_split C ''.'' s = Some (a, b) \<Longrightarrow> cs_contains_outside_parens C w (cs_trim C b) \<Longrightarrow>
   cs_contains_outside_parens C w s"
  unfolding shortens_def splits_def by blast

lemma within_length: "shortens C \<Longrightarrow> cs_copy_within_parens C s = Some g \<Longrightarrow> g = [] \<or> length g < length s"
  unfolding shortens_def cuts_def by blast

lemma group_length: "shortens C \<Longrightarrow> cs_next_paren_group C s = Some (off, g) \<Longrightarrow> g = [] \<or> length g < length s"
  unfolding shortens_def cuts_def by blast

lemma rest_length:
  "shortens C \<Longrightarrow> length (cs_remove_first_word C s) \<le> length s"
  "shortens C \<Longrightarrow> cs_first_word_is C w s \<Longrightarrow> w \<noteq> [] \<Longrightarrow> length (cs_remove_first_word C s) < length s"
  unfolding shortens_def cuts_def by blast+

text \<open>A step of the parser depends on the parser of shorter strings only.\<close>

definition agree_below :: "nat \<Rightarrow> parser \<Rightarrow> parser \<Rightarrow> bool" where
  "agree_below n e e' \<longleftrightarrow> (\<forall>s. length s < n \<longrightarrow> e s = e' s)"

lemma agree_belowD: "agree_below n e e' \<Longrightarrow> length s < n \<Longrightarrow> e s = e' s"
  by (simp add: agree_below_def)

lemma agree_below_mono: "agree_below n e e' \<Longrightarrow> m \<le> n \<Longrightarrow> agree_below m e e'"
  by (simp add: agree_below_def)

lemma bind_agree: "(\<And>x. m = Some x \<Longrightarrow> f x = g x) \<Longrightarrow> Option.bind m f = Option.bind m g"
  by (cases m) simp_all

lemma parse_binop_agree:
  assumes "shortens C" "agree_below (length str) e e'" "cs_contains_outside_parens C op str" "op \<noteq> []"
  shows "parse_binop C e str op p = parse_binop C e' str op p"
proof (cases "cs_last_split C op str")
  case (Some ab)
  then have "e (fst ab) = e' (fst ab)" "e (snd ab) = e' (snd ab)"
    using last_split_length[OF assms(1) _ assms(3,4)] agree_belowD[OF assms(2)] by (metis prod.collapse)+
  with Some show ?thesis by (simp add: parse_binop_def case_prod_unfold)
qed (simp add: parse_binop_def)

lemma parse_builtin_op_agree:
  assumes "shortens C" "agree_below (length str) e e'" "cs_trim C str = str" "cs_contains_outside_parens C ''.'' str"
  shows "parse_builtin_op C e str op p = parse_builtin_op C e' str op p"
proof (cases "cs_last_split_char C CHR ''.'' str")
  case (Some ab)
  obtain a b where ab: "ab = (a, b)" by (cases ab)
  have "length a < length str" using last_split_char_length(2)[OF assms(1) _ assms(4)] Some ab by simp
  then have "e a = e' a" by (rule agree_belowD[OF assms(2)])
  with Some ab assms(3) show ?thesis by (simp add: parse_builtin_op_def cong: if_cong)
qed (simp add: parse_builtin_op_def assms(3))

lemma parse_arg_list_agree:
  "\<forall>s \<in> set ss. s \<noteq> [] \<longrightarrow> e s = e' s \<Longrightarrow> parse_arg_list e ss p = parse_arg_list e' ss p"
  by (induction ss arbitrary: p) (simp_all add: case_prod_unfold)

lemma parse_args_agree:
  assumes "shortens C" "agree_below n e e'" "length str < n"
  shows "parse_args C e str p = parse_args C e' str p"
proof (cases "cs_split_outside_parens C 20 CHR '','' str")
  case (Some ss)
  have "\<forall>s \<in> set ss. s \<noteq> [] \<longrightarrow> e s = e' s"
    using piece_length[OF assms(1) Some] agree_belowD[OF assms(2)] assms(3) le_less_trans by blast
  from parse_arg_list_agree[OF this] Some show ?thesis by (simp add: parse_args_def)
qed (simp add: parse_args_def)

lemma parse_operation_agree:
  assumes "shortens C" "agree_below n e e'"
    and pieces: "\<And>a b. cs_last_split_char C CHR ''.'' str = Some (a, b) \<Longrightarrow> length a < n \<and> length b < n"
  shows "parse_operation C e str st p = parse_operation C e' str st p"
proof (cases "cs_last_split_char C CHR ''.'' str")
  case (Some ab)
  obtain a b where ab: "ab = (a, b)" by (cases ab)
  have a: "e a = e' a" and b: "length b < n" using pieces Some ab agree_belowD[OF assms(2)] by simp_all
  show ?thesis
  proof (cases "cs_next_paren_group C b")
    case (Some og)
    then have "length (snd og) < n" using group_length[OF assms(1), of b "fst og" "snd og"] b by auto
    note args = parse_args_agree[OF assms(1,2) this]
    from a ab Some \<open>cs_last_split_char C CHR ''.'' str = Some ab\<close> show ?thesis
      by (simp add: parse_operation_def case_prod_unfold args)
  qed (use Some ab in \<open>simp add: parse_operation_def\<close>)
qed (simp add: parse_operation_def)

lemma parse_fieldref_agree:
  assumes "shortens C" "agree_below (length str) e e'" "cs_trim C str = str" "cs_contains_outside_parens C ''.'' str"
  shows "parse_fieldref C e str p = parse_fieldref C e' str p"
proof (cases "cs_last_split_char C CHR ''.'' str")
  case (Some ab)
  obtain a b where ab: "ab = (a, b)" by (cases ab)
  have "length a < length str" using last_split_char_length(2)[OF assms(1) _ assms(4)] Some ab by simp
  then have "e a = e' a" by (rule agree_belowD[OF assms(2)])
  with Some ab assms(3) show ?thesis by (simp add: parse_fieldref_def cong: if_cong)
qed (simp add: parse_fieldref_def assms(3))

lemma parse_fieldptrref_agree:
  assumes "shortens C" "agree_below (length str) e e'" "cs_trim C str = str" "cs_contains_outside_parens C ''->'' str"
  shows "parse_fieldptrref C e str p = parse_fieldptrref C e' str p"
proof (cases "cs_last_split C ''->'' str")
  case (Some ab)
  obtain a b where ab: "ab = (a, b)" by (cases ab)
  have "length a < length str" using last_split_length[OF assms(1) _ assms(4)] Some ab by simp
  then have "e a = e' a" by (rule agree_belowD[OF assms(2)])
  with Some ab assms(3) show ?thesis by (simp add: parse_fieldptrref_def cong: if_cong)
qed (simp add: parse_fieldptrref_def assms(3))

lemma parse_dotted_agree:
  assumes C: "shortens C" and ag: "agree_below (length str) e e'" and tr: "cs_trim C str = str"
    and d: "cs_contains_outside_parens C ''.'' str"
  shows "parse_dotted C e str p = parse_dotted C e' str p"
  unfolding parse_dotted_def
proof (rule bind_agree, clarify)
  fix a b assume split: "cs_last_split C ''.'' str = Some (a, b)"
  have op: "parse_operation C e str False p = parse_operation C e' str False p"
    by (rule parse_operation_agree[OF C ag]) (use last_split_char_length(2)[OF C _ d] in fastforce)
  have ptr: "cs_contains_outside_parens C ''->'' (cs_trim C b) \<Longrightarrow>
      parse_fieldptrref C e str p = parse_fieldptrref C e' str p"
    using parse_fieldptrref_agree[OF C ag tr] found_in_piece[OF C split] by blast
  show "(let r = cs_trim C b in
      if cs_contains_outside_parens C ''.'' r then None
      else if cs_contains_outside_parens C ''->'' r then parse_fieldptrref C e str p
      else if cs_contains_outside_parens C ''isValid('' r then parse_builtin_op C e str ''isValid('' p
      else if cs_contains_outside_parens C ''endorse('' r then parse_builtin_op C e str ''endorse('' p
      else if cs_contains_outside_parens C ''ensure('' r then parse_builtin_op C e str ''ensure('' p
      else if cs_contains_paren C r then parse_operation C e str False p
      else parse_fieldref C e str p) = (let r = cs_trim C b in
      if cs_contains_outside_parens C ''.'' r then None
      else if cs_contains_outside_parens C ''->'' r then parse_fieldptrref C e' str p
      else if cs_contains_outside_parens C ''isValid('' r then parse_builtin_op C e' str ''isValid('' p
      else if cs_contains_outside_parens C ''endorse('' r then parse_builtin_op C e' str ''endorse('' p
      else if cs_contains_outside_parens C ''ensure('' r then parse_builtin_op C e' str ''ensure('' p
      else if cs_contains_paren C r then parse_operation C e' str False p
      else parse_fieldref C e' str p)"
    unfolding Let_def
    by (simp only: parse_builtin_op_agree[OF C ag tr d] parse_fieldref_agree[OF C ag tr d] op ptr cong: if_cong)
qed

lemma find_operator_Some: "find_operator C str = Some op \<Longrightarrow> cs_contains_outside_parens C op str \<and> op \<noteq> []"
proof -
  assume "find_operator C str = Some op"
  then have "cs_contains_outside_parens C op str" "op \<in> set operators"
    unfolding find_operator_def find_Some_iff by auto
  then show ?thesis by (auto simp: operators_def)
qed

lemma parse_expression_step_agree:
  assumes C: "shortens C" and ag: "agree_below (length text) e e'"
  shows "parse_expression_step C e text p = parse_expression_step C e' text p"
proof -
  define str where str: "str = cs_trim C text"
  have tr: "cs_trim C str = str" using trim_twice[OF C] str by simp
  have ag': "agree_below (length str) e e'" using agree_below_mono[OF ag] trim_length[OF C] str by simp
  have binop: "find_operator C str = Some op \<Longrightarrow> parse_binop C e str op p = parse_binop C e' str op p" for op
    using find_operator_Some parse_binop_agree[OF C ag'] by blast
  have deref: "parse_deref C e str p = parse_deref C e' str p" if "cs_prefix_equal C ''*'' str"
  proof -
    have "length (tl str) < length str" using prefix_length[OF C that] by (cases str) auto
    from agree_belowD[OF ag' this] show ?thesis by (simp add: parse_deref_def tr)
  qed
  have group: "e g = e' g" if "str \<noteq> []" "cs_next_paren_group C str = Some (off, g)" for off g
    using group_length[OF C that(2)] that(1) by (intro agree_belowD[OF ag']) auto
  show ?thesis
  proof (cases "find_operator C str")
    case (Some op)
    then show ?thesis unfolding parse_expression_step_def Let_def str[symmetric] by (simp add: binop)
  next
    case None
    have grp: "str \<noteq> [] \<Longrightarrow> Option.bind (cs_next_paren_group C str) (\<lambda>(off, s). e s p) =
        Option.bind (cs_next_paren_group C str) (\<lambda>(off, s). e' s p)"
      by (rule bind_agree) (auto simp: group)
    note ptr = parse_fieldptrref_agree[OF C ag' tr]
    show ?thesis unfolding parse_expression_step_def str[symmetric] Let_def[of str] None option.case
      by (intro if_cong refl) (simp_all add: deref ptr grp parse_dotted_agree[OF C ag' tr])
  qed
qed


lemma parse_expression_fuel_any:
  "shortens C \<Longrightarrow> length s < n \<Longrightarrow> length s < m \<Longrightarrow> parse_expression C n s = parse_expression C m s"
proof (induction s arbitrary: n m rule: length_induct)
  case (1 s)
  from 1(3,4) obtain n' m' where nm: "n = Suc n'" "m = Suc m'" by (cases n; cases m) auto
  have "agree_below (length s) (parse_expression C n') (parse_expression C m')"
    unfolding agree_below_def
  proof (intro allI impI)
    fix t :: string assume "length t < length s"
    with 1(3,4) nm show "parse_expression C n' t = parse_expression C m' t"
      by (intro 1(1)[rule_format, OF _ 1(2)]) simp_all
  qed
  note step = parse_expression_step_agree[OF 1(2) this]
  show ?case unfolding nm by (rule ext) (simp only: parse_expression.simps step)
qed

text \<open>Statements parse expressions that are no longer than they are.\<close>

lemma parse_binding_agree:
  assumes "shortens C" "agree_below n e e'" "length str < n"
  shows "parse_binding C e str p = parse_binding C e' str p"
  unfolding parse_binding_def
proof (intro bind_agree, clarify, intro bind_agree, clarify)
  fix r q a b assume "cs_first_split C CHR ''='' str = Some (a, b)"
  then have "e b = e' b"
    using first_split_length(1)[OF assms(1)] assms(3) by (intro agree_belowD[OF assms(2)]) fastforce
  then show "Option.bind (e b q) (\<lambda>(rhs, p). store_node p r (N_Binding rhs (cs_str_cpy C (cs_trim C a)))) =
      Option.bind (e' b q) (\<lambda>(rhs, p). store_node p r (N_Binding rhs (cs_str_cpy C (cs_trim C a))))" by simp
qed

lemma parse_let_agree:
  assumes "shortens C" "agree_below (Suc (length str)) e e'" "agree_below (length str) st st'"
    and "cs_first_word_is C w str" "w \<noteq> []" and "cs_first_split C CHR '','' (cs_remove_first_word C str) = Some (a, b)"
  shows "parse_binding C e a p = parse_binding C e' a p" "st b = st' b"
proof -
  have "length a < length str" "length b < length str"
    using first_split_length(1)[OF assms(1,6)] rest_length(2)[OF assms(1,4,5)] by simp_all
  then show "parse_binding C e a p = parse_binding C e' a p" "st b = st' b"
    using parse_binding_agree[OF assms(1,2)] agree_belowD[OF assms(3)] by simp_all
qed

lemma parse_var_agree:
  assumes "shortens C" "agree_below (Suc (length str)) e e'" "agree_below (length str) st st'" "cs_first_word_is C ''var'' str"
  shows "parse_var C e st str p = parse_var C e' st' str p"
proof (cases "cs_first_split C CHR '','' (cs_remove_first_word C str)")
  case (Some ab)
  obtain a b where "ab = (a, b)" by (cases ab)
  with Some have s: "cs_first_split C CHR '','' (cs_remove_first_word C str) = Some (a, b)" by simp
  note parts = parse_let_agree[OF assms(1-4) _ s]
  show ?thesis by (simp add: parse_var_def s parts)
qed (simp add: parse_var_def)

lemma parse_remote_agree:
  assumes "shortens C" "agree_below (Suc (length str)) e e'" "agree_below (length str) st st'" "cs_first_word_is C ''remote'' str"
  shows "parse_remote C e st str p = parse_remote C e' st' str p"
proof (cases "cs_first_split C CHR '','' (cs_remove_first_word C str)")
  case (Some ab)
  obtain a b where "ab = (a, b)" by (cases ab)
  with Some have s: "cs_first_split C CHR '','' (cs_remove_first_word C str) = Some (a, b)" by simp
  note parts = parse_let_agree[OF assms(1-4) _ s]
  show ?thesis by (simp add: parse_remote_def s parts)
qed (simp add: parse_remote_def)

lemma parse_sequence_agree:
  assumes "shortens C" "agree_below (length str) st st'" "cs_char_outside_parens C CHR '','' str"
  shows "parse_sequence C st str p = parse_sequence C st' str p"
proof (cases "cs_first_split C CHR '','' str")
  case (Some ab)
  obtain a b where "ab = (a, b)" by (cases ab)
  with Some have s: "cs_first_split C CHR '','' str = Some (a, b)" by simp
  have "st a = st' a" "st b = st' b"
    using first_split_length(2)[OF assms(1) s assms(3)] by (simp_all add: agree_belowD[OF assms(2)])
  with s show ?thesis by (simp add: parse_sequence_def)
qed (simp add: parse_sequence_def)

lemma parse_return_agree:
  assumes "shortens C" "agree_below (Suc (length str)) e e'"
  shows "parse_return C e str p = parse_return C e' str p"
  using agree_belowD[OF assms(2), of "cs_remove_first_word C str"] rest_length(1)[OF assms(1), of str]
  by (simp add: parse_return_def)

text \<open>A group of a nonempty string, or of what is left of it.\<close>

lemma group_below:
  "shortens C \<Longrightarrow> cs_next_paren_group C s = Some (off, g) \<Longrightarrow> length s \<le> n \<Longrightarrow> 0 < n \<Longrightarrow> length g < n"
  using group_length by fastforce

lemma within_below:
  "shortens C \<Longrightarrow> cs_copy_within_parens C s = Some g \<Longrightarrow> length s \<le> n \<Longrightarrow> 0 < n \<Longrightarrow> length g < n"
  using within_length by fastforce

lemma parse_while_agree:
  assumes "shortens C" "agree_below (Suc (length str)) e e'" "agree_below (length str) st st'" "str \<noteq> []"
  shows "parse_while C e st str p = parse_while C e' st' str p"
  unfolding parse_while_def Let_def
proof (rule bind_agree, clarify, rule bind_agree, clarify, rule bind_agree)
  fix r q off c b
  let ?w = "cs_remove_first_word C str"
  assume g: "cs_next_paren_group C ?w = Some (off, c)" and b: "cs_copy_within_parens C (drop off ?w) = Some b"
  have w: "length ?w \<le> length str" by (rule rest_length(1)[OF assms(1)])
  have "e c = e' c" using group_below[OF assms(1) g] w assms(4) by (intro agree_belowD[OF assms(2)]) fastforce
  moreover have "st b = st' b" using within_below[OF assms(1) b] w assms(4) by (intro agree_belowD[OF assms(3)]) simp
  ultimately show "Option.bind (e c q) (\<lambda>(c, p). Option.bind (st b p) (\<lambda>(b, p). store_node p r (N_While c b))) =
      Option.bind (e' c q) (\<lambda>(c, p). Option.bind (st' b p) (\<lambda>(b, p). store_node p r (N_While c b)))" by simp
qed

lemma parse_if_agree:
  assumes C: "shortens C" and e: "agree_below (Suc (length str)) e e'" and st: "agree_below (length str) st st'"
    and str: "str \<noteq> []"
  shows "parse_if C e st str p = parse_if C e' st' str p"
proof (cases "cs_next_paren_group C str")
  case (Some oc)
  obtain off c where oc: "cs_next_paren_group C str = Some (off, c)" using Some by (cases oc) simp
  have ec: "e c = e' c" using group_below[OF C oc] str by (intro agree_belowD[OF e]) fastforce
  show ?thesis
  proof (cases "cs_next_paren_group C (drop off str)")
    case (Some ot)
    obtain off2 t where ot: "cs_next_paren_group C (drop off str) = Some (off2, t)" using Some by (cases ot) simp
    have tt: "st t = st' t" using group_below[OF C ot] str by (intro agree_belowD[OF st]) simp
    have ee: "cs_next_paren_group C (drop off2 (drop off str)) = Some (off3, b) \<Longrightarrow> st b = st' b" for off3 b
      using group_below[OF C] str by (intro agree_belowD[OF st]) (metis diff_le_self le_trans length_drop length_greater_0_conv)
    have "Option.bind (cs_next_paren_group C (drop off2 (drop off str))) (\<lambda>(off, b). Option.bind (st b q) f) =
        Option.bind (cs_next_paren_group C (drop off2 (drop off str))) (\<lambda>(off, b). Option.bind (st' b q) f)"
      for q and f :: "nat \<times> ast_pool \<Rightarrow> (nat \<times> ast_pool) option"
      by (rule bind_agree) (auto simp: ee)
    then show ?thesis by (simp add: parse_if_def Let_def oc ot ec tt cong: if_cong)
  qed (simp add: parse_if_def oc)
qed (simp add: parse_if_def)

lemma parse_assignment_agree:
  assumes "shortens C" "agree_below (Suc (length str)) e e'"
  shows "parse_assignment C e str p = parse_assignment C e' str p"
proof -
  have "cs_split_outside_parens C 2 CHR ''='' str = Some [l, r] \<Longrightarrow> e l = e' l \<and> e r = e' r" for l r
    using piece_length[OF assms(1), of 2 "CHR ''=''" str] by (simp add: agree_belowD[OF assms(2)] le_imp_less_Suc)
  then show ?thesis unfolding parse_assignment_def
    by (intro bind_agree) (auto split: list.splits intro!: bind_agree)
qed

lemma parse_statement_step_agree:
  assumes C: "shortens C" and e: "agree_below (Suc (length str)) e e'" and st: "agree_below (length str) st st'"
  shows "parse_statement_step C e st str p = parse_statement_step C e' st' str p"
proof -
  have found: "cs_contains_outside_parens C w str \<Longrightarrow> w \<noteq> [] \<Longrightarrow> str \<noteq> []" for w using found_nonempty[OF C] by blast
  have block: "Option.bind (cs_copy_within_parens C str) (\<lambda>s. st s p) = Option.bind (cs_copy_within_parens C str) (\<lambda>s. st' s p)"
    if "cs_first_word_is C ''{'' str"
  proof (rule bind_agree)
    fix s assume "cs_copy_within_parens C str = Some s"
    moreover have "str \<noteq> []" using first_word_length[OF C that] by auto
    ultimately have "length s < length str" using within_below[OF C] by simp
    then show "st s p = st' s p" by (simp add: agree_belowD[OF st])
  qed
  have op: "parse_operation C e str True p = parse_operation C e' str True p"
    by (rule parse_operation_agree[OF C e]) (use last_split_char_length(1)[OF C] in fastforce)
  show ?thesis unfolding parse_statement_step_def
    by (intro if_cong refl) (simp_all add: parse_var_agree[OF C e st] parse_remote_agree[OF C e st] parse_sequence_agree[OF C st]
      parse_return_agree[OF C e] parse_while_agree[OF C e st] parse_if_agree[OF C e st] parse_assignment_agree[OF C e]
      found block op)
qed

lemma parse_statement_fuel_any:
  "shortens C \<Longrightarrow> parse_fuel s \<le> n \<Longrightarrow> parse_fuel s \<le> m \<Longrightarrow> parse_statement C n s = parse_statement C m s"
proof (induction s arbitrary: n m rule: length_induct)
  case (1 s)
  from 1(3,4) obtain n' m' where nm: "n = Suc n'" "m = Suc m'" by (cases n; cases m) (auto simp: parse_fuel_def)
  have "agree_below (Suc (length s)) (parse_expression C n') (parse_expression C m')"
    unfolding agree_below_def
  proof (intro allI impI)
    fix t :: string assume "length t < Suc (length s)"
    with 1(3,4) nm show "parse_expression C n' t = parse_expression C m' t"
      by (intro parse_expression_fuel_any[OF 1(2)]) (simp_all add: parse_fuel_def)
  qed
  moreover have "agree_below (length s) (parse_statement C n') (parse_statement C m')"
    unfolding agree_below_def
  proof (intro allI impI)
    fix t :: string assume "length t < length s"
    with 1(3,4) nm show "parse_statement C n' t = parse_statement C m' t"
      by (intro 1(1)[rule_format, OF _ 1(2)]) (simp_all add: parse_fuel_def)
  qed
  ultimately have "parse_statement_step C (parse_expression C n') (parse_statement C n') s p =
      parse_statement_step C (parse_expression C m') (parse_statement C m') s p" for p
    by (rule parse_statement_step_agree[OF 1(2)])
  then show ?case unfolding nm by (intro ext) (simp only: parse_statement.simps)
qed

text \<open>The equations of the two functions of the code, which call each other without fuel.\<close>

definition parser_equations :: "cstring \<Rightarrow> parser \<Rightarrow> parser \<Rightarrow> bool" where
  "parser_equations C e st \<longleftrightarrow>
     (\<forall>s p. e s p = parse_expression_step C e s p) \<and> (\<forall>s p. st s p = parse_statement_step C e st s p)"

lemma fuel_solves:
  assumes C: "shortens C"
  shows "parser_equations C (\<lambda>s. parse_expression C (Suc (length s)) s) (\<lambda>s. parse_statement C (parse_fuel s) s)"
  (is "parser_equations C ?e ?st")
  unfolding parser_equations_def
proof (intro conjI allI)
  fix s :: string and p
  have "agree_below (length s) (parse_expression C (length s)) ?e"
    unfolding agree_below_def by (intro allI impI parse_expression_fuel_any[OF C]) simp_all
  from parse_expression_step_agree[OF C this] show "?e s p = parse_expression_step C ?e s p" by simp
  have e: "agree_below (Suc (length s)) (parse_expression C (Suc (length s))) ?e"
    unfolding agree_below_def by (intro allI impI parse_expression_fuel_any[OF C]) simp_all
  have st: "agree_below (length s) (parse_statement C (Suc (length s))) ?st"
    unfolding agree_below_def by (intro allI impI parse_statement_fuel_any[OF C]) (simp_all add: parse_fuel_def)
  have "?st s p = parse_statement_step C (parse_expression C (Suc (length s))) (parse_statement C (Suc (length s))) s p"
    by (simp add: parse_fuel_def numeral_2_eq_2)
  also have "\<dots> = parse_statement_step C ?e ?st s p" by (rule parse_statement_step_agree[OF C e st])
  finally show "?st s p = parse_statement_step C ?e ?st s p" .
qed

lemma solution_unique:
  assumes C: "shortens C" and eqs: "parser_equations C e st" "parser_equations C e' st'"
  shows "e s = e' s" "st s = st' s"
proof -
  have e: "e s = e' s" for s
  proof (induction s rule: length_induct)
    case (1 s)
    then have "agree_below (length s) e e'" by (simp add: agree_below_def)
    from parse_expression_step_agree[OF C this] eqs show ?case by (intro ext) (simp add: parser_equations_def)
  qed
  then show "e s = e' s" .
  show "st s = st' s"
  proof (induction s rule: length_induct)
    case (1 s)
    then have "agree_below (length s) st st'" by (simp add: agree_below_def)
    moreover have "agree_below (Suc (length s)) e e'" by (simp add: agree_below_def e)
    ultimately have "parse_statement_step C e st s p = parse_statement_step C e' st' s p" for p
      using parse_statement_step_agree[OF C] by blast
    with eqs show ?case by (intro ext) (simp add: parser_equations_def)
  qed
qed

text \<open>C7: the recursion of the parser ends.  Its equations, as the code has them and without
  fuel, have exactly one solution, and it is the parser with the fuel that \<open>parse\<close> gives: a text is never
  refused for want of fuel.  This rests on laws of the functions on strings: what they find is no
  longer than where they find it, and what they cut off is gone.\<close>

theorem parser_has_one_solution:
  assumes "shortens C"
  shows "parser_equations C e st \<longleftrightarrow>
    e = (\<lambda>s. parse_expression C (Suc (length s)) s) \<and> st = (\<lambda>s. parse_statement C (parse_fuel s) s)"
proof
  assume "parser_equations C e st"
  from solution_unique[OF assms this fuel_solves[OF assms]]
  show "e = (\<lambda>s. parse_expression C (Suc (length s)) s) \<and> st = (\<lambda>s. parse_statement C (parse_fuel s) s)"
    by (simp add: fun_eq_iff)
next
  assume "e = (\<lambda>s. parse_expression C (Suc (length s)) s) \<and> st = (\<lambda>s. parse_statement C (parse_fuel s) s)"
  with fuel_solves[OF assms] show "parser_equations C e st" by simp
qed

section \<open>What the operators lose\<close>

text \<open>C22: \<open>parse_binop\<close> only keeps the first character of an operator.  Two texts with the same
  operands and with operators that start with the same character leave the same nodes in the pool: \<open>a>=b\<close>
  is parsed as \<open>a> b\<close>.\<close>

theorem operators_confused:
  assumes "find_operator C (cs_trim C s) = Some op" "find_operator C (cs_trim C s') = Some op'" "hd op = hd op'"
    and "cs_last_split C op (cs_trim C s) = cs_last_split C op' (cs_trim C s')"
    and "\<not> cs_streq C ''default list'' (cs_trim C s)" "\<not> cs_streq C ''default list'' (cs_trim C s')"
  shows "parse_expression C n s p = parse_expression C n s' p"
proof (cases n)
  case (Suc m)
  show ?thesis unfolding Suc parse_expression.simps parse_expression_step_def Let_def
    using assms by (simp add: parse_binop_def)
qed simp

text \<open>Where \<open><=\<close> stands there also stands \<open><\<close>, which is looked for first.\<close>

lemma less_equal_never_found:
  assumes "cs_contains_outside_parens C ''<='' str \<Longrightarrow> cs_contains_outside_parens C ''<'' str"
  shows "find_operator C str \<noteq> Some ''<=''"
  using assms by (auto simp: find_operator_def operators_def)

text \<open>An assignment to a variable whose name contains \<open>if\<close>, \<open>while\<close> or \<open>return\<close> is not parsed as an assignment:
  the words are looked for anywhere.\<close>

lemma assignment_taken_for_conditional:
  assumes "cs_contains_outside_parens C ''if'' str" "cs_next_paren_group C str = None"
    and "\<not> cs_first_word_is C ''var'' str" "\<not> cs_first_word_is C ''remote'' str" "\<not> cs_char_outside_parens C CHR '','' str"
    and "\<not> cs_contains_outside_parens C ''return'' str" "\<not> cs_contains_outside_parens C ''while'' str"
  shows "parse_statement C n str p = None"
  using assms by (cases n) (simp_all add: parse_statement_step_def parse_if_def bind_eq_None_conv case_prod_unfold)

end
