(* ===== verification/ParseTree.thy ===== *)
theory ParseTree
  imports Parse
begin

text \<open>
  The grammar of \<open>Parse\<close> without a pool: the same choices and the same pieces, but the result is the tree.  It
  is the specification of what the parser leaves in its pool, and \<open>as_type\<close> reads back.
\<close>

section \<open>The grammar\<close>

type_synonym reader = "string \<Rightarrow> tree option"

definition tree_binop :: "cstring \<Rightarrow> reader \<Rightarrow> string \<Rightarrow> string \<Rightarrow> tree option" where
  "tree_binop C expression str cause = do {
     (l, r) \<leftarrow> cs_last_split C cause str; L \<leftarrow> expression l; R \<leftarrow> expression r; Some (T_BinOp (hd cause) L R) }"

definition tree_builtin_op :: "cstring \<Rightarrow> reader \<Rightarrow> string \<Rightarrow> string \<Rightarrow> tree option" where
  "tree_builtin_op C expression str specific_op = do {
     (l, r) \<leftarrow> cs_last_split_char C CHR ''.'' (cs_trim C str);
     op_args \<leftarrow> cs_copy_within_parens C r;
     h \<leftarrow> expression l;
     (if cs_prefix_equal C ''endorse'' specific_op then Some (T_Endorse (cs_trim C op_args) h)
      else if cs_prefix_equal C ''ensure'' specific_op then Some (T_Ensure (cs_trim C op_args) h)
      else if cs_prefix_equal C ''isValid'' specific_op then Some (T_IsValid h)
      else None) }"

text \<open>Blank arguments may only follow the others: the reader of the pool stops at the first one.\<close>

definition tree_args :: "cstring \<Rightarrow> reader \<Rightarrow> string \<Rightarrow> tree option" where
  "tree_args C expression str = do {
     pieces \<leftarrow> cs_split_outside_parens C 20 CHR '','' str;
     let args = takeWhile (\<lambda>s. s \<noteq> []) pieces;
     (if pieces = args @ replicate (20 - length args) [] \<and> length args \<le> 20
      then do { ts \<leftarrow> those (map expression args); Some (T_args_exprs ts) }
      else None) }"

definition tree_operation :: "cstring \<Rightarrow> reader \<Rightarrow> string \<Rightarrow> bool \<Rightarrow> tree option" where
  "tree_operation C expression str is_statement = do {
     (Struct, Call) \<leftarrow> cs_last_split_char C CHR ''.'' str;
     (off, argseq) \<leftarrow> cs_next_paren_group C Call;
     es \<leftarrow> tree_args C expression argseq;
     h \<leftarrow> expression Struct;
     Some (T_Operation is_statement (cs_pre_paren C Call) h es (T_args_varrefs [])) }"

definition tree_fieldref :: "cstring \<Rightarrow> reader \<Rightarrow> string \<Rightarrow> tree option" where
  "tree_fieldref C expression str = do {
     (l, r) \<leftarrow> cs_last_split_char C CHR ''.'' (cs_trim C str);
     s \<leftarrow> expression l;
     (if plain_name C r then Some (T_FieldReference s (cs_trim C r)) else None) }"

definition tree_fieldptrref :: "cstring \<Rightarrow> reader \<Rightarrow> string \<Rightarrow> tree option" where
  "tree_fieldptrref C expression str = do {
     (l, r) \<leftarrow> cs_last_split C ''->'' (cs_trim C str);
     s \<leftarrow> expression l;
     (if plain_name C r then Some (T_FieldPointerReference s (cs_trim C r)) else None) }"

definition tree_dotted :: "cstring \<Rightarrow> reader \<Rightarrow> string \<Rightarrow> tree option" where
  "tree_dotted C expression str = do {
     (l, r) \<leftarrow> cs_last_split C ''.'' str;
     let r = cs_trim C r;
     (if cs_contains_outside_parens C ''.'' r then None
      else if cs_contains_outside_parens C ''->'' r then tree_fieldptrref C expression str
      else if cs_contains_outside_parens C ''isValid('' r then tree_builtin_op C expression str ''isValid(''
      else if cs_contains_outside_parens C ''endorse('' r then tree_builtin_op C expression str ''endorse(''
      else if cs_contains_outside_parens C ''ensure('' r then tree_builtin_op C expression str ''ensure(''
      else if cs_contains_paren C r then tree_operation C expression str False
      else tree_fieldref C expression str) }"

definition tree_atom :: "cstring \<Rightarrow> string \<Rightarrow> tree option" where
  "tree_atom C atom =
     (if atom \<noteq> [] \<and> hd atom \<in> set ''0123456789'' then Some (T_Constant (cs_parse_int C atom))
      else if plain_name C (cs_str_cpy C (cs_trim C atom)) then Some (T_VarReference (cs_trim C atom)) else None)"

definition tree_expression_step :: "cstring \<Rightarrow> reader \<Rightarrow> string \<Rightarrow> tree option" where
  "tree_expression_step C expression text = (let str = cs_trim C text in
     if cs_streq C ''default list'' str then Some (T_VarReference (cs_trim C str))
     else case find_operator C str of
       Some op \<Rightarrow> tree_binop C expression str op
     | None \<Rightarrow>
     if cs_prefix_equal C ''*'' str then
       (if cs_contains_outside_parens C ''*'' str
        then do { s \<leftarrow> expression (tl (cs_trim C str)); Some (T_Dereference s) } else None)
     else if cs_contains_outside_parens C ''.'' str then tree_dotted C expression str
     else if cs_contains_outside_parens C ''->'' str then tree_fieldptrref C expression str
     else if str \<noteq> [] \<and> hd str = CHR ''('' \<and> last str = CHR '')'' then do {
       (off, s) \<leftarrow> cs_next_paren_group C str; expression s }
     else tree_atom C (cs_trim C str))"

fun tree_expression :: "cstring \<Rightarrow> nat \<Rightarrow> reader" where
  "tree_expression C 0 str = None"
| "tree_expression C (Suc n) str = tree_expression_step C (tree_expression C n) str"

definition tree_binding :: "cstring \<Rightarrow> reader \<Rightarrow> string \<Rightarrow> tree option" where
  "tree_binding C expression str = do {
     (l, r) \<leftarrow> cs_first_split C CHR ''='' str; rhs \<leftarrow> expression r; Some (T_Binding (cs_trim C l) rhs) }"

text \<open>A declaration, local or remote.\<close>

definition tree_let :: "cstring \<Rightarrow> (tree \<Rightarrow> tree \<Rightarrow> tree) \<Rightarrow> reader \<Rightarrow> reader \<Rightarrow> string \<Rightarrow> tree option" where
  "tree_let C T expression statement str = do {
     (l, r) \<leftarrow> cs_first_split C CHR '','' (cs_remove_first_word C str);
     b \<leftarrow> tree_binding C expression l;
     e \<leftarrow> statement r;
     Some (T b e) }"

definition tree_while :: "cstring \<Rightarrow> reader \<Rightarrow> reader \<Rightarrow> string \<Rightarrow> tree option" where
  "tree_while C expression statement str = do {
     (offset, condition) \<leftarrow> cs_next_paren_group C (cs_remove_first_word C str);
     body \<leftarrow> cs_copy_within_parens C (drop offset (cs_remove_first_word C str));
     c \<leftarrow> expression condition;
     b \<leftarrow> statement body;
     Some (T_While c b) }"

definition tree_if :: "cstring \<Rightarrow> reader \<Rightarrow> reader \<Rightarrow> string \<Rightarrow> tree option" where
  "tree_if C expression statement str = do {
     (if_offset, if_condition) \<leftarrow> cs_next_paren_group C str;
     (then_offset, then_body) \<leftarrow> cs_next_paren_group C (drop if_offset str);
     c \<leftarrow> expression if_condition;
     t \<leftarrow> statement then_body;
     (if cs_first_word_is C ''else'' (drop then_offset (drop if_offset str)) then do {
        (off, else_body) \<leftarrow> cs_next_paren_group C (drop then_offset (drop if_offset str));
        e \<leftarrow> statement else_body;
        Some (T_If c t e) }
      else Some (T_If c t T_Skip)) }"

definition tree_assignment :: "cstring \<Rightarrow> reader \<Rightarrow> string \<Rightarrow> tree option" where
  "tree_assignment C expression str = do {
     string_bufs \<leftarrow> cs_split_outside_parens C 2 CHR ''='' str;
     (case string_bufs of
        [l, r] \<Rightarrow> do { v \<leftarrow> expression l; e \<leftarrow> expression r; Some (T_Assignment v e) }
      | _ \<Rightarrow> None) }"

definition tree_sequence :: "cstring \<Rightarrow> reader \<Rightarrow> string \<Rightarrow> tree option" where
  "tree_sequence C statement str = do {
     (l, r) \<leftarrow> cs_first_split C CHR '','' str; e \<leftarrow> statement l; nxt \<leftarrow> statement r; Some (T_Sequence e nxt) }"

definition tree_statement_step :: "cstring \<Rightarrow> reader \<Rightarrow> reader \<Rightarrow> string \<Rightarrow> tree option" where
  "tree_statement_step C expression statement str = (
     if cs_first_word_is C ''var'' str then tree_let C T_Let expression statement str
     else if cs_first_word_is C ''remote'' str then tree_let C T_LetRemote expression statement str
     else if cs_char_outside_parens C CHR '','' str then tree_sequence C statement str
     else if cs_contains_outside_parens C ''return'' str
       then do { e \<leftarrow> expression (cs_remove_first_word C str); Some (T_Return e) }
     else if cs_contains_outside_parens C ''while'' str then tree_while C expression statement str
     else if cs_contains_outside_parens C ''if'' str then tree_if C expression statement str
     else if cs_contains_outside_parens C ''='' str then tree_assignment C expression str
     else if cs_first_word_is C ''{'' str then do { s \<leftarrow> cs_copy_within_parens C str; statement s }
     else if cs_contains_paren C str then tree_operation C expression str True
     else if cs_trim C str = [] then Some T_Skip
     else None)"

fun tree_statement :: "cstring \<Rightarrow> nat \<Rightarrow> reader" where
  "tree_statement C 0 str = None"
| "tree_statement C (Suc n) str = tree_statement_step C (tree_expression C n) (tree_statement C n) str"

section \<open>The pool holds the tree\<close>

definition implements :: "cstring \<Rightarrow> parser \<Rightarrow> reader \<Rightarrow> bool" where
  "implements C e te \<longleftrightarrow> (\<forall>s t. te s = Some t \<longrightarrow> delivers (cs_str_cpy C) (e s) t)"

lemma implementsD: "implements C e te \<Longrightarrow> te s = Some t \<Longrightarrow> delivers (cs_str_cpy C) (e s) t"
  by (simp add: implements_def)

lemma in_order_split:
  "in_order [a] p = do { (x, p) \<leftarrow> a p; Some ([x], p) }"
  "in_order [a, b] p = do { (x, p) \<leftarrow> a p; (y, p) \<leftarrow> b p; Some ([x, y], p) }"
  "in_order [a, b, c] p = do { (x, p) \<leftarrow> a p; (y, p) \<leftarrow> b p; (z, p) \<leftarrow> c p; Some ([x, y, z], p) }"
  by (simp_all add: case_prod_unfold bind_assoc)

lemmas in_order_simps = in_order_split case_prod_unfold bind_assoc

text \<open>A node without children, whose payload is the one that a new node has, needs no writing.\<close>

lemma delivers_leaf:
  assumes "union_mark False union_new k = node_elem False (mk_node cpy t [])" "children t = []"
  shows "delivers cpy (\<lambda>p. new_node False p k) t"
proof (rule deliversI)
  fix p assume p: "fresh_pool p" "nodes t \<le> free_count p"
  have n: "nodes t = 1" using assms(2) by (simp add: nodes.simps[of t])
  obtain r p1 where r: "new_node False p k = Some (r, p1)" "pool_ext p p1" "0 < r" "\<not> live p r" "live p1 r"
    "ref_get p1 r = Some (union_mark False union_new k)" "free_count p = Suc (free_count p1)"
    by (rule new_node_spec[OF p(1), of False k]) (use p(2) n in simp_all)
  have "represents cpy p1 (new_slots p p1) r t"
    by (rule represents_node[where rs = "[]"]) (use r assms in auto)
  with r n show "\<exists>r p'. new_node False p k = Some (r, p') \<and> built cpy p t r p'" by (auto simp: built_def)
qed

lemma delivers_skip: "delivers cpy skip_node T_Skip"
proof -
  have "delivers cpy (\<lambda>p. new_node False p 20) T_Skip" by (rule delivers_leaf) (simp_all, code_simp)
  then show ?thesis by (simp add: delivers_def skip_node_def)
qed

lemma delivers_no_varrefs: "delivers cpy (\<lambda>p. new_node False p 13) (T_args_varrefs [])"
  by (rule delivers_leaf) (simp_all, code_simp)

lemma delivers_cong: "delivers cpy m t \<Longrightarrow> (\<And>p. m' p = m p) \<Longrightarrow> delivers cpy m' t"
  by (simp add: delivers_def)

text \<open>Nodes with one, two and three children.\<close>

lemma delivers_one:
  assumes "delivers cpy m c" "children t = [c]"
    "\<And>p. f p = do { (elem, p) \<leftarrow> new_node False p (tag (mk_node cpy t [])); (r, p) \<leftarrow> m p; store_node p elem (mk_node cpy t [r]) }"
  shows "delivers cpy f t"
  by (rule delivers_node[where ms = "[m]" and cs = "[c]" and g = "\<lambda>rs. rs"]) (use assms in \<open>simp_all add: in_order_simps\<close>)

lemma delivers_two:
  assumes "delivers cpy m c" "delivers cpy m' c'" "children t = [c, c']"
    "\<And>p. f p = do { (elem, p) \<leftarrow> new_node False p (tag (mk_node cpy t [])); (r, p) \<leftarrow> m p; (r', p) \<leftarrow> m' p;
       store_node p elem (mk_node cpy t [r, r']) }"
  shows "delivers cpy f t"
  by (rule delivers_node[where ms = "[m, m']" and cs = "[c, c']" and g = "\<lambda>rs. rs"]) (use assms in \<open>simp_all add: in_order_simps\<close>)

lemma delivers_three:
  assumes "delivers cpy m c" "delivers cpy m' c'" "delivers cpy m'' c''" "children t = [c, c', c'']"
    "\<And>p. f p = do { (elem, p) \<leftarrow> new_node False p (tag (mk_node cpy t [])); (r, p) \<leftarrow> m p; (r', p) \<leftarrow> m' p; (r'', p) \<leftarrow> m'' p;
       store_node p elem (mk_node cpy t [r, r', r'']) }"
  shows "delivers cpy f t"
  by (rule delivers_node[where ms = "[m, m', m'']" and cs = "[c, c', c'']" and g = "\<lambda>rs. rs"]) (use assms in \<open>simp_all add: in_order_simps\<close>)

lemma delivers_none:
  assumes "children t = []"
    "\<And>p. f p = do { (elem, p) \<leftarrow> new_node False p (tag (mk_node cpy t [])); store_node p elem (mk_node cpy t []) }"
  shows "delivers cpy f t"
  by (rule delivers_node[where ms = "[]" and cs = "[]" and g = "\<lambda>rs. rs"]) (use assms in \<open>simp_all add: case_prod_unfold\<close>)

text \<open>Expressions.\<close>

lemma parse_binop_delivers:
  assumes "implements C e te" "tree_binop C te str op = Some t"
  shows "delivers (cs_str_cpy C) (parse_binop C e str op) t"
proof -
  obtain l r L R where s: "cs_last_split C op str = Some (l, r)" and LR: "te l = Some L" "te r = Some R"
    and t: "t = T_BinOp (hd op) L R" using assms(2) by (auto simp: tree_binop_def bind_Some_iff)
  show ?thesis
    by (rule delivers_two[OF LR[THEN implementsD[OF assms(1)]]]) (simp_all add: t s parse_binop_def)
qed

lemma parse_builtin_op_delivers:
  assumes "implements C e te" "tree_builtin_op C te str op = Some t"
  shows "delivers (cs_str_cpy C) (parse_builtin_op C e str op) t"
proof -
  obtain l r a h where s: "cs_last_split_char C CHR ''.'' (cs_trim C str) = Some (l, r)" "cs_copy_within_parens C r = Some a"
    and h: "te l = Some h" using assms(2) by (auto simp: tree_builtin_op_def bind_Some_iff)
  show ?thesis
    by (rule delivers_one[OF implementsD[OF assms(1) h]])
      (use assms(2) in \<open>auto simp: tree_builtin_op_def parse_builtin_op_def s h split: if_splits\<close>)
qed

lemma in_order_length: "in_order ms p = Some (rs, p') \<Longrightarrow> length rs = length ms"
  by (induction ms arbitrary: p rs) (auto simp: bind_Some_iff)

lemma parse_arg_list_in_order:
  "\<forall>s \<in> set ss. s \<noteq> [] \<Longrightarrow> parse_arg_list e (ss @ replicate k []) p =
     do { (rs, p) \<leftarrow> in_order (map e ss) p; Some (rs @ replicate k 0, p) }"
proof (induction ss arbitrary: p)
  case Nil
  have "parse_arg_list e (replicate k []) p = Some (replicate k 0, p)" for p by (induction k) simp_all
  then show ?case by simp
qed (simp add: case_prod_unfold bind_assoc)

lemma tree_args_pieces:
  assumes "tree_args C te str = Some t"
  obtains ss ts where "cs_split_outside_parens C 20 CHR '','' str = Some (ss @ replicate (20 - length ss) [])"
    "length ss \<le> 20" "\<forall>s \<in> set ss. s \<noteq> []" "list_all2 (\<lambda>s t. te s = Some t) ss ts" "t = T_args_exprs ts"
proof -
  obtain ps where ps: "cs_split_outside_parens C 20 CHR '','' str = Some ps"
    using assms by (auto simp: tree_args_def bind_Some_iff)
  define ss where "ss = takeWhile (\<lambda>s. s \<noteq> []) ps"
  have r: "(if ps = ss @ replicate (20 - length ss) [] \<and> length ss \<le> 20
      then do { ts \<leftarrow> those (map te ss); Some (T_args_exprs ts) } else None) = Some t"
    using assms by (simp only: tree_args_def Let_def ps bind.simps ss_def)
  have ss: "ps = ss @ replicate (20 - length ss) []" "length ss \<le> 20"
    by (rule ccontr, use r in \<open>simp only: if_False simp_thms option.distinct\<close>)+
  obtain ts where ts: "those (map te ss) = Some ts" and t: "t = T_args_exprs ts"
    using r by (simp only: ss(1)[symmetric] ss(2) simp_thms if_True) (auto simp: bind_Some_iff)
  have "\<forall>s \<in> set ss. s \<noteq> []" unfolding ss_def using set_takeWhileD by fast
  with that[of ss ts] ps ss ts t show thesis using those_map_list_all2[OF ts] by simp
qed

lemma tree_args_parts:
  assumes "tree_args C te str = Some t"
  shows "\<exists>ts. t = T_args_exprs ts \<and> length ts \<le> 20 \<and> (\<forall>u \<in> set ts. \<exists>s. te s = Some u)"
proof -
  from tree_args_pieces[OF assms] obtain ss ts where "length ss \<le> 20"
    and all: "list_all2 (\<lambda>s t. te s = Some t) ss ts" and t: "t = T_args_exprs ts" .
  moreover have "\<forall>u \<in> set ts. \<exists>s. te s = Some u" using all by (induction rule: list_all2_induct) auto
  ultimately show ?thesis using list_all2_lengthD[OF all] by auto
qed

lemma parse_args_delivers:
  assumes "implements C e te" "tree_args C te str = Some t"
  shows "delivers (cs_str_cpy C) (parse_args C e str) t"
proof -
  from tree_args_pieces[OF assms(2)] obtain ss ts where
    ps: "cs_split_outside_parens C 20 CHR '','' str = Some (ss @ replicate (20 - length ss) [])"
    and ne: "\<forall>s \<in> set ss. s \<noteq> []" and all: "list_all2 (\<lambda>s t. te s = Some t) ss ts" and t: "t = T_args_exprs ts" .
  have "list_all2 (delivers (cs_str_cpy C)) (map e ss) ts"
    using all by (auto simp: list.rel_map(1) elim: list.rel_mono_strong intro: implementsD[OF assms(1)])
  then show ?thesis
  proof (rule delivers_node[where g = "\<lambda>rs. rs"])
    show "parse_args C e str p = do {
        (elem, p) \<leftarrow> new_node False p (tag (mk_node (cs_str_cpy C) t []));
        (rs, p) \<leftarrow> in_order (map e ss) p;
        store_node p elem (mk_node (cs_str_cpy C) t rs) }" for p
    proof -
      have "Option.bind (in_order (map e ss) q) (\<lambda>(rs, p). store_node p r (N_args_exprs (rs @ replicate (20 - length ss) 0))) =
          Option.bind (in_order (map e ss) q) (\<lambda>(rs, p). store_node p r (N_args_exprs (rs @ replicate (20 - length rs) 0)))"
        for q r by (cases "in_order (map e ss) q") (auto dest: in_order_length)
      then show ?thesis
        by (simp add: parse_args_def ps t parse_arg_list_in_order[OF ne] case_prod_unfold bind_assoc)
    qed
  qed (simp_all add: t)
qed

lemma parse_operation_delivers:
  assumes "implements C e te" "tree_operation C te str st = Some t"
  shows "delivers (cs_str_cpy C) (parse_operation C e str st) t"
proof -
  obtain a b off g es h where s: "cs_last_split_char C CHR ''.'' str = Some (a, b)" "cs_next_paren_group C b = Some (off, g)"
    and es: "tree_args C te g = Some es" and h: "te a = Some h"
    and t: "t = T_Operation st (cs_pre_paren C b) h es (T_args_varrefs [])"
    using assms(2) by (auto simp: tree_operation_def bind_Some_iff)
  let ?cpy = "cs_str_cpy C"
  have "list_all2 (delivers ?cpy) [\<lambda>p. new_node False p 13, parse_args C e g, e a] [T_args_varrefs [], es, h]"
    using parse_args_delivers[OF assms(1) es] implementsD[OF assms(1) h] delivers_no_varrefs by simp
  then show ?thesis
  proof (rule delivers_node[where g = rev and init = False])
    show "set [T_args_varrefs [], es, h] = set (children t)" by (auto simp: t)
  next
    fix R and rs :: "nat list" assume "list_all2 R rs [T_args_varrefs [], es, h]"
    then have "list_all2 R (rev rs) (rev [T_args_varrefs [], es, h])" by (simp only: list_all2_rev)
    then show "list_all2 R (rev rs) (children t)" by (simp add: t)
  qed (simp_all add: t s parse_operation_def in_order_simps)
qed

lemma parse_fieldref_delivers:
  assumes "implements C e te" "tree_fieldref C te str = Some t"
  shows "delivers (cs_str_cpy C) (parse_fieldref C e str) t"
proof -
  obtain l r s where s: "cs_last_split_char C CHR ''.'' (cs_trim C str) = Some (l, r)" and h: "te l = Some s"
    and t: "t = T_FieldReference s (cs_trim C r)" "plain_name C r"
    using assms(2) by (auto simp: tree_fieldref_def bind_Some_iff split: if_splits)
  show ?thesis by (rule delivers_one[OF implementsD[OF assms(1) h]]) (simp_all add: t s parse_fieldref_def)
qed

lemma parse_fieldptrref_delivers:
  assumes "implements C e te" "tree_fieldptrref C te str = Some t"
  shows "delivers (cs_str_cpy C) (parse_fieldptrref C e str) t"
proof -
  obtain l r s where s: "cs_last_split C ''->'' (cs_trim C str) = Some (l, r)" and h: "te l = Some s"
    and t: "t = T_FieldPointerReference s (cs_trim C r)" "plain_name C r"
    using assms(2) by (auto simp: tree_fieldptrref_def bind_Some_iff split: if_splits)
  show ?thesis by (rule delivers_one[OF implementsD[OF assms(1) h]]) (simp_all add: t s parse_fieldptrref_def)
qed

lemma parse_dotted_delivers:
  assumes "implements C e te" "tree_dotted C te str = Some t"
  shows "delivers (cs_str_cpy C) (parse_dotted C e str) t"
proof -
  obtain l r where s: "cs_last_split C ''.'' str = Some (l, r)"
    using assms(2) by (auto simp: tree_dotted_def bind_Some_iff)
  note parts = parse_fieldptrref_delivers[OF assms(1)] parse_builtin_op_delivers[OF assms(1)]
    parse_operation_delivers[OF assms(1)] parse_fieldref_delivers[OF assms(1)]
  show ?thesis
    using assms(2) parts unfolding delivers_def parse_dotted_def tree_dotted_def
    by (simp add: s Let_def split: if_splits)
qed

lemma tree_atom_delivers:
  assumes "tree_atom C s = Some t"
  shows "delivers (cs_str_cpy C)
    (\<lambda>p. if s \<noteq> [] \<and> hd s \<in> set ''0123456789'' then parse_constant C s p else parse_varref C s p) t"
  by (rule delivers_none)
    (use assms in \<open>auto simp: tree_atom_def parse_constant_def parse_varref_def case_prod_unfold split: if_splits\<close>)

lemma parse_expression_step_delivers:
  assumes "implements C e te" "tree_expression_step C te text = Some t"
  shows "delivers (cs_str_cpy C) (parse_expression_step C e text) t"
proof -
  define str where str: "str = cs_trim C text"
  note def = tree_expression_step_def parse_expression_step_def Let_def str[symmetric]
  note d = assms(2)[unfolded def]
  show ?thesis
  proof (cases "cs_streq C ''default list'' str")
    case True
    then have "t = T_VarReference (cs_trim C str)" using d by simp
    with True show ?thesis by (intro delivers_none) (simp_all add: def)
  next
    case streq: False
    show ?thesis
    proof (cases "find_operator C str")
      case (Some op)
      with d streq have "tree_binop C te str op = Some t" by simp
      from parse_binop_delivers[OF assms(1) this] show ?thesis by (rule delivers_cong) (simp add: def Some streq)
    next
      case op: None
      note d' = d[unfolded op option.case if_not_P[OF streq]]
      have deref: "delivers (cs_str_cpy C) (parse_deref C e str) t"
        if "Option.bind (te (tl (cs_trim C str))) (\<lambda>s. Some (T_Dereference s)) = Some t"
      proof -
        from that obtain s where s: "te (tl (cs_trim C str)) = Some s" "t = T_Dereference s" by (auto simp: bind_Some_iff)
        show ?thesis by (rule delivers_one[OF implementsD[OF assms(1) s(1)]]) (simp_all add: s(2) parse_deref_def)
      qed
      have group: "delivers (cs_str_cpy C) (\<lambda>p. Option.bind (cs_next_paren_group C str) (\<lambda>(off, s). e s p)) t"
        if "Option.bind (cs_next_paren_group C str) (\<lambda>(off, s). te s) = Some t"
      proof -
        from that obtain off s where s: "cs_next_paren_group C str = Some (off, s)" "te s = Some t"
          by (auto simp: bind_Some_iff)
        show ?thesis by (rule delivers_cong[OF implementsD[OF assms(1) s(2)]]) (simp add: s(1))
      qed
      note parts = parse_dotted_delivers[OF assms(1)] parse_fieldptrref_delivers[OF assms(1)] deref group tree_atom_delivers
      have "delivers (cs_str_cpy C) (\<lambda>p.
        if cs_prefix_equal C ''*'' str then
          (if cs_contains_outside_parens C ''*'' str then parse_deref C e str p else None)
        else if cs_contains_outside_parens C ''.'' str then parse_dotted C e str p
        else if cs_contains_outside_parens C ''->'' str then parse_fieldptrref C e str p
        else if str \<noteq> [] \<and> hd str = CHR ''('' \<and> last str = CHR '')''
          then Option.bind (cs_next_paren_group C str) (\<lambda>(off, s). e s p)
        else if cs_trim C str \<noteq> [] \<and> hd (cs_trim C str) \<in> set ''0123456789'' then parse_constant C (cs_trim C str) p
        else parse_varref C (cs_trim C str) p) t"
        using d' by (cases "cs_prefix_equal C ''*'' str"; cases "cs_contains_outside_parens C ''.'' str";
            cases "cs_contains_outside_parens C ''->'' str";
            cases "str \<noteq> [] \<and> hd str = CHR ''('' \<and> last str = CHR '')''")
          (simp_all only: simp_thms if_True if_False parts split: if_splits, simp_all add: parts split: if_splits)
      then show ?thesis by (rule delivers_cong) (simp only: def streq op option.case if_False)
    qed
  qed
qed

lemma parse_expression_implements: "implements C (parse_expression C n) (tree_expression C n)"
proof (induction n)
  case (Suc n)
  have "parse_expression C (Suc n) s = parse_expression_step C (parse_expression C n) s" for s by (rule ext) simp
  then show ?case using parse_expression_step_delivers[OF Suc] by (simp add: implements_def)
qed (simp add: implements_def)

text \<open>Statements.\<close>

lemma parse_binding_delivers:
  assumes "implements C e te" "tree_binding C te str = Some t"
  shows "delivers (cs_str_cpy C) (parse_binding C e str) t"
proof -
  obtain l r x where s: "cs_first_split C CHR ''='' str = Some (l, r)" and x: "te r = Some x"
    and t: "t = T_Binding (cs_trim C l) x" using assms(2) by (auto simp: tree_binding_def bind_Some_iff)
  show ?thesis by (rule delivers_one[OF implementsD[OF assms(1) x]]) (simp_all add: t s parse_binding_def)
qed

lemma tree_let_parts:
  assumes "implements C e te" "implements C st ts" "tree_let C T te ts str = Some t"
  obtains l r b x where "cs_first_split C CHR '','' (cs_remove_first_word C str) = Some (l, r)"
    "delivers (cs_str_cpy C) (parse_binding C e l) b" "delivers (cs_str_cpy C) (st r) x" "t = T b x"
proof -
  obtain l r b x where "cs_first_split C CHR '','' (cs_remove_first_word C str) = Some (l, r)"
    "tree_binding C te l = Some b" "ts r = Some x" "t = T b x" using assms(3) by (auto simp: tree_let_def bind_Some_iff)
  then show thesis using parse_binding_delivers[OF assms(1)] implementsD[OF assms(2)] that by blast
qed

lemma parse_var_delivers:
  assumes "implements C e te" "implements C st ts" "tree_let C T_Let te ts str = Some t"
  shows "delivers (cs_str_cpy C) (parse_var C e st str) t"
proof -
  from tree_let_parts[OF assms] obtain l r b x where s: "cs_first_split C CHR '','' (cs_remove_first_word C str) = Some (l, r)"
    and b: "delivers (cs_str_cpy C) (parse_binding C e l) b" "delivers (cs_str_cpy C) (st r) x" and t: "t = T_Let b x" .
  show ?thesis by (rule delivers_two[OF b]) (simp_all add: t s parse_var_def)
qed

lemma parse_remote_delivers:
  assumes "implements C e te" "implements C st ts" "tree_let C T_LetRemote te ts str = Some t"
  shows "delivers (cs_str_cpy C) (parse_remote C e st str) t"
proof -
  from tree_let_parts[OF assms] obtain l r b x where s: "cs_first_split C CHR '','' (cs_remove_first_word C str) = Some (l, r)"
    and b: "delivers (cs_str_cpy C) (parse_binding C e l) b" "delivers (cs_str_cpy C) (st r) x" and t: "t = T_LetRemote b x" .
  show ?thesis by (rule delivers_two[OF b]) (simp_all add: t s parse_remote_def)
qed

lemma parse_return_delivers:
  assumes "implements C e te" "te (cs_remove_first_word C str) = Some x"
  shows "delivers (cs_str_cpy C) (parse_return C e str) (T_Return x)"
  by (rule delivers_one[OF implementsD[OF assms]]) (simp_all add: parse_return_def)

lemma parse_while_delivers:
  assumes "implements C e te" "implements C st ts" "tree_while C te ts str = Some t"
  shows "delivers (cs_str_cpy C) (parse_while C e st str) t"
proof -
  let ?w = "cs_remove_first_word C str"
  obtain off c b x y where s: "cs_next_paren_group C ?w = Some (off, c)" "cs_copy_within_parens C (drop off ?w) = Some b"
    and x: "te c = Some x" and y: "ts b = Some y" and t: "t = T_While x y"
    using assms(3) by (auto simp: tree_while_def bind_Some_iff)
  show ?thesis
    by (rule delivers_two[OF implementsD[OF assms(1) x] implementsD[OF assms(2) y]]) (simp_all add: t s parse_while_def Let_def)
qed

lemma parse_if_delivers:
  assumes "implements C e te" "implements C st ts" "tree_if C te ts str = Some t"
  shows "delivers (cs_str_cpy C) (parse_if C e st str) t"
proof -
  obtain off c off2 b x y where s: "cs_next_paren_group C str = Some (off, c)" "cs_next_paren_group C (drop off str) = Some (off2, b)"
    and x: "te c = Some x" and y: "ts b = Some y"
    using assms(3) by (auto simp: tree_if_def bind_Some_iff)
  note xy = implementsD[OF assms(1) x] implementsD[OF assms(2) y]
  let ?post = "drop off2 (drop off str)"
  show ?thesis
  proof (cases "cs_first_word_is C ''else'' ?post")
    case True
    then obtain off3 d z where d: "cs_next_paren_group C ?post = Some (off3, d)" and z: "ts d = Some z" and t: "t = T_If x y z"
      using assms(3) s x y by (auto simp: tree_if_def bind_Some_iff)
    show ?thesis
      by (rule delivers_three[OF xy implementsD[OF assms(2) z]]) (use True d in \<open>simp_all add: t s parse_if_def Let_def\<close>)
  next
    case False
    then have t: "t = T_If x y T_Skip" using assms(3) s x y by (simp add: tree_if_def)
    show ?thesis
      by (rule delivers_three[OF xy delivers_skip]) (use False in \<open>simp_all add: t s parse_if_def Let_def\<close>)
  qed
qed

lemma tree_assignment_parts:
  assumes "tree_assignment C te str = Some t"
  obtains l r x y where "cs_split_outside_parens C 2 CHR ''='' str = Some [l, r]" "te l = Some x" "te r = Some y"
    "t = T_Assignment x y"
proof -
  obtain ps where ps: "cs_split_outside_parens C 2 CHR ''='' str = Some ps"
    using assms by (auto simp: tree_assignment_def bind_Some_iff)
  obtain l r where lr: "ps = [l, r]" using assms ps by (auto simp: tree_assignment_def split: list.splits)
  obtain x y where "te l = Some x" "te r = Some y" "t = T_Assignment x y"
    using assms ps lr by (auto simp: tree_assignment_def bind_Some_iff)
  with ps lr show thesis using that by blast
qed

lemma parse_assignment_delivers:
  assumes "implements C e te" "tree_assignment C te str = Some t"
  shows "delivers (cs_str_cpy C) (parse_assignment C e str) t"
proof -
  from tree_assignment_parts[OF assms(2)] obtain l r x y where ps: "cs_split_outside_parens C 2 CHR ''='' str = Some [l, r]"
    and xy: "te l = Some x" "te r = Some y" and t: "t = T_Assignment x y" .
  show ?thesis by (rule delivers_two[OF xy[THEN implementsD[OF assms(1)]]]) (simp_all add: t ps parse_assignment_def)
qed

lemma parse_sequence_delivers:
  assumes "implements C st ts" "tree_sequence C ts str = Some t"
  shows "delivers (cs_str_cpy C) (parse_sequence C st str) t"
proof -
  obtain l r x y where s: "cs_first_split C CHR '','' str = Some (l, r)" and xy: "ts l = Some x" "ts r = Some y"
    and t: "t = T_Sequence x y" using assms(2) by (auto simp: tree_sequence_def bind_Some_iff)
  show ?thesis by (rule delivers_two[OF xy[THEN implementsD[OF assms(1)]]]) (simp_all add: t s parse_sequence_def)
qed

lemma parse_statement_step_delivers:
  assumes "implements C e te" "implements C st ts" "tree_statement_step C te ts str = Some t"
  shows "delivers (cs_str_cpy C) (parse_statement_step C e st str) t"
proof -
  have block: "delivers (cs_str_cpy C) (\<lambda>p. Option.bind (cs_copy_within_parens C str) (\<lambda>s. st s p)) t"
    if "Option.bind (cs_copy_within_parens C str) ts = Some t"
  proof -
    from that obtain s where s: "cs_copy_within_parens C str = Some s" "ts s = Some t" by (auto simp: bind_Some_iff)
    show ?thesis by (rule delivers_cong[OF implementsD[OF assms(2) s(2)]]) (simp add: s(1))
  qed
  have ret: "delivers (cs_str_cpy C) (parse_return C e str) t"
    if "Option.bind (te (cs_remove_first_word C str)) (\<lambda>e. Some (T_Return e)) = Some t"
    using that parse_return_delivers[OF assms(1)] by (auto simp: bind_Some_iff)
  note parts = parse_var_delivers[OF assms(1,2)] parse_remote_delivers[OF assms(1,2)] parse_sequence_delivers[OF assms(2)]
    ret parse_while_delivers[OF assms(1,2)] parse_if_delivers[OF assms(1,2)] parse_assignment_delivers[OF assms(1)]
    block parse_operation_delivers[OF assms(1)] delivers_skip[of "cs_str_cpy C"]
  show ?thesis
    using assms(3) parts unfolding delivers_def parse_statement_step_def tree_statement_step_def
    by (simp split: if_splits)
qed

lemma parse_statement_implements: "implements C (parse_statement C n) (tree_statement C n)"
proof (induction n)
  case (Suc n)
  have "parse_statement C (Suc n) s = parse_statement_step C (parse_expression C n) (parse_statement C n) s" for s
    by (rule ext) simp
  then show ?case using parse_statement_step_delivers[OF parse_expression_implements Suc] by (simp add: implements_def)
qed (simp add: implements_def)

section \<open>Reading the pool back\<close>

text \<open>The trees of the grammar are types: what stands for an expression is one.\<close>

definition reads_expressions :: "reader \<Rightarrow> bool" where
  "reads_expressions e \<longleftrightarrow> (\<forall>s t. e s = Some t \<longrightarrow> is_Expression t \<and> tree_wf t)"

lemma reads_expressionsD: "reads_expressions e \<Longrightarrow> e s = Some t \<Longrightarrow> is_Expression t \<and> tree_wf t"
  by (simp add: reads_expressions_def)

lemma tree_wf_nodes:
  "tree_wf (T_BinOp c t u) = (tree_wf t \<and> tree_wf u)" "tree_wf (T_FieldReference t f) = tree_wf t"
  "tree_wf (T_FieldPointerReference t f) = tree_wf t" "tree_wf (T_Dereference t) = tree_wf t"
  "tree_wf (T_Endorse f t) = tree_wf t" "tree_wf (T_Ensure f t) = tree_wf t" "tree_wf (T_IsValid t) = tree_wf t"
  "tree_wf (T_VarReference f)" "tree_wf (T_Constant i)" "tree_wf (T_Let t u) = (tree_wf t \<and> tree_wf u)"
  "tree_wf (T_LetRemote t u) = (tree_wf t \<and> tree_wf u)" "tree_wf (T_Assignment t u) = (tree_wf t \<and> tree_wf u)"
  "tree_wf (T_Return t) = tree_wf t" "tree_wf (T_If t u v) = (tree_wf t \<and> tree_wf u \<and> tree_wf v)"
  "tree_wf (T_While t u) = (tree_wf t \<and> tree_wf u)" "tree_wf (T_Sequence t u) = (tree_wf t \<and> tree_wf u)"
  "tree_wf T_Skip" "tree_wf (T_Binding f t) = (is_Expression t \<and> tree_wf t)"
  by (subst tree_wf_alt, simp)+

lemma tree_operation_wf:
  assumes "reads_expressions e" "tree_operation C e str st = Some t"
  shows "tree_wf t \<and> is_Expression t = (\<not> st)"
proof -
  have args: "tree_wf u" if u: "tree_args C e g = Some u" for g u
  proof -
    obtain ts where ts: "u = T_args_exprs ts" "length ts \<le> 20" "\<forall>x \<in> set ts. \<exists>s. e s = Some x"
      using tree_args_parts[OF u] by blast
    then show ?thesis using reads_expressionsD[OF assms(1)] by (auto simp: tree_wf.simps[of "T_args_exprs ts"])
  qed
  obtain a h es g b where h: "e a = Some h" and es: "tree_args C e g = Some es"
    and t: "t = T_Operation st (cs_pre_paren C b) h es (T_args_varrefs [])"
    using assms(2) by (auto simp: tree_operation_def bind_Some_iff)
  have "tree_wf (T_args_varrefs [])" by (subst tree_wf_alt) simp
  with args[OF es] reads_expressionsD[OF assms(1) h] show ?thesis
    unfolding t by (subst tree_wf_alt) simp
qed

lemma tree_dotted_wf:
  assumes "reads_expressions e" "tree_dotted C e str = Some t"
  shows "is_Expression t \<and> tree_wf t"
proof -
  have field: "is_Expression t \<and> tree_wf t" if "tree_fieldref C e str = Some t"
    using that reads_expressionsD[OF assms(1)] by (auto simp: tree_fieldref_def bind_Some_iff tree_wf_nodes split: if_splits)
  have ptr: "is_Expression t \<and> tree_wf t" if "tree_fieldptrref C e str = Some t"
    using that reads_expressionsD[OF assms(1)] by (auto simp: tree_fieldptrref_def bind_Some_iff tree_wf_nodes split: if_splits)
  have builtin: "is_Expression t \<and> tree_wf t" if "tree_builtin_op C e str op = Some t" for op
    using that reads_expressionsD[OF assms(1)] by (auto simp: tree_builtin_op_def bind_Some_iff tree_wf_nodes split: if_splits)
  obtain l r where s: "cs_last_split C ''.'' str = Some (l, r)"
    using assms(2) by (auto simp: tree_dotted_def bind_Some_iff)
  show ?thesis
    using assms(2) field ptr builtin tree_operation_wf[OF assms(1), of C str False t]
    by (simp add: tree_dotted_def s Let_def split: if_splits)
qed

lemma tree_expression_reads: "reads_expressions (tree_expression C n)"
proof (induction n)
  case (Suc n)
  note e = reads_expressionsD[OF Suc]
  have "is_Expression t \<and> tree_wf t" if "tree_expression_step C (tree_expression C n) s = Some t" for s t
  proof -
    define str where "str = cs_trim C s"
    note d = that[unfolded tree_expression_step_def Let_def str_def[symmetric]]
    have binop: "is_Expression t \<and> tree_wf t" if "tree_binop C (tree_expression C n) str op = Some t" for op
      using that e by (auto simp: tree_binop_def bind_Some_iff tree_wf_nodes)
    have deref: "is_Expression t \<and> tree_wf t"
      if "Option.bind (tree_expression C n (tl (cs_trim C str))) (\<lambda>s. Some (T_Dereference s)) = Some t"
      using that e by (auto simp: bind_Some_iff tree_wf_nodes)
    have ptr: "is_Expression t \<and> tree_wf t" if "tree_fieldptrref C (tree_expression C n) str = Some t"
      using that e by (auto simp: tree_fieldptrref_def bind_Some_iff tree_wf_nodes split: if_splits)
    have group: "is_Expression t \<and> tree_wf t"
      if "Option.bind (cs_next_paren_group C str) (\<lambda>(off, s). tree_expression C n s) = Some t"
      using that e by (auto simp: bind_Some_iff)
    have atom: "is_Expression t \<and> tree_wf t" if "tree_atom C x = Some t" for x
      using that by (auto simp: tree_atom_def tree_wf_nodes split: if_splits)
    show ?thesis using d binop deref ptr group atom tree_dotted_wf[OF Suc]
      by (simp split: if_splits option.splits) (auto simp: tree_wf_nodes)
  qed
  then show ?case by (simp add: reads_expressions_def)
qed (simp add: reads_expressions_def)

lemma tree_statement_wf: "tree_statement C n s = Some t \<Longrightarrow> tree_wf t"
proof (induction n arbitrary: s t)
  case (Suc n)
  let ?e = "tree_expression C n" and ?s = "tree_statement C n"
  note e = reads_expressionsD[OF tree_expression_reads]
  have binding: "tree_binding C ?e l = Some b \<Longrightarrow> tree_wf b" for l b
    using e by (auto simp: tree_binding_def bind_Some_iff tree_wf_nodes)
  have lets: "tree_let C T_Let ?e ?s s = Some t \<Longrightarrow> tree_wf t" "tree_let C T_LetRemote ?e ?s s = Some t \<Longrightarrow> tree_wf t"
    using binding Suc.IH by (auto simp: tree_let_def bind_Some_iff tree_wf_nodes)
  have seq: "tree_sequence C ?s s = Some t \<Longrightarrow> tree_wf t"
    using Suc.IH by (auto simp: tree_sequence_def bind_Some_iff tree_wf_nodes)
  have ret: "Option.bind (?e (cs_remove_first_word C s)) (\<lambda>e. Some (T_Return e)) = Some t \<Longrightarrow> tree_wf t"
    using e by (auto simp: bind_Some_iff tree_wf_nodes)
  have while: "tree_while C ?e ?s s = Some t \<Longrightarrow> tree_wf t"
    using e Suc.IH by (auto simp: tree_while_def bind_Some_iff tree_wf_nodes)
  have skip: "tree_wf T_Skip" by (simp add: tree_wf_nodes)
  have cond: "tree_if C ?e ?s s = Some t \<Longrightarrow> tree_wf t"
    using e Suc.IH skip by (auto simp: tree_if_def bind_Some_iff tree_wf_nodes split: if_splits)
  have assign: "tree_wf t" if a: "tree_assignment C ?e s = Some t"
  proof -
    from tree_assignment_parts[OF a] obtain l r x y where "cs_split_outside_parens C 2 CHR ''='' s = Some [l, r]"
      "?e l = Some x" "?e r = Some y" "t = T_Assignment x y" .
    moreover from this(2,3) have "tree_wf x" "tree_wf y" by (blast dest: e)+
    ultimately show ?thesis by (simp add: tree_wf_nodes)
  qed
  have block: "Option.bind (cs_copy_within_parens C s) ?s = Some t \<Longrightarrow> tree_wf t"
    using Suc.IH by (auto simp: bind_Some_iff)
  show ?case
    using Suc.prems lets seq ret while cond assign block skip tree_operation_wf[OF tree_expression_reads[of C n], of C s True t]
    by (simp add: tree_statement_step_def split: if_splits)
qed simp

lemma tree_height_nodes: "tree_height t \<le> nodes t"
proof (induction t rule: tree_induct_children)
  case (node t)
  have "fold max (map tree_height (children t)) 0 \<le> sum_list (map nodes (children t))"
    unfolding fold_max_le
  proof (intro conjI ballI)
    fix x assume "x \<in> set (map tree_height (children t))"
    then obtain c where c: "c \<in> set (children t)" "x = tree_height c" by auto
    have "nodes c \<le> sum_list (map nodes (children t))" by (rule member_le_sum_list) (use c(1) in simp_all)
    with node.IH[OF c(1)] c(2) show "x \<le> sum_list (map nodes (children t))" by simp
  qed simp
  then show ?case by (simp add: tree_height.simps[of t] nodes.simps[of t])
qed


text \<open>A string survives being stored: it fits into its field, and \<open>trim_ends\<close> finds it there.\<close>

definition survives :: "(string \<Rightarrow> string) \<Rightarrow> (string \<Rightarrow> string) \<Rightarrow> string \<Rightarrow> bool" where
  "survives cpy trim_ends s \<longleftrightarrow> length (cpy s) \<le> 20 \<and> trim_ends (cpy s) = s"

lemma parsed_text_reads_back:
  assumes "\<not> cs_contains C CHR '';'' str" "tree_statement C (parse_fuel str) str = Some t" "nodes t \<le> 400"
    and "\<forall>s \<in> set (tree_strings t). survives (cs_str_cpy C) trim_ends s"
  shows "Option.bind (parse C str) (as_type_top trim_ends) = Some (T_transaction t 0)"
proof -
  let ?p = "pool_new 400 union_new :: ast_pool"
  have p: "fresh_pool ?p" "nodes t \<le> free_count ?p"
    using fresh_pool_new[of 399] assms(3) by (simp_all add: pool_new_free_count)
  have fit: "strings_fit (cs_str_cpy C) t" using assms(4) by (simp add: strings_fit_def survives_def)
  obtain r q where r: "parse_statement C (parse_fuel str) str ?p = Some (r, q)" "built (cs_str_cpy C) ?p t r q"
    by (rule deliversE[OF implementsD[OF parse_statement_implements assms(2)] fit p])
  have "as_type trim_ends 1000 q r = Some t"
  proof (rule as_type_represents)
    show "represents (cs_str_cpy C) q (new_slots ?p q) r t" using r(2) by (simp add: built_def)
    show "tree_height t \<le> 1000" using tree_height_nodes[of t] assms(3) by simp
  qed (use assms(4) tree_statement_wf[OF assms(2)] in \<open>auto simp: survives_def\<close>)
  then show ?thesis using assms(1) r(1) by (simp add: parse_def as_type_top_def)
qed

text \<open>C6: what the constructor of \<open>parse\<close> leaves in its pool of 400 nodes is, for \<open>as_type\<close>, the tree
  of the grammar, for every text that the grammar accepts and whose tree has at most 400 nodes; whatever
  the functions on strings do, provided that the strings of the tree survive being stored.\<close>

theorem parse_leaves_tree:
  assumes "\<not> cs_contains C CHR '';'' str" "tree_statement C (parse_fuel str) str = Some t" "nodes t \<le> 400"
    and "\<forall>s \<in> set (tree_strings t). survives (cs_str_cpy C) trim_ends s"
  shows "\<exists>a. parse C str = Some a \<and> as_type_top trim_ends a = Some (T_transaction t 0)"
  using parsed_text_reads_back[OF assms] by (simp add: bind_eq_Some_conv)

end
