(* ===== verification/ParseExamples.thy ===== *)
theory ParseExamples
  imports ParseCorrect ParseTree
begin

text \<open>
  Functions on strings that have the laws which \<open>ParseCorrect\<close> names, and texts that are parsed with them.  They
  are one way to meet the laws, and stand for no particular version of \<open>mutils\<close>.
\<close>

section \<open>Functions on strings\<close>

definition paren_depth :: "char \<Rightarrow> int" where
  "paren_depth c = (if c = CHR ''('' \<or> c = CHR ''{'' then 1 else if c = CHR '')'' \<or> c = CHR ''}'' then - 1 else 0)"

definition depth :: "string \<Rightarrow> int" where
  "depth s = sum_list (map paren_depth s)"

text \<open>The first and the last place outside of parentheses where \<open>w\<close> stands.\<close>

fun split_first_at :: "int \<Rightarrow> string \<Rightarrow> string \<Rightarrow> (string \<times> string) option" where
  "split_first_at d w [] = None"
| "split_first_at d w (c # s) =
     (if d = 0 \<and> take (length w) (c # s) = w then Some ([], drop (length w) (c # s))
      else map_option (\<lambda>(l, r). (c # l, r)) (split_first_at (d + paren_depth c) w s))"

fun split_last_at :: "int \<Rightarrow> string \<Rightarrow> string \<Rightarrow> (string \<times> string) option" where
  "split_last_at d w [] = None"
| "split_last_at d w (c # s) = (case split_last_at (d + paren_depth c) w s of
       Some (l, r) \<Rightarrow> Some (c # l, r)
     | None \<Rightarrow> if d = 0 \<and> take (length w) (c # s) = w then Some ([], drop (length w) (c # s)) else None)"

fun pieces_at :: "int \<Rightarrow> char \<Rightarrow> string \<Rightarrow> string list" where
  "pieces_at d c [] = [[]]"
| "pieces_at d c (x # s) = (if d = 0 \<and> x = c then [] # pieces_at d c s
     else (case pieces_at (d + paren_depth x) c s of [] \<Rightarrow> [[x]] | p # ps \<Rightarrow> (x # p) # ps))"

text \<open>The rest of the group whose parenthesis has been read, and what follows it.\<close>

fun rest_of_group :: "int \<Rightarrow> string \<Rightarrow> (string \<times> string) option" where
  "rest_of_group d [] = None"
| "rest_of_group d (c # s) = (if d + paren_depth c = 0 then Some ([], s)
     else map_option (\<lambda>(g, r). (c # g, r)) (rest_of_group (d + paren_depth c) s))"

definition group_of :: "string \<Rightarrow> (nat \<times> string) option" where
  "group_of s = (case dropWhile (\<lambda>c. paren_depth c \<noteq> 1) s of
       [] \<Rightarrow> None
     | _ # s' \<Rightarrow> map_option (\<lambda>(g, r). (length s - length r, g)) (rest_of_group 1 s'))"

definition is_blank :: "char \<Rightarrow> bool" where
  "is_blank c \<longleftrightarrow> c = CHR '' ''"

definition trim_blanks :: "string \<Rightarrow> string" where
  "trim_blanks s = rev (dropWhile is_blank (rev (dropWhile is_blank s)))"

definition first_word_starts :: "string \<Rightarrow> string \<Rightarrow> bool" where
  "first_word_starts w s \<longleftrightarrow> take (length w) (dropWhile is_blank s) = w"

definition digits_value :: "string \<Rightarrow> nat" where
  "digits_value s = foldl (\<lambda>n c. 10 * n + (of_char c - 48)) 0 s"

definition strings :: cstring where
  "strings = \<lparr>
     cs_trim = trim_blanks,
     cs_str_cpy = pad20,
     cs_streq = (=),
     cs_contains = (\<lambda>c s. c \<in> set s),
     cs_contains_outside_parens = (\<lambda>w s. split_first_at 0 w s \<noteq> None),
     cs_char_outside_parens = (\<lambda>c s. split_first_at 0 [c] s \<noteq> None),
     cs_contains_paren = (\<lambda>s. CHR ''('' \<in> set s \<or> CHR '')'' \<in> set s),
     cs_contains_space = (\<lambda>s. CHR '' '' \<in> set s),
     cs_prefix_equal = (\<lambda>w s. take (length w) s = w),
     cs_first_word_is = first_word_starts,
     cs_remove_first_word = (\<lambda>s. dropWhile (\<lambda>c. \<not> is_blank c) (dropWhile is_blank s)),
     cs_last_split = split_last_at 0,
     cs_last_split_char = (\<lambda>c. split_last_at 0 [c]),
     cs_first_split = (\<lambda>c. split_first_at 0 [c]),
     cs_split_outside_parens = (\<lambda>n c s. let ss = pieces_at 0 c s in
        if length ss \<le> n then Some (ss @ replicate (n - length ss) []) else None),
     cs_copy_within_parens = (\<lambda>s. map_option snd (group_of s)),
     cs_next_paren_group = group_of,
     cs_pre_paren = takeWhile (\<lambda>c. c \<noteq> CHR ''(''),
     cs_parse_int = digits_value \<rparr>"

section \<open>Their laws\<close>

lemma starts_with: "take (length w) s = w \<Longrightarrow> s = w @ drop (length w) s"
  by (metis append_take_drop_id)

lemma split_first_at_Some:
  "split_first_at d w s = Some (a, b) \<Longrightarrow> s = a @ w @ b \<and> d + depth a = 0 \<and> w @ b \<noteq> []"
proof (induction s arbitrary: d a)
  case (Cons c s)
  show ?case
  proof (cases "d = 0 \<and> take (length w) (c # s) = w")
    case True
    with Cons.prems have "a = []" "b = drop (length w) (c # s)" by simp_all
    with True starts_with[of w "c # s"] show ?thesis by (auto simp: depth_def)
  next
    case False
    with Cons.prems obtain a' where a': "a = c # a'" "split_first_at (d + paren_depth c) w s = Some (a', b)" by auto
    from Cons.IH[OF a'(2)] a'(1) show ?thesis by (simp add: depth_def)
  qed
qed simp

lemma split_last_at_Some: "split_last_at d w s = Some (a, b) \<Longrightarrow> s = a @ w @ b \<and> d + depth a = 0"
proof (induction s arbitrary: d a)
  case (Cons c s)
  show ?case
  proof (cases "split_last_at (d + paren_depth c) w s")
    case None
    with Cons.prems have "d = 0" "take (length w) (c # s) = w" "a = []" "b = drop (length w) (c # s)"
      by (simp_all split: if_splits)
    with starts_with[of w "c # s"] show ?thesis by (simp add: depth_def)
  next
    case (Some x)
    with Cons.prems obtain a' where a': "a = c # a'" "x = (a', b)" by (cases x) auto
    from Cons.IH[OF Some[unfolded a'(2)]] a'(1) show ?thesis by (simp add: depth_def)
  qed
qed simp

lemma split_first_at_None:
  "split_first_at d w (a @ w @ b) = None \<Longrightarrow> w @ b \<noteq> [] \<Longrightarrow> d + depth a \<noteq> 0"
proof (induction a arbitrary: d)
  case Nil
  then show ?case by (cases "w @ b") (auto simp: depth_def split: if_splits dest: arg_cong[of _ _ "take (length w)"])
next
  case (Cons c a)
  then have "split_first_at (d + paren_depth c) w (a @ w @ b) = None" by (auto split: if_splits)
  from Cons.IH[OF this Cons.prems(2)] show ?case by (simp add: depth_def)
qed

lemma trim_blanks_parts: "\<exists>l r. s = l @ trim_blanks s @ r \<and> depth l = 0 \<and> depth r = 0"
proof -
  have blank: "depth t = 0" if "\<forall>c \<in> set t. is_blank c" for t
    using that by (induction t) (auto simp: depth_def paren_depth_def is_blank_def)
  let ?t = "dropWhile is_blank s"
  have "s = takeWhile is_blank s @ ?t" by simp
  moreover have "?t = trim_blanks s @ rev (takeWhile is_blank (rev ?t))"
    unfolding trim_blanks_def by (metis rev_append rev_rev_ident takeWhile_dropWhile_id)
  moreover have "depth (takeWhile is_blank s) = 0" "depth (rev (takeWhile is_blank (rev ?t))) = 0"
    by (rule blank, auto dest: set_takeWhileD)+
  ultimately show ?thesis by metis
qed

lemma pieces_at_length: "x \<in> set (pieces_at d c s) \<Longrightarrow> length x \<le> length s"
proof (induction s arbitrary: d x)
  case (Cons y s)
  show ?case
  proof (cases "d = 0 \<and> y = c")
    case True
    with Cons.prems have "x = [] \<or> x \<in> set (pieces_at d c s)" by auto
    with Cons.IH show ?thesis by force
  next
    case False
    with Cons.prems obtain p where "x = [y] \<or> x = y # p \<and> p \<in> set (pieces_at (d + paren_depth y) c s) \<or>
        x \<in> set (pieces_at (d + paren_depth y) c s)"
      by (cases "pieces_at (d + paren_depth y) c s") auto
    with Cons.IH show ?thesis by force
  qed
qed simp

lemma rest_of_group_length: "rest_of_group d s = Some (g, r) \<Longrightarrow> length g < length s"
  by (induction s arbitrary: d g) (auto split: if_splits)

lemma group_of_length: "group_of s = Some (off, g) \<Longrightarrow> length g < length s"
proof -
  assume "group_of s = Some (off, g)"
  then obtain c s' r where s': "dropWhile (\<lambda>c. paren_depth c \<noteq> 1) s = c # s'" "rest_of_group 1 s' = Some (g, r)"
    by (auto simp: group_of_def split: list.splits)
  have "length (c # s') \<le> length s" using length_dropWhile_le[of "\<lambda>c. paren_depth c \<noteq> 1" s] s'(1) by simp
  with rest_of_group_length[OF s'(2)] show ?thesis by simp
qed

lemma trim_blanks_length: "length (trim_blanks s) \<le> length s"
  using trim_blanks_parts[of s] by (metis le_add1 le_add2 le_trans length_append)

lemma hd_dropWhile_blank: "dropWhile is_blank s = [] \<or> \<not> is_blank (hd (dropWhile is_blank s))"
  using hd_dropWhile[of is_blank s] by blast

lemma dropWhile_hd: "s = [] \<or> \<not> P (hd s) \<Longrightarrow> dropWhile P s = s"
  by (cases s) auto

lemma trim_blanks_twice: "trim_blanks (trim_blanks s) = trim_blanks s"
proof -
  let ?u = "dropWhile is_blank (rev (dropWhile is_blank s))"
  have last: "?u = [] \<or> \<not> is_blank (hd ?u)" by (rule hd_dropWhile_blank)
  have "rev ?u = [] \<or> \<not> is_blank (hd (rev ?u))"
  proof (cases "?u = []")
    case False
    let ?t = "dropWhile is_blank s"
    have "?t \<noteq> []" using False by (metis dropWhile.simps(1) rev.simps(1))
    then have "\<not> is_blank (hd ?t)" by (rule hd_dropWhile)
    obtain v where v: "rev ?t = v @ ?u" by (metis takeWhile_dropWhile_id)
    then have "?t = rev ?u @ rev v" by (metis rev_append rev_rev_ident)
    with False have "hd ?t = hd (rev ?u)" by (metis hd_append2 rev_is_Nil_conv)
    with \<open>\<not> is_blank (hd ?t)\<close> show ?thesis by simp
  qed simp
  then have "dropWhile is_blank (rev ?u) = rev ?u" by (rule dropWhile_hd)
  moreover have "dropWhile is_blank ?u = ?u" using last by (rule dropWhile_hd)
  ultimately show ?thesis unfolding trim_blanks_def by simp
qed

lemma next_word_length:
  "length (dropWhile (\<lambda>c. \<not> is_blank c) (dropWhile is_blank s)) \<le> length s"
  "first_word_starts w s \<Longrightarrow> w \<noteq> [] \<Longrightarrow> length (dropWhile (\<lambda>c. \<not> is_blank c) (dropWhile is_blank s)) < length s"
proof -
  let ?t = "dropWhile is_blank s"
  have t: "length ?t \<le> length s" by (rule length_dropWhile_le)
  show "length (dropWhile (\<lambda>c. \<not> is_blank c) ?t) \<le> length s"
    using t length_dropWhile_le le_trans by blast
  assume "first_word_starts w s" "w \<noteq> []"
  then obtain c r where "?t = c # r" by (cases ?t) (auto simp: first_word_starts_def)
  moreover from this have "\<not> is_blank c" using hd_dropWhile_blank[of s] by simp
  ultimately have "length (dropWhile (\<lambda>c. \<not> is_blank c) ?t) < length ?t"
    using length_dropWhile_le[of "\<lambda>c. \<not> is_blank c" r] by (simp add: less_Suc_eq_le)
  with t show "length (dropWhile (\<lambda>c. \<not> is_blank c) ?t) < length s" by simp
qed

lemma strings_find_inside: "finds_inside strings"
  unfolding finds_inside_def strings_def cstring.simps
proof (intro conjI allI impI)
  fix w s assume "split_first_at 0 w s \<noteq> None"
  then obtain a b where "split_first_at 0 w s = Some (a, b)" by auto
  from split_first_at_Some[OF this] show "length w \<le> length s" by simp
next
  fix c s assume "split_first_at 0 [c] s \<noteq> None"
  then show "s \<noteq> []" by auto
next
  fix w s :: string assume "take (length w) s = w"
  then show "length w \<le> length s" by (metis length_take min.cobounded1)
next
  fix w s assume "first_word_starts w s"
  then have "length w \<le> length (dropWhile is_blank s)"
    unfolding first_word_starts_def by (metis length_take min.cobounded1)
  then show "length w \<le> length s" using length_dropWhile_le le_trans by blast
qed

lemma found_in_last_piece:
  assumes "split_last_at 0 ''.'' s = Some (a, b)" "split_first_at 0 w (trim_blanks b) = Some (u, v)"
  shows "split_first_at 0 w s \<noteq> None"
proof
  assume none: "split_first_at 0 w s = None"
  from split_last_at_Some[OF assms(1)] have s: "s = a @ ''.'' @ b" "depth a = 0" by simp_all
  from split_first_at_Some[OF assms(2)] have u: "trim_blanks b = u @ w @ v" "depth u = 0" "w @ v \<noteq> []" by simp_all
  obtain l r where b: "b = l @ trim_blanks b @ r" "depth l = 0" using trim_blanks_parts[of b] by blast
  have "s = (a @ ''.'' @ l @ u) @ w @ (v @ r)" using s(1) b(1) u(1) by simp
  moreover have "depth (a @ ''.'' @ l @ u) = 0" using s(2) b(2) u(2) by (simp add: depth_def paren_depth_def)
  moreover have "w @ v @ r \<noteq> []" using u(3) by auto
  ultimately show False using none split_first_at_None[of 0 w "a @ ''.'' @ l @ u" "v @ r"] by simp
qed

lemma strings_split: "splits strings"
  unfolding splits_def strings_def cstring.simps
proof (intro conjI allI impI)
  fix w s a b assume "split_last_at 0 w s = Some (a, b) \<and> split_first_at 0 w s \<noteq> None \<and> w \<noteq> []"
  then have "split_last_at 0 w s = Some (a, b)" "0 < length w" by auto
  with split_last_at_Some[of 0 w s a b] show "length a + length b < length s" by simp
next
  fix c s a b assume "split_last_at 0 [c] s = Some (a, b)"
  from split_last_at_Some[OF this] show "length a + length b \<le> length s" "length a + length b < length s" by simp_all
next
  fix c s a b assume "split_first_at 0 [c] s = Some (a, b)"
  from split_first_at_Some[OF this] show "length a + length b \<le> length s" "length a + length b < length s" by simp_all
next
  fix n c s ss x
  assume "(let ss = pieces_at 0 c s in if length ss \<le> n then Some (ss @ replicate (n - length ss) []) else None) = Some ss \<and> x \<in> set ss"
  then have "x \<in> set (pieces_at 0 c s) \<or> x = []" by (auto simp: Let_def split: if_splits)
  then show "length x \<le> length s" using pieces_at_length by auto
next
  fix w s a b
  assume a: "split_last_at 0 ''.'' s = Some (a, b) \<and> split_first_at 0 w (trim_blanks b) \<noteq> None"
  then obtain u v where "split_first_at 0 w (trim_blanks b) = Some (u, v)" by auto
  with a found_in_last_piece show "split_first_at 0 w s \<noteq> None" by blast
qed

lemma strings_shorten: "shortens strings"
proof -
  have "trims strings"
    by (simp add: trims_def strings_def trim_blanks_length trim_blanks_twice)
  moreover have "cuts strings"
    using group_of_length next_word_length by (auto simp: cuts_def strings_def)
  ultimately show ?thesis by (simp add: shortens_def strings_find_inside strings_split)
qed

section \<open>Texts\<close>

definition counting_text :: string where
  "counting_text = ''var x = 1, while (x < 10) {x = x+1}, return x''"

definition counting_tree :: tree where
  "counting_tree = T_Let (T_Binding ''x'' (T_Constant 1))
     (T_Sequence
       (T_While (T_BinOp CHR ''<'' (T_VarReference ''x'') (T_Constant 10))
         (T_Assignment (T_VarReference ''x'') (T_BinOp CHR ''+'' (T_VarReference ''x'') (T_Constant 1))))
       (T_Return (T_VarReference ''x'')))"

theorem parser_has_one_solution_witness:
  "parser_equations strings (\<lambda>s. parse_expression strings (Suc (length s)) s) (\<lambda>s. parse_statement strings (parse_fuel s) s)"
  using parser_has_one_solution[OF strings_shorten] by blast

theorem operators_confused_witness:
  "parse_expression strings 3 ''a>=b'' (pool_new 400 union_new) = parse_expression strings 3 ''a> b'' (pool_new 400 union_new)"
  by (rule operators_confused[where op = "''>=''" and op' = "''> ''"]) code_simp+

lemma counting_text_read: "tree_statement strings (parse_fuel counting_text) counting_text = Some counting_tree"
  by code_simp

theorem parse_leaves_tree_witness:
  "\<exists>a. parse strings counting_text = Some a \<and> as_type_top cut0 a = Some (T_transaction counting_tree 0)"
proof (rule parse_leaves_tree[OF _ counting_text_read])
  show "\<not> cs_contains strings CHR '';'' counting_text" by code_simp
  show "nodes counting_tree \<le> 400" by code_simp
  show "\<forall>s \<in> set (tree_strings counting_tree). survives (cs_str_cpy strings) cut0 s" by code_simp
qed

end
