(* ===== verification/Program.thy ===== *)
theory Program
  imports Compile ParseExamples TypeExamples
begin

text \<open>
  From the text of a transaction to its phases, \<open>mtl/transaction.hpp\<close>: the parser in front of the driver of
  \<open>Compile\<close>, the theorem about a whole program, and texts that mean something else than they say.
\<close>

section \<open>The pipeline from text\<close>

definition new_parsed :: "cstring \<Rightarrow> (string \<Rightarrow> string) \<Rightarrow> string \<Rightarrow> tree option" where
  "new_parsed C trim_ends text = do { prev \<leftarrow> parse C text; as_type_top trim_ends prev }"

text \<open>\<open>pre_transaction_str::with\<close>: the values that the program is given are the bindings \<open>args\<close>.\<close>

definition with_values ::
  "cstring \<Rightarrow> (string \<Rightarrow> string) \<Rightarrow> type_facts \<Rightarrow> (must_flow_to list \<Rightarrow> must_flow_to list) \<Rightarrow>
   (must_flow_to list \<Rightarrow> must_flow_to list) \<Rightarrow> (label list \<Rightarrow> label list) \<Rightarrow> (label list \<Rightarrow> label list) \<Rightarrow>
   vbinding list \<Rightarrow> string \<Rightarrow> inferred_and_recollapsed option" where
  "with_values C trim_ends T csort dedupe as_set srt args text = do {
     prev \<leftarrow> new_parsed C trim_ends text;
     inferred_t \<leftarrow> typecheck_program T csort dedupe srt args prev;
     compile as_set srt args inferred_t }"

text \<open>C1: the text of a transaction, from the parser to the end of its last phase.  If the grammar reads
  the text as \<open>t\<close>, and \<open>t\<close> fits into the pool, then what \<open>TRANSACTION(text)\<close> compiles to returns what the
  tracked and endorsed program of \<open>t\<close> returns when it is run as it is written.  The hypotheses are those of
  \<open>parse_leaves_tree\<close> and of \<open>compiled_transaction_runs\<close>.\<close>

theorem text_runs:
  assumes read: "\<not> cs_contains C CHR '';'' text" "tree_statement C (parse_fuel text) text = Some t" "nodes t \<le> 400"
      "\<forall>s \<in> set (tree_strings t). survives (cs_str_cpy C) trim_ends s"
    and checked: "typecheck_program T csort dedupe srt args (T_transaction t 0) = Some inferred_t"
    and passes: "insert_tracking_begin as_set srt [] inferred_t = Some tracked_t" "do_pre_endorse tracked_t = Some c"
      "\<not> contains_endorsement [] False c" "do_pre_endorse inferred_t \<noteq> None"
    and split: "easy_processing_pass c = Some a" "split_computation srt c (env_bindings (start_env args)) = Some ps"
      "recollapse ps = Some rs" "relabel rs = Some qs"
    and run: "sound_labels lam isloop a (rev (collect_proper_labels srt c))"
      "src_stmt k a (\<lambda>_. []) = Some (ret, F)" "steady isloop F" "k \<le> k'"
    and store: "fresh_store isloop V (needed ps \<union> written a) (all_store ps)" "\<forall>x \<in> needed ps \<inter> V. isloop x"
    and fits: "recollapsible ps" "list_all2 (\<lambda>rs q. rs \<noteq> [] \<and> store_commit (hd rs) \<noteq> None) rss ps"
  shows "\<exists>r st. with_values C trim_ends T csort dedupe as_set srt args text = Some r \<and>
    run_transaction k' ops store_commit (recollapsed r) rss (all_store (recollapsed r)) = Some (ret, st)"
proof -
  have parsed: "new_parsed C trim_ends text = Some (T_transaction t 0)"
    unfolding new_parsed_def by (rule parsed_text_reads_back[OF read])
  have resume: "resume_compilation_inferred srt args c = Some qs"
    using split by (simp add: resume_compilation_inferred_def)
  obtain r where r: "compile as_set srt args inferred_t = Some r" "recollapsed r = qs"
    using passes resume by (auto simp: compile_def require_def)
  have "with_values C trim_ends T csort dedupe as_set srt args text = Some r"
    using parsed checked r(1) by (simp add: with_values_def)
  moreover obtain st where "run_transaction k' ops store_commit qs rss (all_store qs) = Some (ret, st)"
    using resumed_transaction_runs[OF resume split(1,2) run(1-4) store fits] by blast
  ultimately show ?thesis using r(2) by blast
qed

definition if_text :: string where
  "if_text = ''var x = 2, if (x > 1) {x = x + 3} else {x = 0}, return x''"

abbreviation var_x :: tree where "var_x \<equiv> T_VarReference ''x''"

definition if_tree :: tree where
  "if_tree = T_Let (T_Binding ''x'' (T_Constant 2))
     (T_Sequence
       (T_If (T_BinOp CHR ''>'' var_x (T_Constant 1)) (T_Assignment var_x (T_BinOp CHR ''+'' var_x (T_Constant 3)))
         (T_Assignment var_x (T_Constant 0)))
       (T_Return var_x))"
text \<open>What the checker makes of it, with the names of the temporaries that the flattener generates.\<close>

definition temp :: "string \<Rightarrow> name" where "temp s = ''anorm'' @ s"

abbreviation top_int :: "name \<Rightarrow> lexpr \<Rightarrow> lstmt \<Rightarrow> lstmt" where
  "top_int x e s \<equiv> LS_Let Top (LBinding Top Y_int x e) s"

definition if_inferred :: lstmt where
  "if_inferred = top_int ''x'' (LE_Constant 2) (LS_Sequence Top
     [top_int (temp [CHR 0x01, CHR 0x02]) (LE_Constant 1)
       (LS_Let Top (LBinding Top Y_bool (temp [CHR 0x01, CHR 0x04])
           (LE_BinOp Top Y_bool CHR ''>'' (int_var Top ''x'') (int_var Top (temp [CHR 0x01, CHR 0x02]))))
         (LS_If Top (LE_VarReference Top Y_bool (temp [CHR 0x01, CHR 0x04]))
           (top_int (temp [CHR 0x01, CHR 0x07]) (LE_Constant 3)
             (top_int (temp [CHR 0x01, CHR 0x09])
               (LE_BinOp Top Y_int CHR ''+'' (int_var Top ''x'') (int_var Top (temp [CHR 0x01, CHR 0x07])))
               (LS_Assignment Top (int_var Top ''x'') (int_var Top (temp [CHR 0x01, CHR 0x09])))))
           (top_int (temp [CHR 0x02, CHR 0x07]) (LE_Constant 0)
             (LS_Assignment Top (int_var Top ''x'') (int_var Top (temp [CHR 0x02, CHR 0x07])))))),
      LS_Return (int_var Top ''x'')])"

definition if_named :: nstmt where "if_named = the (easy_processing_pass if_inferred)"

definition if_phases :: "phase list" where
  "if_phases = the (split_computation label_sort if_inferred (env_bindings (start_env [])))"

lemma if_text_read:
  "\<not> cs_contains strings CHR '';'' if_text" "tree_statement strings (parse_fuel if_text) if_text = Some if_tree"
  "nodes if_tree \<le> 400" "\<forall>s \<in> set (tree_strings if_tree). survives (cs_str_cpy strings) cut0 s"
  by code_simp+

lemma if_checked: "typecheck_program no_types (sort_by lte) remdups label_sort [] (T_transaction if_tree 0) = Some if_inferred"
  by code_simp

lemma if_passes:
  "insert_tracking_begin remdups label_sort [] if_inferred = Some if_inferred"
  "do_pre_endorse if_inferred = Some if_inferred" "\<not> contains_endorsement [] False if_inferred"
  by code_simp+

lemma if_split:
  "easy_processing_pass if_inferred = Some if_named"
  "split_computation label_sort if_inferred (env_bindings (start_env [])) = Some if_phases"
  by code_simp+

lemma if_recollapse: "recollapse if_phases \<noteq> None" "relabel (the (recollapse if_phases)) \<noteq> None"
  by code_simp+

lemma if_recollapsible: "recollapsible if_phases" "length if_phases = 2"
  by code_simp+

lemma if_labels: "sound_labels (\<lambda>_. Top) (\<lambda>_. False) if_named (rev (collect_proper_labels label_sort if_inferred))"
  by code_simp

lemma if_store:
  "fresh_store (\<lambda>_. False) (temporaries if_phases) (needed if_phases \<union> written if_named) (all_store if_phases)"
  by code_simp

lemma if_needed: "needed if_phases \<inter> temporaries if_phases = {}"
  by code_simp

lemma if_run: "map_option fst (src_stmt 1 if_named (\<lambda>_. [])) = Some (Some (V_int 5))"
  by code_simp

theorem text_runs_witness:
  "\<exists>r st. with_values strings cut0 no_types (sort_by lte) remdups remdups label_sort [] if_text = Some r \<and>
    run_transaction 1 no_store Some (recollapsed r) [[()], [()]] (all_store (recollapsed r)) = Some (Some (V_int 5), st)"
proof -
  obtain F where run: "src_stmt 1 if_named (\<lambda>_. []) = Some (Some (V_int 5), F)" using if_run by auto
  obtain rs qs where rs: "recollapse if_phases = Some rs" "relabel rs = Some qs" using if_recollapse by auto
  have commits: "list_all2 (\<lambda>rs q. rs \<noteq> [] \<and> Some (hd rs) \<noteq> None) [[()], [()]] if_phases"
    using if_recollapsible(2) by (auto simp: list_all2_conv_all_nth less_Suc_eq numeral_eq_Suc)
  have steady: "steady (\<lambda>_. False) F" by (simp add: steady_def)
  show ?thesis
    by (rule text_runs[OF if_text_read if_checked if_passes _ if_split rs if_labels run steady _ if_store _
          if_recollapsible(1) commits]) (simp_all add: if_needed if_passes(2))
qed

section \<open>Texts that mean something else\<close>

text \<open>What a program of local values returns: \<^term>\<open>None\<close> if it does not compile.\<close>

definition local_result :: "inferred_and_recollapsed \<Rightarrow> mvalue option option" where
  "local_result r = map_option fst (run_transaction 3 no_store Some (recollapsed r) (map (\<lambda>_. [()]) (recollapsed r))
     (all_store (recollapsed r)))"

definition text_result :: "string \<Rightarrow> mvalue option option" where
  "text_result text = do {
     r \<leftarrow> with_values strings cut0 no_types (sort_by lte) remdups remdups label_sort [] text; local_result r }"

text \<open>The same for the tree of a text.\<close>

definition tree_result :: "tree \<Rightarrow> mvalue option option" where
  "tree_result t = do {
     inferred_t \<leftarrow> typecheck_program no_types (sort_by lte) remdups label_sort [] (T_transaction t 0);
     r \<leftarrow> compile remdups label_sort [] inferred_t;
     local_result r }"

lemma text_result_tree:
  assumes "tree_statement strings (parse_fuel str) str = Some t" "CHR '';'' \<notin> set str" "nodes t \<le> 400"
    and "list_all (survives pad20 cut0) (tree_strings t)"
  shows "text_result str = tree_result t"
proof -
  have "new_parsed strings cut0 str = Some (T_transaction t 0)"
    unfolding new_parsed_def
    by (rule parsed_text_reads_back) (use assms in \<open>simp_all add: strings_def list_all_iff\<close>)
  then show ?thesis by (simp add: text_result_def tree_result_def with_values_def)
qed

text \<open>What the parser does to the operators reaches the results.  \<open>1>=1\<close> is compiled as
  \<open>1 > 1\<close>; a comparison of a sum is compiled as the sum of a comparison, since \<open>+\<close> is looked for
  before \<open>==\<close>; and programs with \<open>!=\<close> or \<open><=\<close> do not compile at all.\<close>

lemma operators_miscompiled:
  "text_result ''return 1>=1'' = Some (Some (V_bool False)) \<and>
   text_result ''var x = 1, return x + x == x'' = Some (Some (V_int 2)) \<and>
   text_result ''var x = 1, return x != x'' = None \<and> text_result ''var x = 1, return x <=x'' = None"
proof (intro conjI)
  have "text_result ''return 1>=1'' = tree_result (T_Return (T_BinOp CHR ''>'' (T_Constant 1) (T_Constant 1)))"
    by (rule text_result_tree) code_simp+
  also have "\<dots> = Some (Some (V_bool False))" by code_simp
  finally show "text_result ''return 1>=1'' = Some (Some (V_bool False))" .
  have "text_result ''var x = 1, return x + x == x'' =
      tree_result (T_Let (T_Binding ''x'' (T_Constant 1)) (T_Return (T_BinOp CHR ''+'' var_x (T_BinOp CHR ''='' var_x var_x))))"
    by (rule text_result_tree) code_simp+
  also have "\<dots> = Some (Some (V_int 2))" by code_simp
  finally show "text_result ''var x = 1, return x + x == x'' = Some (Some (V_int 2))" .
  have "text_result ''var x = 1, return x != x'' =
      tree_result (T_Let (T_Binding ''x'' (T_Constant 1)) (T_Return (T_BinOp CHR ''!'' var_x var_x)))"
    by (rule text_result_tree) code_simp+
  also have "\<dots> = None" by code_simp
  finally show "text_result ''var x = 1, return x != x'' = None" .
  have "text_result ''var x = 1, return x <=x'' =
      tree_result (T_Let (T_Binding ''x'' (T_Constant 1)) (T_Return (T_BinOp CHR ''<'' var_x (T_VarReference ''=x''))))"
    by (rule text_result_tree) code_simp+
  also have "\<dots> = None" by code_simp
  finally show "text_result ''var x = 1, return x <=x'' = None" .
qed

end
