(* ===== verification/Spec2Isabelle.thy ===== *)
theory Spec2Isabelle
  imports LabelInference Flatten ClientTracker SplitTermination SplitExamples TypeSafety TypeExamples InsertTracking Program
begin

text \<open>
  MixT: the transaction compiler of \<open>src/transactions\<close>.

  \<^bold>\<open>The program.\<close>  A MixT transaction is a string, given to a C++ macro.  The compiler runs inside the C++
  compiler (\<open>mtl/transaction.hpp\<close>): a \<open>constexpr\<close> parser builds a syntax tree in a fixed pool
  of nodes (\<open>mtl/new-parsing/parse.hpp\<close>), \<open>as_type\<close> turns the pool into a type, which is
  converted to the tree of \<open>parse_phase\<close>, flattened to A-normal form, typed and labelled with
  temporary consistency labels, and given real labels by inference.  Later passes insert the
  tracking of causality, split the transaction into one phase per label, and run each phase on
  the store of its label, at runtime, with the values it exchanges with the other phases.

  \<^bold>\<open>The model.\<close>  A template program is a function on datatypes, and \<^term>\<open>None\<close> means that it does not
  compile (a \<open>static_assert\<close>, a missing overload or an incomplete type).

  \<^item> \<open>Prelude\<close>: conventions and shared lemmas.
  \<^item> \<open>Labels\<close> (\<open>mtl/top.hpp\<close>, \<open>label_utilities.hpp\<close>, \<open>pre_endorse.hpp\<close>, the labels of the
    stores): the flow relation, minima and their resolution.  The locale \<open>label_order\<close> states
    what a set of labels must satisfy; it is interpreted for the labels of the SQL stores
    (\<open>sql\<close>) and of the testing store (\<open>testing\<close>), and its lemmas give the properties of
    minima, of \<open>min_of\<close>, and of inference.
  \<^item> \<open>Pool\<close> (\<open>mtl/new-parsing/array.hpp\<close>, \<open>allocator.hpp\<close>, \<open>allocated_ref.hpp\<close>): arrays, slots
    and references.  The locale \<open>indexed\<close> is the contract of reading and writing by index,
    interpreted on \<open>array\<close>.
  \<^item> \<open>Ast\<close> (\<open>mtl/new-parsing/ast.hpp\<close>, \<open>union.hpp\<close>): the tagged union, the two forms of the
    parser's tree, and the conversions between them.  The lemmas see a tree as a node with
    children; \<open>represents\<close> relates a pool to the tree it holds, \<open>built\<close> is the contract of a
    conversion, and the round trip and the exact memory need follow from it.
  \<^item> \<open>Parse\<close> (\<open>mtl/new-parsing/parse.hpp\<close>): the recursive-descent parser, which splits a text at its
    separators.  \<open>ParseCorrect\<close>: its recursion ends, and texts whose operators it confuses.  \<open>ParseTree\<close>: the same grammar
    without a pool, and the theorem that the parser leaves its tree in the pool.  \<open>ParseExamples\<close> has functions on
    strings with the laws that these theorems need.
  \<^item> \<open>OldAst\<close> (\<open>mtl/AST_parse.hpp\<close>, \<open>new-parsing/to-old-ast-parse.hpp\<close>): the compiler's tree
    and the conversion to it.
  \<^item> \<open>Flatten\<close> (\<open>mtl/flatten_expressions.hpp\<close>): \<open>desugar_while\<close>, \<open>remove_layer\<close>,
    \<open>flatten_exprs\<close>; A-normal form, scoping, and what one step hoists.
  \<^item> \<open>TypedAst\<close> (\<open>mtl/AST_typecheck.hpp\<close>, \<open>replace_label.hpp\<close>, \<open>collect_proper_label.hpp\<close>,
    \<open>contains_improper_labels.hpp\<close>): the labelled tree and the traversals over its labels.
  \<^item> \<open>LabelInference\<close> (\<open>mtl/label_inference.hpp\<close>): constraints and their solution; an accepted program
    whose handles have labels of the program satisfies its constraints, and a forbidden flow is rejected.

  \<^item> \<open>Typecheck\<close> (\<open>mtl/typecheck_and_label_impl.hpp\<close> and the files it includes, \<open>builtins.hpp\<close>): environments, and
    the checking of expressions and statements, which makes the labelled tree.  \<open>TypeSafety\<close>: accepted
    programs keep their types when they run; \<open>TypeExamples\<close>: which variables share a temporary label.
  \<^item> \<open>InsertTracking\<close> (\<open>mtl/insert_tracking.hpp\<close>, \<open>writes_remote.hpp\<close>): which labels track which, and the
    statements that announce strong writes.
  \<^item> \<open>SplitAst\<close> (\<open>mtl/AST_split.hpp\<close>, \<open>split_phase_utils.hpp\<close>, \<open>split_phase_impl_utils.hpp\<close>,
    \<open>remove_unused.hpp\<close>, \<open>remove_empties.hpp\<close>): the program of one phase, what phases require and
    provide, and the passes that clean a phase.
  \<^item> \<open>SplitPhase\<close> (\<open>mtl/split_phase.hpp\<close>, \<open>name_while.hpp\<close>): names of loops, the extraction of a
    phase, and the sequence of phases.
  \<^item> \<open>Runtime\<close> (\<open>mtl/environments.hpp\<close>, \<open>run_phase.hpp\<close>, the store of
    \<open>runnable_transaction.hpp\<close>): the holders of the variables and the interpreter of a phase.
    \<open>Interp\<close> (\<open>run_phase.hpp\<close>, \<open>interp.hpp\<close>): the attempts of a phase and the transaction.
  \<^item> \<open>SplitClean\<close>: the cleaning passes do not change runs.  \<open>Source\<close> is the reference semantics of an
    unsplit program, whose state is the list of all values that each variable had.  \<open>Replay\<close>
    simulates the run of the program by the run of one phase, \<open>PhaseForm\<close> has what extraction
    guarantees of a phase and the cleaning passes keep, \<open>SplitCorrect\<close> puts the phases together,
    and \<open>SplitTermination\<close> shows which phases cannot loop.  \<open>SplitExamples\<close> has a program that is
    replayed and two that are not.
  \<^item> \<open>Endorse\<close> (\<open>mtl/endorse_relabel.hpp\<close>, \<open>worklist.hpp\<close>): the variables that endorsed ones depend on,
    found with a worklist, and their new labels.
  \<^item> \<open>Recollapse\<close> (\<open>mtl/recollapse.hpp\<close>, \<open>without_names.hpp\<close>, \<open>relabel.hpp\<close>): temporaries go back into
    the expressions that use them, and pre-endorsed phases get the labels that they stand for; runs do not change.
  \<^item> \<open>Compile\<close> (\<open>mtl/transaction.hpp\<close>): the passes together, the theorem that a compiled transaction
    computes what its program computes, and a program with an endorsement for which it does not.
    \<open>Program\<close>: the same from the text of a transaction, and texts whose operators are compiled wrongly.
  \<^item> \<open>Clock\<close> (\<open>tracker/Ends.hpp\<close>, \<open>Ends.cpp\<close>, \<open>ClockManager.cpp\<close>): vector clocks, and the two threads
    that write and read the global minimum as a step relation.
  \<^item> \<open>TestingStore\<close> (\<open>testing_store/TestingStore.hpp\<close>, \<open>tracker/Tombstone.cpp\<close>,
    \<open>trackable_datastore_impl.hpp\<close>): the in-memory store and the interface of the tracker to a
    store, whose laws are the locale \<open>tombstone_store\<close>.
  \<^item> \<open>Tracker\<close> (\<open>tracker/Tracker.cpp\<close>, \<open>find_tombstones.hpp\<close>, \<open>server/transaction_listener.hpp\<close>):
    metanames, tombstones, the contexts of transactions, and what a listener replies.
  \<^item> \<open>ClientTracker\<close> (\<open>tracker/ClientTracker.hpp\<close>, \<open>mtl/remote_interp.hpp\<close>): the obligations of a
    client and sessions of it.

  \<^bold>\<open>Bounds and fuel.\<close>  \<open>as_type\<close> has the 1000 levels of the code.  Names of the flattener are
  numbered by \<open>char\<close>s, so depth and sequence numbers stop at 127, which also bounds its
  recursion.  \<open>replace_all_less_than\<close> is given the length of its list as fuel: each call drops
  one constraint and sorting keeps the length, so it never runs out.
  \<open>parse\<close> has two more than the length of the text; its equations without fuel have this solution and no
  other (\<open>parser_has_one_solution\<close>).
  Phases and the reference semantics have the same fuel for the iterations of loops: a
  phase runs with any fuel that is enough for the program (\<open>transaction_replays\<close>), and needs none
  if it has no loop of its own label (\<open>replay_terminates\<close>).  The attempts of a phase are bounded by
  the list of the states in which they find the data stores.

  \<^bold>\<open>Parameters.\<close>  The \<open>mutils\<close> libraries are submodules and not in the repository.  What the code uses of them is
  an argument of the model: string copies and trimming in \<open>Ast\<close>, the functions on strings of the parser
  (the record \<open>cstring\<close>; its instance \<open>strings\<close> only serves the witnesses), the sorts and sets of types
  in \<open>LabelInference\<close>, with what is relied on as a hypothesis of the theorem and an instance
  in its witness.

  What a phase does with its data store is a record of operations (\<open>remote_ops\<close>).

  \<^bold>\<open>Not modelled.\<close>  The transfer of the holders of a phase to a remote process
  (\<open>environments_serialization.hpp\<close> and the relay of the server), since it is the serialization of \<open>mutils\<close>
  applied member by member: here all phases run in one process.  The SQL stores, whose operations are query
  texts handed to the database.  The old parser, which nothing uses any more.  Printers, test programs
  and network I/O.  The exceptions of a phase are not told apart (\<open>common_interp\<close>), the clocks come
  from one receiving thread, and a handle is not shared through the pointer inside it.
\<close>

end
